(* ===== verification/Prelude.thy ===== *)
theory Prelude
  imports Main "HOL-Library.Word" "HOL-Library.Multiset" "HOL-Library.Monad_Syntax"
begin

text \<open>
  Shared vocabulary of the development.

  \<^item> \<^verbatim>\<open>Address\<close>, the 64-bit unsigned integers of \<^verbatim>\<open>src/src/common/global_const.h\<close>.
  \<^item> Aborts.  A failed \<^verbatim>\<open>assert\<close>, a \<^verbatim>\<open>panic\<close> and a dereferenced null pointer end the
    simulator.  An operation that can abort returns an option, and \<^const>\<open>None\<close> is the abort;
    \<open>assert_that\<close> is the \<^verbatim>\<open>assert\<close> of the source.
  \<^item> Null pointers that the source tests for are ordinary \<^typ>\<open>'a option\<close> values.
  \<^item> Collections of rewrite rules used by the component theories.
\<close>

unbundle bit_operations_syntax

named_theorems word_arith_simps \<open>word facts shared by the components\<close>
named_theorems frame_simps \<open>what an operation leaves unchanged\<close>

type_synonym Address = "64 word"

subsection \<open>Aborts\<close>

definition assert_that :: "bool \<Rightarrow> unit option" where
  "assert_that b = (if b then Some () else None)"

lemma assert_that_simps [simp]:
  "assert_that True = Some ()"
  "assert_that False = None"
  by (simp_all add: assert_that_def)

lemma assert_that_bind [simp]:
  "(assert_that b \<bind> f = Some x) \<longleftrightarrow> b \<and> f () = Some x"
  by (cases b) simp_all

lemma assert_that_Some [simp]: "assert_that b = Some u \<longleftrightarrow> b"
  by (simp add: assert_that_def)

lemma assert_that_bind_eq:
  "(do { _ \<leftarrow> assert_that b; m }) = (if b then m else None)"
  by (cases b) simp_all

lemma bind_SomeE [elim]:
  assumes "m \<bind> f = Some y"
  obtains x where "m = Some x" and "f x = Some y"
  using assms by (cases m) auto

text \<open>A loop whose body can abort.\<close>
primrec fold_opt :: "('a \<Rightarrow> 's \<Rightarrow> 's option) \<Rightarrow> 'a list \<Rightarrow> 's \<Rightarrow> 's option" where
  "fold_opt f [] s = Some s"
| "fold_opt f (x # xs) s = f x s \<bind> fold_opt f xs"

lemma fold_opt_append: "fold_opt f (xs @ ys) s = fold_opt f xs s \<bind> fold_opt f ys"
  by (induction xs arbitrary: s) (auto intro!: bind_option_cong)

text \<open>An invariant of the body is one of the loop.\<close>
lemma fold_opt_inv:
  assumes "fold_opt f xs s = Some s'" and "P s"
    and "\<And>x s s'. x \<in> set xs \<Longrightarrow> P s \<Longrightarrow> f x s = Some s' \<Longrightarrow> P s'"
  shows "P s'"
  using assms by (induction xs arbitrary: s) (auto elim!: bind_SomeE)

subsection \<open>Words\<close>

lemma unat_dec [word_arith_simps]:
  "(w :: 'a::len word) \<noteq> 0 \<Longrightarrow> unat (w - 1) = unat w - 1"
  by (metis unat_minus_one)

lemma unat_inc [word_arith_simps]:
  "Suc (unat (w :: 'a::len word)) < 2 ^ LENGTH('a) \<Longrightarrow> unat (w + 1) = Suc (unat w)"
  by (simp add: unat_word_ariths)

lemma unat_drop_bit [word_arith_simps]:
  "unat (drop_bit n (w :: 'a::len word)) = unat w div 2 ^ n"
  using unat_drop_bit_eq [of n w] drop_bit_eq_div [of n "unat w"] by simp

lemma unat_and_mask [word_arith_simps]:
  "unat (w AND mask n :: 'a::len word) = unat w mod 2 ^ n"
proof -
  have "unat (take_bit n w) = take_bit n (unat w)" by (rule unsigned_take_bit_eq)
  then show ?thesis using take_bit_eq_mod [of n "unat w"] by (simp add: take_bit_eq_mask)
qed

subsection \<open>Time\<close>

lemma add32:
  assumes "unat (x :: 64 word) < 2 ^ 63"
  shows "unat (x + ucast (y :: 32 word)) = unat x + unat y" and "x \<le> x + ucast y"
proof -
  have "unat (ucast y :: 64 word) = unat y" "unat y < 2 ^ 32"
    using unsigned_less [of y, where 'a = nat] by (simp_all add: unsigned_ucast_eq take_bit_nat_eq_self)
  then show 1: "unat (x + ucast y) = unat x + unat y" using assms by (simp add: unat_word_ariths)
  show "x \<le> x + ucast y" by (simp add: word_le_nat_alt 1)
qed

text \<open>\<open>later t b t'\<close>: the time \<open>t'\<close> is not before \<open>t\<close> and at most \<open>b\<close> after it.\<close>
definition later :: "64 word \<Rightarrow> nat \<Rightarrow> 64 word \<Rightarrow> bool" where
  "later t b t' \<longleftrightarrow> unat t \<le> unat t' \<and> unat t' \<le> unat t + b"

lemma later_refl [simp]: "later t b t"
  by (simp add: later_def)

lemma later_add32: "unat t < 2 ^ 63 \<Longrightarrow> later t (2 ^ 32) (t + ucast (y :: 32 word))"
  using unsigned_less [of y, where 'a = nat] by (simp add: later_def add32)

lemma later_trans: "later t b t' \<Longrightarrow> later t' c t'' \<Longrightarrow> later t (b + c) t''"
  by (simp add: later_def)

lemma later_mono: "later t b t' \<Longrightarrow> b \<le> c \<Longrightarrow> later t c t'"
  by (simp add: later_def)

lemma later_add32': "unat t < 2 ^ 62 \<Longrightarrow> later t (2 ^ 33) (t + ucast (y :: 32 word))"
  by (rule later_mono [OF later_add32]) simp_all

lemma later_add32_twice: "unat t < 2 ^ 62 \<Longrightarrow> later t (2 ^ 33) (t + ucast (y :: 32 word) + ucast (z :: 32 word))"
  using later_trans [OF later_add32 later_add32, of t y z] later_add32 [of t y] by (simp add: later_def)

lemma later_le: "later t b t' \<Longrightarrow> t \<le> t'"
  by (simp add: later_def word_le_nat_alt)

lemma later_max: "later t b t' \<Longrightarrow> later t b t'' \<Longrightarrow> later t b (max t' t'')"
  by (auto simp: later_def max_def)

subsection \<open>Lists\<close>

lemma last_append_singleton: "xs \<noteq> [] \<Longrightarrow> last (x # xs) = last xs"
  by simp

lemma remove1_split:
  "x \<notin> set us \<Longrightarrow> remove1 x (us @ x # vs) = us @ vs"
  by (induction us) auto

end
