(* ===== verification/Common_Functions.thy ===== *)
theory Common_Functions
  imports Prelude
begin

text \<open>
  The constants of \<^verbatim>\<open>src/src/common/global_const.h\<close> and the inline functions of
  \<^verbatim>\<open>src/src/common/common_functions.h\<close>: bit fields, integer power, page sizes, base-two
  logarithms and the translations from configuration strings.
\<close>

subsection \<open>Constants and enumerations\<close>

definition MAXORDER :: nat where "MAXORDER = 11"

definition PAGE_FAULT_SIG :: Address where "PAGE_FAULT_SIG = - 1"

definition PAGE_SHIFT :: nat where "PAGE_SHIFT = 12"
definition PAGE_2MB_SHIFT :: nat where "PAGE_2MB_SHIFT = 20"
definition PAGE_4MB_SHIFT :: nat where "PAGE_4MB_SHIFT = 22"
definition PAGE_1GB_SHIFT :: nat where "PAGE_1GB_SHIFT = 30"

definition PAGE_2MB :: "32 word" where "PAGE_2MB = push_bit PAGE_2MB_SHIFT 1"

datatype PagingStyle =
    Legacy_Normal | Legacy_Huge
  | PAE_Normal | PAE_Huge
  | LongMode_Normal | LongMode_Middle | LongMode_Huge

datatype ZoneType = Zone_DMA | Zone_DMA32 | Zone_Normal | Zone_HighMem | MAX_NR_ZONES

definition GFP_DMA :: "32 word" where "GFP_DMA = 0x01"
definition GFP_HighMem :: "32 word" where "GFP_HighMem = 0x02"
definition GFP_DMA32 :: "32 word" where "GFP_DMA32 = 0x04"
definition GFP_COLD :: "32 word" where "GFP_COLD = 0x08"

datatype EVICTSTYLE = LRU | HOTNESSAware | HotMonitorTLBLRU

datatype MemType =
    MEM_SIMPLE | MEM_MD1 | MEM_WEAVEMD1 | MEM_WEAVESIMPLE
  | MEM_DDR | MEM_DRAMSIM | MEM_DETAILED | MEM_RAMULATOR

subsection \<open>Bit fields\<close>

text \<open>
  \<^verbatim>\<open>mask\<close> computes \<^verbatim>\<open>(1<<bit_len)-1\<close> in the type \<^verbatim>\<open>int\<close> and converts the result to 64 bits, so the
  shift count is taken modulo 32 and the result is sign-extended; C leaves the lengths outside
  0 to 30 (and other than 64) undefined, the model takes the two's complement result there.
\<close>
definition mask_c :: "int \<Rightarrow> 64 word" where
  "mask_c bit_len =
     (if bit_len = 64 then - 1
      else scast (push_bit (nat (bit_len mod 32)) (1 :: 32 word) - 1))"

definition get_bit_value :: "64 word \<Rightarrow> nat \<Rightarrow> nat \<Rightarrow> 64 word" where
  "get_bit_value value start_bit end_bit =
     (let bit_len = int end_bit - int start_bit + 1
      in drop_bit start_bit value AND mask_c bit_len)"

lemma mask_c_small:
  assumes "0 \<le> n" and "n \<le> 30"
  shows "mask_c n = mask (nat n)"
proof -
  have "n \<in> set [0..30]" using assms by simp
  moreover have "\<forall>k \<in> set [0..30]. mask_c k = mask (nat k)" by code_simp
  ultimately show ?thesis by blast
qed

text \<open>A field of at most 31 bits is the usual quotient and remainder.\<close>
lemma get_bit_value_eq:
  assumes "s \<le> e" and "e - s < 30"
  shows "unat (get_bit_value v s e) = (unat v div 2 ^ s) mod 2 ^ (Suc e - s)"
proof -
  have "mask_c (int e - int s + 1) = mask (nat (int e - int s + 1))"
    using assms by (intro mask_c_small) simp_all
  moreover have "nat (int e - int s + 1) = Suc e - s" using assms by simp
  ultimately show ?thesis
    by (simp add: get_bit_value_def Let_def word_arith_simps)
qed

lemma get_bit_value_less:
  assumes "s \<le> e" and "e - s < 30"
  shows "unat (get_bit_value v s e) < 2 ^ (Suc e - s)"
  using assms by (simp add: get_bit_value_eq)

text \<open>An empty field, as some callers ask for, reads as zero.\<close>
lemma get_bit_value_empty: "get_bit_value v (Suc e) e = 0"
  by (simp add: get_bit_value_def mask_c_small)

subsection \<open>Names of paging modes, zones, policies and memories\<close>

definition string_to_pagingmode :: "string \<Rightarrow> PagingStyle" where
  "string_to_pagingmode mode_str =
     (if mode_str = ''Legacy_Normal'' then Legacy_Normal
      else if mode_str = ''Legacy_Huge'' then Legacy_Huge
      else if mode_str = ''PAE_Normal'' then PAE_Normal
      else if mode_str = ''PAE_Huge'' then PAE_Huge
      else if mode_str = ''LongMode_Normal'' then LongMode_Normal
      else if mode_str = ''LongMode_Middle'' then LongMode_Middle
      else if mode_str = ''LongMode_Huge'' then LongMode_Huge
      else Legacy_Normal)"

definition pagingmode_to_string :: "PagingStyle \<Rightarrow> string" where
  "pagingmode_to_string mode =
     (if mode = Legacy_Normal \<or> mode = Legacy_Huge then ''Legacy''
      else if mode = PAE_Normal \<or> mode = PAE_Huge then ''PAE''
      else if mode = LongMode_Normal \<or> mode = LongMode_Middle \<or> mode = LongMode_Huge
        then ''LongMode''
      else '''')"

definition string_to_zonetype :: "string \<Rightarrow> ZoneType" where
  "string_to_zonetype type_str =
     (if type_str = ''mem.zone.zone_dma'' then Zone_DMA
      else if type_str = ''mem.zone.zone_dma32'' then Zone_DMA32
      else if type_str = ''mem.zone.zone_normal'' then Zone_Normal
      else if type_str = ''mem.zone.zone_highmem'' then Zone_HighMem
      else MAX_NR_ZONES)"

definition stringToPolicy :: "string \<Rightarrow> EVICTSTYLE" where
  "stringToPolicy policy_str =
     (if policy_str = ''LRU'' then LRU
      else if policy_str = ''HOTNESSAware'' then HOTNESSAware
      else if policy_str = ''HotMonitorTLBLRU'' then HotMonitorTLBLRU
      else LRU)"

text \<open>\<^verbatim>\<open>memStrToType\<close> falls off its end for an unknown name: no value is defined there.\<close>
definition memStrToType :: "string \<Rightarrow> MemType option" where
  "memStrToType type_str =
     (if type_str = ''Simple'' then Some MEM_SIMPLE
      else if type_str = ''MD1'' then Some MEM_MD1
      else if type_str = ''WeaveMD1'' then Some MEM_WEAVEMD1
      else if type_str = ''WeaveSimple'' then Some MEM_WEAVESIMPLE
      else if type_str = ''DDR'' then Some MEM_DDR
      else if type_str = ''DRAMSim'' then Some MEM_DRAMSIM
      else if type_str = ''Detailed'' then Some MEM_DETAILED
      else if type_str = ''Ramulator'' then Some MEM_RAMULATOR
      else None)"

subsection \<open>Power and page sizes\<close>

text \<open>
  \<^verbatim>\<open>power\<close> halves its exponent down to one.  At exponent zero it calls itself with exponent zero
  again and never returns; as a partial function the model has no value there.
\<close>
partial_function (option) power_c :: "64 word \<Rightarrow> nat \<Rightarrow> 64 word option" where
  "power_c base ex =
     (if ex = 1 then Some base
      else if ex mod 2 \<noteq> 0 then do {
        l \<leftarrow> power_c base (ex div 2);
        r \<leftarrow> power_c base (ex div 2);
        Some (base * l * r)
      }
      else do {
        l \<leftarrow> power_c base (ex div 2);
        r \<leftarrow> power_c base (ex div 2);
        Some (l * r)
      })"

lemma power_c_Some:
  assumes "0 < ex"
  shows "power_c base ex = Some (base ^ ex)"
  using assms
proof (induction ex rule: less_induct)
  case (less ex)
  show ?case
  proof (cases "ex = 1")
    case True
    then show ?thesis by (simp add: power_c.simps)
  next
    case False
    with less.prems have half: "0 < ex div 2" "ex div 2 < ex" by auto
    with less.IH have ih: "power_c base (ex div 2) = Some (base ^ (ex div 2))" by blast
    have split: "base ^ (ex div 2) * base ^ (ex div 2) * base ^ (ex mod 2) = base ^ ex"
      by (simp flip: power_add) (metis mult_2 mult_div_mod_eq)
    show ?thesis
      using False ih split
      by (subst power_c.simps) (auto simp: ac_simps dest: odd_iff_mod_2_eq_one [THEN iffD1])
  qed
qed

lemma power_c_zero: "power_c base 0 = None"
proof -
  have "\<And>r. power_c b e = Some r \<Longrightarrow> e \<noteq> 0" for b e
    by (erule power_c.raw_induct [rotated])
      (fastforce split: if_splits elim!: bind_SomeE dest: gr_implies_not0)
  then show ?thesis by (metis not_Some_eq)
qed

definition get_page_size_by_mode :: "PagingStyle \<Rightarrow> 64 word option" where
  "get_page_size_by_mode mode = do {
     kb \<leftarrow> power_c 2 10;
     mb \<leftarrow> power_c 2 20;
     gb \<leftarrow> power_c 2 30;
     Some (if mode = Legacy_Normal \<or> mode = PAE_Normal \<or> mode = LongMode_Normal then 4 * kb
           else if mode = Legacy_Huge then 4 * mb
           else if mode = PAE_Huge \<or> mode = LongMode_Middle then 2 * mb
           else gb)
   }"

text \<open>The page size and shift that \<^verbatim>\<open>init.cpp\<close> derives from the paging mode.\<close>
definition init_page_size :: "PagingStyle \<Rightarrow> (64 word \<times> nat) option" where
  "init_page_size mode =
     (case mode of
        PAE_Normal \<Rightarrow> do { k \<leftarrow> power_c 2 10; Some (4 * k, 12) }
      | PAE_Huge \<Rightarrow> do { m \<leftarrow> power_c 2 20; Some (2 * m, 21) }
      | Legacy_Normal \<Rightarrow> do { k \<leftarrow> power_c 2 10; Some (4 * k, 12) }
      | Legacy_Huge \<Rightarrow> do { m \<leftarrow> power_c 2 20; Some (4 * m, 22) }
      | LongMode_Normal \<Rightarrow> do { k \<leftarrow> power_c 2 10; Some (4 * k, 12) }
      | LongMode_Middle \<Rightarrow> do { m \<leftarrow> power_c 2 20; Some (2 * m, 21) }
      | LongMode_Huge \<Rightarrow> do { g \<leftarrow> power_c 2 30; Some (g, 30) })"

definition Max_c :: "'a::linorder \<Rightarrow> 'a \<Rightarrow> 'a" where
  "Max_c first second = (if first \<ge> second then first else second)"

definition Min_c :: "'a::linorder \<Rightarrow> 'a \<Rightarrow> 'a" where
  "Min_c first second = (if first \<le> second then first else second)"

definition is_highmem_zone :: "ZoneType \<Rightarrow> bool" where
  "is_highmem_zone t \<longleftrightarrow> t = Zone_HighMem"

subsection \<open>Base-two logarithms\<close>

text \<open>
  The four overloads of \<^verbatim>\<open>log2\<close> run the same step with halving widths: when one of the bits
  in \<open>m\<close> is set, add the width to the result and shift it out.
\<close>
definition log2_step :: "'a::len word \<Rightarrow> nat \<Rightarrow> nat \<times> 'a word \<Rightarrow> nat \<times> 'a word" where
  "log2_step m w rx =
     (case rx of (result, x) \<Rightarrow>
        if x AND m \<noteq> 0 then (result + w, drop_bit w x) else (result, x))"

definition log2_8 :: "8 word \<Rightarrow> nat" where
  "log2_8 x =
     fst (log2_step 0x02 1 (log2_step 0x0c 2 (log2_step 0xf0 4 (0, x))))"

definition log2_16 :: "16 word \<Rightarrow> nat" where
  "log2_16 x =
     fst (log2_step 0x0002 1 (log2_step 0x000c 2 (log2_step 0x00f0 4
       (log2_step 0xff00 8 (0, x)))))"

definition log2_32 :: "32 word \<Rightarrow> nat" where
  "log2_32 x =
     fst (log2_step 0x00000002 1 (log2_step 0x0000000c 2 (log2_step 0x000000f0 4
       (log2_step 0x0000ff00 8 (log2_step 0xffff0000 16 (0, x))))))"

definition log2_64 :: "64 word \<Rightarrow> nat" where
  "log2_64 x =
     fst (log2_step 0x0000000000000002 1 (log2_step 0x000000000000000c 2
       (log2_step 0x00000000000000f0 4 (log2_step 0x000000000000ff00 8
       (log2_step 0x00000000ffff0000 16 (log2_step 0xffffffff00000000 32 (0, x)))))))"

text \<open>
  The loop invariant: the remaining word is nonzero, fits in the remaining width, and is the
  original argument shifted by the result so far.
\<close>
definition log2_inv :: "nat \<Rightarrow> 'a::len word \<Rightarrow> nat \<times> 'a word \<Rightarrow> bool" where
  "log2_inv w x rx \<longleftrightarrow>
     snd rx = drop_bit (fst rx) x \<and> snd rx \<noteq> 0 \<and> unat (snd rx) < 2 ^ w"

text \<open>A mask selects exactly the upper half of a field of twice its width.\<close>
definition upper_half :: "nat \<Rightarrow> 'a::len word \<Rightarrow> bool" where
  "upper_half w m \<longleftrightarrow> m = mask (2 * w) AND NOT (mask w)"

lemma upper_half_test:
  assumes "upper_half w m" and "unat x < 2 ^ (2 * w)"
  shows "x AND m = 0 \<longleftrightarrow> unat x < 2 ^ w"
proof -
  have "x AND mask (2 * w) = x"
    by (rule word_unat_eq_iff [THEN iffD2]) (use assms(2) in \<open>simp add: word_arith_simps\<close>)
  then have "x AND m = x AND NOT (mask w)"
    using assms(1) by (metis upper_half_def and.assoc)
  also have "\<dots> = 0 \<longleftrightarrow> x AND mask w = x"
    by (auto simp: bit_eq_iff bit_and_iff bit_not_iff)
  also have "\<dots> \<longleftrightarrow> unat x mod 2 ^ w = unat x"
    by (simp add: word_unat_eq_iff word_arith_simps)
  also have "\<dots> \<longleftrightarrow> unat x < 2 ^ w"
    by (metis mod_less mod_less_divisor zero_less_numeral zero_less_power)
  finally show ?thesis .
qed

lemma log2_step_inv:
  assumes "log2_inv W x rx" and W: "W = 2 * w" and "upper_half w m"
  shows "log2_inv w x (log2_step m w rx)"
proof -
  obtain r y where rx: "rx = (r, y)" by (cases rx)
  have y: "y = drop_bit r x" "y \<noteq> 0" "unat y < 2 ^ (2 * w)"
    using assms(1) by (auto simp: rx log2_inv_def W)
  show ?thesis
  proof (cases "y AND m = 0")
    case True
    with y upper_half_test [OF assms(3) y(3)] show ?thesis
      by (simp add: rx log2_step_def log2_inv_def)
  next
    case False
    with upper_half_test [OF assms(3) y(3)] have "2 ^ w \<le> unat y" by simp
    then have "0 < unat y div 2 ^ w" by (simp add: div_greater_zero_iff)
    moreover have "unat y div 2 ^ w < 2 ^ w"
      using y(3) by (simp add: less_mult_imp_div_less mult_2 power_add)
    ultimately show ?thesis
      using False y
      by (simp add: rx log2_step_def log2_inv_def word_arith_simps drop_bit_drop_bit
          add.commute div_mult2_eq power_add flip: unat_gt_0)
  qed
qed

lemma log2_inv_done:
  assumes "log2_inv 1 x rx"
  shows "2 ^ fst rx \<le> unat x" and "unat x < 2 ^ Suc (fst rx)"
proof -
  have "unat (snd rx) = 1"
    using assms by (auto simp: log2_inv_def unat_eq_zero less_2_cases_iff)
  then have "unat x div 2 ^ fst rx = 1"
    using assms by (metis log2_inv_def unat_drop_bit)
  then show "2 ^ fst rx \<le> unat x" and "unat x < 2 ^ Suc (fst rx)"
    using dividend_less_div_times [of "2 ^ fst rx" "unat x"] div_less [of "unat x" "2 ^ fst rx"]
    by (force simp: not_less [symmetric])+
qed

lemma log2_inv_start:
  "x \<noteq> 0 \<Longrightarrow> log2_inv LENGTH('a) x (0, x :: 'a::len word)"
  by (simp add: log2_inv_def unsigned_less)

lemma log2_masks:
  "upper_half (Suc 0) (2 :: 16 word)" "upper_half 2 (0xc :: 16 word)"
  "upper_half 4 (0xf0 :: 16 word)" "upper_half 8 (0xff00 :: 16 word)"
  "upper_half (Suc 0) (2 :: 64 word)" "upper_half 2 (0xc :: 64 word)"
  "upper_half 4 (0xf0 :: 64 word)" "upper_half 8 (0xff00 :: 64 word)"
  "upper_half 16 (0xffff0000 :: 64 word)" "upper_half 32 (0xffffffff00000000 :: 64 word)"
  by (simp_all add: upper_half_def, code_simp+)

lemma log2_64_inv:
  assumes "x \<noteq> 0"
  shows "log2_inv 1 x (log2_step 0x2 1 (log2_step 0xc 2 (log2_step 0xf0 4 (log2_step 0xff00 8
       (log2_step 0xffff0000 16 (log2_step 0xffffffff00000000 32 (0, x :: 64 word)))))))"
  by (rule log2_step_inv [where W = 2], rule log2_step_inv [where W = 4],
      rule log2_step_inv [where W = 8], rule log2_step_inv [where W = 16],
      rule log2_step_inv [where W = 32], rule log2_step_inv [where W = 64])
    (use log2_inv_start [OF assms] in \<open>simp_all add: log2_masks\<close>)

lemma log2_16_inv:
  assumes "x \<noteq> 0"
  shows "log2_inv 1 x (log2_step 0x2 1 (log2_step 0xc 2 (log2_step 0xf0 4 (log2_step 0xff00 8
       (0, x :: 16 word)))))"
  by (rule log2_step_inv [where W = 2], rule log2_step_inv [where W = 4],
      rule log2_step_inv [where W = 8], rule log2_step_inv [where W = 16])
    (use log2_inv_start [OF assms] in \<open>simp_all add: log2_masks\<close>)

lemma log2_16_bounds:
  assumes "x \<noteq> 0"
  shows "2 ^ log2_16 x \<le> unat x" and "unat x < 2 ^ Suc (log2_16 x)"
  using log2_inv_done [OF log2_16_inv [OF assms]] by (simp_all add: log2_16_def)

subsection \<open>Properties\<close>

text \<open>
  C30. The square-and-multiply \<^verbatim>\<open>power\<close> returns the power, modulo \<open>2 ^ 64\<close>, for every exponent but
  zero; for exponent zero it recurses for ever.
\<close>
theorem power_c_total:
  "power_c base ex = (if ex = 0 then None else Some (base ^ ex))"
  by (simp add: power_c_Some power_c_zero)

text \<open>
  The page size and the page shift that the simulator sets up agree with each other and with the
  page size function, in every paging mode: the size is two to the shift.
\<close>
theorem page_size_matches_shift:
  "\<exists>sz sh. init_page_size mode = Some (sz, sh) \<and> get_page_size_by_mode mode = Some sz \<and> unat sz = 2 ^ sh \<and>
     sh \<in> {12, 21, 22, 30}"
  by (cases mode) (simp_all add: init_page_size_def get_page_size_by_mode_def power_c_Some)

text \<open>
  C29. The bit-twiddling 64-bit logarithm is the floor of the base-two logarithm for every nonzero
  argument.
\<close>
theorem log2_64_floor:
  assumes "x \<noteq> 0"
  shows "2 ^ log2_64 x \<le> unat x \<and> unat x < 2 ^ Suc (log2_64 x)"
  using log2_inv_done [OF log2_64_inv [OF assms]] by (simp add: log2_64_def)

theorem log2_64_floor_witness: "2 ^ log2_64 1000 \<le> (1000 :: nat) \<and> (1000 :: nat) < 2 ^ Suc (log2_64 1000)"
  using log2_64_floor [of 1000] by simp

end
