(* ===== verification/Memory_Types.thy ===== *)
theory Memory_Types
  imports Common_Functions
begin

text \<open>
  The request types of the memory hierarchy, from \<^verbatim>\<open>src/src/memory_hierarchy.h\<close>, and the names
  in \<^verbatim>\<open>src/src/memory_hierarchy.cpp\<close>.  The constructors of the coherence states carry the
  suffix \<open>st\<close>.  A request's pointer to the requester's state is modelled where the
  controllers use it, not in the record.
\<close>

datatype AccessType = GETS | GETX | PUTS | PUTX | OFFLOAD

datatype InvType = INV | INVX | FWD

datatype MESIState = Ist | Sst | Est | Mst

datatype WritePolicy = WRITEBACK | WRITETHROUGH

definition IsGet :: "AccessType \<Rightarrow> bool" where
  "IsGet t \<longleftrightarrow> t = GETS \<or> t = GETX \<or> t = OFFLOAD"

definition IsPut :: "AccessType \<Rightarrow> bool" where
  "IsPut t \<longleftrightarrow> t = PUTS \<or> t = PUTX"

definition accessTypeNames :: "string list" where
  "accessTypeNames = [''GETS'', ''GETX'', ''PUTS'', ''PUTX'', ''OFFLOAD'']"

definition invTypeNames :: "string list" where
  "invTypeNames = [''INV'', ''INVX'']"

definition mesiStateNames :: "string list" where
  "mesiStateNames = [''I'', ''S'', ''E'', ''M'']"

primrec AccessType_index :: "AccessType \<Rightarrow> nat" where
  "AccessType_index GETS = 0" | "AccessType_index GETX = 1" | "AccessType_index PUTS = 2"
| "AccessType_index PUTX = 3" | "AccessType_index OFFLOAD = 4"

primrec InvType_index :: "InvType \<Rightarrow> nat" where
  "InvType_index INV = 0" | "InvType_index INVX = 1" | "InvType_index FWD = 2"

primrec MESIState_index :: "MESIState \<Rightarrow> nat" where
  "MESIState_index Ist = 0" | "MESIState_index Sst = 1" | "MESIState_index Est = 2"
| "MESIState_index Mst = 3"

definition name_of :: "string list \<Rightarrow> nat \<Rightarrow> string option" where
  "name_of names i = do {
     _ \<leftarrow> assert_that (i < length names);
     Some (names ! i)
   }"

definition AccessTypeName :: "AccessType \<Rightarrow> string option" where
  "AccessTypeName t = name_of accessTypeNames (AccessType_index t)"

definition InvTypeName :: "InvType \<Rightarrow> string option" where
  "InvTypeName t = name_of invTypeNames (InvType_index t)"

definition MESIStateName :: "MESIState \<Rightarrow> string option" where
  "MESIStateName s = name_of mesiStateNames (MESIState_index s)"

definition WritePolicyName :: "WritePolicy \<Rightarrow> string" where
  "WritePolicyName wp = (case wp of WRITEBACK \<Rightarrow> ''WriteBack'' | WRITETHROUGH \<Rightarrow> ''WriteThrough'')"

definition WritePolicyType :: "string \<Rightarrow> WritePolicy option" where
  "WritePolicyType policyStr =
     (if policyStr = ''WriteBack'' then Some WRITEBACK
      else if policyStr = ''WriteThrough'' then Some WRITETHROUGH
      else None)"

definition IFETCH :: "32 word" where "IFETCH = 2"
definition NOEXCL :: "32 word" where "NOEXCL = 4"
definition NONINCLWB :: "32 word" where "NONINCLWB = 8"
definition PUTX_KEEPEXCL :: "32 word" where "PUTX_KEEPEXCL = 16"
definition PREFETCH :: "32 word" where "PREFETCH = 32"
definition PTW :: "32 word" where "PTW = 64"

record MemReq =
  lineAddr :: Address
  rq_type :: AccessType
  childId :: nat
  rq_cycle :: "64 word"
  initialState :: MESIState
  srcId :: "32 word"
  rq_flags :: "32 word"
  threadId :: "64 word"
  isPIMInst :: bool
  isFirstPTW :: bool
  isLastPTW :: bool
  pageShared :: bool
  pageDirty :: bool
  triggerPageShared :: bool
  triggerPageDirty :: bool

definition rq_is :: "32 word \<Rightarrow> 'a MemReq_scheme \<Rightarrow> bool" where
  "rq_is f req \<longleftrightarrow> rq_flags req AND f \<noteq> 0"

definition rq_set :: "32 word \<Rightarrow> MemReq \<Rightarrow> MemReq" where
  "rq_set f req = req\<lparr>rq_flags := rq_flags req OR f\<rparr>"

text \<open>The name tables cover every access type and state, but not every invalidation type.\<close>
lemma AccessTypeName_total: "AccessTypeName t \<noteq> None"
  by (cases t) (simp_all add: AccessTypeName_def name_of_def accessTypeNames_def)

lemma MESIStateName_total: "MESIStateName s \<noteq> None"
  by (cases s) (simp_all add: MESIStateName_def name_of_def mesiStateNames_def)

lemma InvTypeName_None: "InvTypeName i = None \<longleftrightarrow> i = FWD"
  by (cases i) (simp_all add: InvTypeName_def name_of_def invTypeNames_def)

lemma WritePolicy_roundtrip: "WritePolicyType (WritePolicyName wp) = Some wp"
  by (cases wp) (simp_all add: WritePolicyName_def WritePolicyType_def)

end
