(* ===== verification/Tlb.thy ===== *)
theory Tlb
  imports Memory_Types Common_Functions
begin

text \<open>
  The translation look-aside buffer: the entries of \<^verbatim>\<open>src/src/tlb/tlb_entry.h\<close> and the class
  \<^verbatim>\<open>CommonTlb\<close> of \<^verbatim>\<open>src/src/tlb/common_tlb.h\<close>.  The pointers to entries are the indices
  of the array that owns them, so that the free list and the two hash maps alias the array as in the
  code.  The access function, which calls the page-table walker, is in \<open>Page_Table_Walker\<close>.
\<close>

subsection \<open>Entries\<close>

definition TLB_GLOBAL :: "16 word" where "TLB_GLOBAL = 0x01"
definition TLB_UNCACHEABLE :: "16 word" where "TLB_UNCACHEABLE = 0x02"
definition TLB_PAT :: "16 word" where "TLB_PAT = 0x04"
definition TLB_NOEXEC :: "16 word" where "TLB_NOEXEC = 0x08"
definition TLB_VALID :: "16 word" where "TLB_VALID = 0x10"
definition TLB_SHARED :: "16 word" where "TLB_SHARED = 0x20"
definition TLB_DIRTY :: "16 word" where "TLB_DIRTY = 0x40"

lemmas tlb_flag_defs = TLB_GLOBAL_def TLB_UNCACHEABLE_def TLB_PAT_def TLB_NOEXEC_def TLB_VALID_def
  TLB_SHARED_def TLB_DIRTY_def

record TlbEntry =
  v_page_no :: Address
  p_page_no :: Address
  tlb_flag :: "16 word"
  e_lru_seq :: "64 word"

definition TlbEntry :: "Address \<Rightarrow> Address \<Rightarrow> TlbEntry" where
  "TlbEntry vpn ppn = \<lparr>v_page_no = vpn, p_page_no = ppn, tlb_flag = 0, e_lru_seq = 0\<rparr>"

text \<open>The assignment operator leaves the sequence number of the target alone.\<close>
definition assign_entry :: "TlbEntry \<Rightarrow> TlbEntry \<Rightarrow> TlbEntry" where
  "assign_entry target src = target\<lparr>v_page_no := v_page_no src, p_page_no := p_page_no src,
     tlb_flag := tlb_flag src\<rparr>"

definition is_page_global :: "TlbEntry \<Rightarrow> bool" where
  "is_page_global e \<longleftrightarrow> tlb_flag e AND TLB_GLOBAL \<noteq> 0"
definition is_page_cacheable :: "TlbEntry \<Rightarrow> bool" where
  "is_page_cacheable e \<longleftrightarrow> tlb_flag e AND TLB_UNCACHEABLE = 0"
definition is_page_shared :: "TlbEntry \<Rightarrow> bool" where
  "is_page_shared e \<longleftrightarrow> tlb_flag e AND TLB_SHARED \<noteq> 0"
definition is_page_dirty :: "TlbEntry \<Rightarrow> bool" where
  "is_page_dirty e \<longleftrightarrow> tlb_flag e AND TLB_DIRTY \<noteq> 0"
definition PAT_enabled :: "TlbEntry \<Rightarrow> bool" where
  "PAT_enabled e \<longleftrightarrow> tlb_flag e AND TLB_PAT \<noteq> 0"
definition entry_valid :: "TlbEntry \<Rightarrow> bool" where
  "entry_valid e \<longleftrightarrow> tlb_flag e AND TLB_VALID \<noteq> 0"

definition set_page_shared :: "TlbEntry \<Rightarrow> TlbEntry" where
  "set_page_shared e = e\<lparr>tlb_flag := tlb_flag e OR TLB_SHARED\<rparr>"
definition set_page_dirty :: "TlbEntry \<Rightarrow> TlbEntry" where
  "set_page_dirty e = e\<lparr>tlb_flag := tlb_flag e OR TLB_DIRTY\<rparr>"
definition tlb_set_page_global :: "bool \<Rightarrow> TlbEntry \<Rightarrow> TlbEntry" where
  "tlb_set_page_global sel e = e\<lparr>tlb_flag :=
     (if sel then tlb_flag e OR TLB_GLOBAL else tlb_flag e AND NOT TLB_GLOBAL)\<rparr>"
definition set_page_cacheable :: "bool \<Rightarrow> TlbEntry \<Rightarrow> TlbEntry" where
  "set_page_cacheable sel e = e\<lparr>tlb_flag :=
     (if sel then tlb_flag e AND NOT TLB_UNCACHEABLE else tlb_flag e OR TLB_UNCACHEABLE)\<rparr>"
definition enable_PAT :: "bool \<Rightarrow> TlbEntry \<Rightarrow> TlbEntry" where
  "enable_PAT sel e = e\<lparr>tlb_flag :=
     (if sel then tlb_flag e OR TLB_PAT else tlb_flag e AND NOT TLB_PAT)\<rparr>"
definition set_valid :: "TlbEntry \<Rightarrow> TlbEntry" where
  "set_valid e = e\<lparr>tlb_flag := tlb_flag e OR TLB_VALID\<rparr>"
definition set_invalid :: "TlbEntry \<Rightarrow> TlbEntry" where
  "set_invalid e = e\<lparr>tlb_flag := 0\<rparr>"
definition map_entry :: "Address \<Rightarrow> Address \<Rightarrow> TlbEntry \<Rightarrow> TlbEntry" where
  "map_entry vpn ppn e = e\<lparr>v_page_no := vpn, p_page_no := ppn\<rparr>"

lemmas tlb_entry_defs = assign_entry_def is_page_shared_def is_page_dirty_def entry_valid_def
  set_page_shared_def set_page_dirty_def set_valid_def set_invalid_def

subsection \<open>The buffer\<close>

record CommonTlb =
  tlb_entry_num :: nat
  hit_latency :: "32 word"
  response_latency :: "32 word"
  insert_num :: nat
  tlb_access_time :: nat
  tlb_hit_time :: nat
  tlb_evict_time :: nat
  tlb :: "TlbEntry list"
  free_entry_list :: "nat list"
  lru_seq :: int
  tlb_trie :: "Address \<rightharpoonup> nat"
  tlb_trie_pa :: "Address \<rightharpoonup> nat"
  tlb_timing :: bool
  evict_policy :: EVICTSTYLE
  tlb_page_shift :: nat
  tlb_line_shift :: nat
  tlb_srcId :: "32 word"
  tlb_reqFlags :: "32 word"

text \<open>
  The counter of the LRU sequence is a signed 32-bit integer; the constructor does not set it, and
  the fields of a new entry are not set either: both are arguments.
\<close>
definition CommonTlb ::
  "int \<Rightarrow> TlbEntry \<Rightarrow> 32 word \<Rightarrow> 32 word \<Rightarrow> bool \<Rightarrow> nat \<Rightarrow> 32 word \<Rightarrow> 32 word \<Rightarrow> nat \<Rightarrow> nat \<Rightarrow> EVICTSTYLE \<Rightarrow> CommonTlb option" where
  "CommonTlb raw_seq raw_entry src flags timing tlb_size hit_lat res_lat line_sh page_sh policy = do {
     _ \<leftarrow> assert_that (tlb_size > 0);
     Some \<lparr>tlb_entry_num = tlb_size, hit_latency = hit_lat, response_latency = res_lat, insert_num = 0,
       tlb_access_time = 0, tlb_hit_time = 0, tlb_evict_time = 0,
       tlb = replicate tlb_size raw_entry, free_entry_list = [0..<tlb_size], lru_seq = raw_seq,
       tlb_trie = Map.empty, tlb_trie_pa = Map.empty, tlb_timing = timing, evict_policy = policy,
       tlb_page_shift = page_sh, tlb_line_shift = line_sh, tlb_srcId = src, tlb_reqFlags = flags\<rparr>
   }"

definition wrap_int32 :: "int \<Rightarrow> int" where
  "wrap_int32 x = (x + 2 ^ 31) mod 2 ^ 32 - 2 ^ 31"

definition upd_tlb :: "nat \<Rightarrow> (TlbEntry \<Rightarrow> TlbEntry) \<Rightarrow> CommonTlb \<Rightarrow> CommonTlb" where
  "upd_tlb i f t = t\<lparr>tlb := (tlb t)[i := f (tlb t ! i)]\<rparr>"

text \<open>\<^verbatim>\<open>entry->lru_seq = ++lru_seq\<close>\<close>
definition touch_lru :: "nat \<Rightarrow> CommonTlb \<Rightarrow> CommonTlb" where
  "touch_lru i t = (let s = wrap_int32 (lru_seq t + 1)
     in upd_tlb i (\<lambda>e. e\<lparr>e_lru_seq := of_int s\<rparr>) (t\<lparr>lru_seq := s\<rparr>))"

definition look_up :: "Address \<Rightarrow> bool \<Rightarrow> CommonTlb \<Rightarrow> nat option \<times> CommonTlb" where
  "look_up vpage_no update_lru t =
     (case tlb_trie t vpage_no of
        None \<Rightarrow> (None, t)
      | Some i \<Rightarrow> (Some i, if entry_valid (tlb t ! i) \<and> update_lru then touch_lru i t else t))"

definition look_up_pa :: "Address \<Rightarrow> CommonTlb \<Rightarrow> nat option" where
  "look_up_pa ppn t = tlb_trie_pa t ppn"

text \<open>The index of the smallest sequence number among the valid entries, starting from entry 0.\<close>
definition lru_scan :: "TlbEntry list \<Rightarrow> nat \<Rightarrow> nat" where
  "lru_scan es n = fold (\<lambda>i m. if entry_valid (es ! i) \<and> e_lru_seq (es ! i) < e_lru_seq (es ! m) then i else m)
     [1..<n] 0"

definition lru_evict :: "CommonTlb \<Rightarrow> nat option" where
  "lru_evict t = do {
     _ \<leftarrow> assert_that (free_entry_list t = []);
     Some (lru_scan (tlb t) (tlb_entry_num t))
   }"

definition evict :: "CommonTlb \<Rightarrow> CommonTlb option" where
  "evict t = do {
     i \<leftarrow> (if evict_policy t = LRU then lru_evict t else None);
     let e = tlb t ! i;
     _ \<leftarrow> assert_that (tlb_trie t (v_page_no e) \<noteq> None);
     Some (upd_tlb i set_invalid
       (t\<lparr>tlb_trie := (tlb_trie t)(v_page_no e := None),
          tlb_trie_pa := (tlb_trie_pa t)(p_page_no e := None),
          free_entry_list := free_entry_list t @ [i]\<rparr>))
   }"

definition insert_entry :: "Address \<Rightarrow> TlbEntry \<Rightarrow> CommonTlb \<Rightarrow> (nat option \<times> CommonTlb) option" where
  "insert_entry vpage_no entry t = do {
     _ \<leftarrow> assert_that (tlb_trie t vpage_no = None);
     t1 \<leftarrow> (if free_entry_list t = [] then evict (t\<lparr>tlb_evict_time := tlb_evict_time t + 1\<rparr>) else Some t);
     (case free_entry_list t1 of
        [] \<Rightarrow> Some (None, t1)
      | i # rest \<Rightarrow>
          (let t2 = upd_tlb i (\<lambda>e. set_valid (assign_entry e entry)) (t1\<lparr>free_entry_list := rest\<rparr>);
               t3 = touch_lru i t2
           in Some (Some i, t3\<lparr>tlb_trie := (tlb_trie t3)(vpage_no \<mapsto> i),
                              tlb_trie_pa := (tlb_trie_pa t3)(p_page_no entry \<mapsto> i)\<rparr>)))
   }"

definition shootdown :: "Address \<Rightarrow> CommonTlb \<Rightarrow> 32 word \<times> CommonTlb" where
  "shootdown vpn t =
     (let lat = (if tlb_timing t then hit_latency t else 0)
      in (case look_up vpn True t of
            (None, t1) \<Rightarrow> (lat, t1)
          | (Some i, t1) \<Rightarrow>
              (let t2 = upd_tlb i set_invalid t1
               in (lat, t2\<lparr>tlb_trie := (tlb_trie t2)(vpn := None),
                          tlb_trie_pa := (tlb_trie_pa t2)(p_page_no (tlb t2 ! i) := None),
                          free_entry_list := free_entry_list t2 @ [i]\<rparr>))))"

definition update_tlb_flags :: "Address \<Rightarrow> bool \<Rightarrow> bool \<Rightarrow> CommonTlb \<Rightarrow> 32 word \<times> CommonTlb" where
  "update_tlb_flags ppn shared dirty t =
     (if tlb_timing t then hit_latency t else 0,
      case look_up_pa ppn t of
        None \<Rightarrow> t
      | Some i \<Rightarrow> upd_tlb i (\<lambda>e. let e1 = (if shared then set_page_shared e else e)
                                in if dirty then set_page_dirty e1 else e1) t)"

definition update_lat :: "nat option \<Rightarrow> CommonTlb \<Rightarrow> 32 word" where
  "update_lat found t = (if tlb_timing t then (if found \<noteq> None then 2 * hit_latency t else hit_latency t) else 0)"

text \<open>Neither of the two updates moves the entry to its new physical page in the map by physical page.\<close>
definition update_ppn :: "Address \<Rightarrow> Address \<Rightarrow> CommonTlb \<Rightarrow> 32 word \<times> CommonTlb" where
  "update_ppn ppn new_ppn t =
     (update_lat (look_up_pa ppn t) t,
      case look_up_pa ppn t of None \<Rightarrow> t | Some i \<Rightarrow> upd_tlb i (\<lambda>e. e\<lparr>p_page_no := new_ppn\<rparr>) t)"

definition update_entry :: "Address \<Rightarrow> Address \<Rightarrow> CommonTlb \<Rightarrow> 32 word \<times> CommonTlb" where
  "update_entry vpn ppn t =
     (case look_up vpn True t of (found, t1) \<Rightarrow>
        (update_lat found t,
         case found of None \<Rightarrow> t1 | Some i \<Rightarrow> upd_tlb i (\<lambda>e. e\<lparr>p_page_no := ppn\<rparr>) t1))"

definition flush_all :: "CommonTlb \<Rightarrow> CommonTlb" where
  "flush_all t = t\<lparr>tlb_trie := Map.empty, tlb_trie_pa := Map.empty,
     tlb := map set_invalid (tlb t), free_entry_list := [0..<tlb_entry_num t]\<rparr>"

definition delete_entry :: "Address \<Rightarrow> CommonTlb \<Rightarrow> bool \<times> CommonTlb" where
  "delete_entry vpage_no t =
     (case look_up vpage_no True t of
        (None, t1) \<Rightarrow> (False, t1)
      | (Some i, t1) \<Rightarrow>
          (let e = tlb t1 ! i
           in (True, upd_tlb i set_invalid
                 (t1\<lparr>tlb_trie := (tlb_trie t1)(v_page_no e := None),
                     tlb_trie_pa := (tlb_trie_pa t1)(p_page_no e := None),
                     free_entry_list := free_entry_list t1 @ [i]\<rparr>))))"

end
