(* ===== verification/Tlb_Lru.thy ===== *)
theory Tlb_Lru
  imports Tlb
begin

text \<open>
  The buffer as a bounded map with least-recently-used replacement.  \<open>tlb_wf\<close> ties the array, the free
  list and the map by virtual page together; \<open>lru_rep\<close> relates a buffer to the list of its virtual
  pages, most recently used first.
\<close>

subsection \<open>Well-formed buffers\<close>

definition tlb_wf :: "CommonTlb \<Rightarrow> bool" where
  "tlb_wf t \<longleftrightarrow> length (tlb t) = tlb_entry_num t \<and> 0 < tlb_entry_num t \<and>
     distinct (free_entry_list t) \<and> set (free_entry_list t) \<subseteq> {..<tlb_entry_num t} \<and>
     (\<forall>v i. tlb_trie t v = Some i \<longrightarrow> i < tlb_entry_num t \<and> i \<notin> set (free_entry_list t) \<and>
        entry_valid (tlb t ! i) \<and> v_page_no (tlb t ! i) = v) \<and>
     (\<forall>i < tlb_entry_num t. i \<notin> set (free_entry_list t) \<longrightarrow> tlb_trie t (v_page_no (tlb t ! i)) = Some i)"

text \<open>What a buffer says about a virtual page: the physical page and its two flags.\<close>
definition entry_data :: "TlbEntry \<Rightarrow> Address \<times> bool \<times> bool" where
  "entry_data e = (p_page_no e, is_page_shared e, is_page_dirty e)"

definition tlb_view :: "CommonTlb \<Rightarrow> Address \<Rightarrow> (Address \<times> bool \<times> bool) option" where
  "tlb_view t v = map_option (\<lambda>i. entry_data (tlb t ! i)) (tlb_trie t v)"

lemma tlb_wfD:
  assumes "tlb_wf t" and "tlb_trie t v = Some i"
  shows "i < tlb_entry_num t" "i < length (tlb t)" "i \<notin> set (free_entry_list t)"
    "entry_valid (tlb t ! i)" "v_page_no (tlb t ! i) = v"
  using assms by (auto simp: tlb_wf_def)

lemma tlb_wfI:
  assumes "length (tlb t) = tlb_entry_num t" and "0 < tlb_entry_num t" and "distinct (free_entry_list t)"
    and "set (free_entry_list t) \<subseteq> {..<tlb_entry_num t}"
    and "\<And>v i. tlb_trie t v = Some i \<Longrightarrow> i < tlb_entry_num t \<and> i \<notin> set (free_entry_list t) \<and>
        entry_valid (tlb t ! i) \<and> v_page_no (tlb t ! i) = v"
    and "\<And>i. i < tlb_entry_num t \<Longrightarrow> i \<notin> set (free_entry_list t) \<Longrightarrow> tlb_trie t (v_page_no (tlb t ! i)) = Some i"
  shows "tlb_wf t"
  using assms by (simp add: tlb_wf_def)

lemma tlb_wf_free:
  assumes "tlb_wf t"
  shows "length (tlb t) = tlb_entry_num t" "0 < tlb_entry_num t" "distinct (free_entry_list t)"
    "set (free_entry_list t) \<subseteq> {..<tlb_entry_num t}"
    "i < tlb_entry_num t \<Longrightarrow> i \<notin> set (free_entry_list t) \<Longrightarrow> tlb_trie t (v_page_no (tlb t ! i)) = Some i"
  using assms by (simp_all add: tlb_wf_def)

lemma trie_inj: "tlb_wf t \<Longrightarrow> tlb_trie t v = Some i \<Longrightarrow> tlb_trie t w = Some i \<Longrightarrow> v = w"
  using tlb_wfD(5) by blast

lemma entry_flag_simps [simp]:
  "entry_valid (set_valid e)" "entry_valid (e\<lparr>e_lru_seq := s\<rparr>) = entry_valid e"
  "\<not> entry_valid (set_invalid e)" "v_page_no (set_valid e) = v_page_no e" "p_page_no (set_valid e) = p_page_no e"
  "v_page_no (set_invalid e) = v_page_no e" "p_page_no (set_invalid e) = p_page_no e"
  "v_page_no (assign_entry e e') = v_page_no e'" "p_page_no (assign_entry e e') = p_page_no e'"
  "e_lru_seq (set_valid e) = e_lru_seq e" "e_lru_seq (assign_entry e e') = e_lru_seq e"
  "entry_data (e\<lparr>e_lru_seq := s\<rparr>) = entry_data e"
  "entry_data (set_valid e) = entry_data e" "entry_data (assign_entry e e') = entry_data e'"
  by (auto simp: tlb_entry_defs tlb_flag_defs bit.conj_disj_distrib2 entry_data_def)

lemma upd_tlb_simps [simp]:
  "tlb_trie (upd_tlb i f t) = tlb_trie t" "free_entry_list (upd_tlb i f t) = free_entry_list t"
  "tlb_entry_num (upd_tlb i f t) = tlb_entry_num t" "length (tlb (upd_tlb i f t)) = length (tlb t)"
  "lru_seq (upd_tlb i f t) = lru_seq t" "tlb_trie_pa (upd_tlb i f t) = tlb_trie_pa t"
  "tlb_timing (upd_tlb i f t) = tlb_timing t" "evict_policy (upd_tlb i f t) = evict_policy t"
  "tlb_page_shift (upd_tlb i f t) = tlb_page_shift t" "tlb_line_shift (upd_tlb i f t) = tlb_line_shift t"
  by (simp_all add: upd_tlb_def)

lemma touch_lru_simps [simp]:
  "tlb_trie (touch_lru i t) = tlb_trie t" "free_entry_list (touch_lru i t) = free_entry_list t"
  "tlb_entry_num (touch_lru i t) = tlb_entry_num t" "length (tlb (touch_lru i t)) = length (tlb t)"
  "lru_seq (touch_lru i t) = wrap_int32 (lru_seq t + 1)" "tlb_trie_pa (touch_lru i t) = tlb_trie_pa t"
  "tlb_timing (touch_lru i t) = tlb_timing t" "evict_policy (touch_lru i t) = evict_policy t"
  "tlb_page_shift (touch_lru i t) = tlb_page_shift t" "tlb_line_shift (touch_lru i t) = tlb_line_shift t"
  by (simp_all add: touch_lru_def Let_def)

lemma tlb_upd_nth: "j < length (tlb t) \<Longrightarrow> tlb (upd_tlb i f t) ! j = (if j = i then f (tlb t ! i) else tlb t ! j)"
  by (auto simp: upd_tlb_def nth_list_update)

lemma tlb_touch_nth:
  "j < length (tlb t) \<Longrightarrow> tlb (touch_lru i t) ! j =
     (if j = i then (tlb t ! i)\<lparr>e_lru_seq := of_int (wrap_int32 (lru_seq t + 1))\<rparr> else tlb t ! j)"
  by (simp add: touch_lru_def Let_def tlb_upd_nth)

text \<open>Writes to an entry that keep its page and its validity keep the buffer well formed.\<close>
lemma tlb_wf_upd:
  assumes "tlb_wf t" and "\<And>e. v_page_no (f e) = v_page_no e" and "\<And>e. entry_valid e \<Longrightarrow> entry_valid (f e)"
  shows "tlb_wf (upd_tlb i f t)"
  using assms unfolding tlb_wf_def by (auto simp: tlb_upd_nth)

lemma tlb_wf_touch: "tlb_wf t \<Longrightarrow> tlb_wf (touch_lru i t)"
  unfolding tlb_wf_def by (auto simp: tlb_touch_nth)

lemma look_up_wf: "tlb_wf t \<Longrightarrow> tlb_wf (snd (look_up v u t))"
  by (auto simp: look_up_def tlb_wf_touch split: option.split)

lemma look_up_trie [simp]:
  "fst (look_up v u t) = tlb_trie t v" "tlb_trie (snd (look_up v u t)) = tlb_trie t"
  "free_entry_list (snd (look_up v u t)) = free_entry_list t" "tlb_trie_pa (snd (look_up v u t)) = tlb_trie_pa t"
  "tlb_entry_num (snd (look_up v u t)) = tlb_entry_num t"
  by (auto simp: look_up_def split: option.split)

lemma look_up_hit: "tlb_wf t \<Longrightarrow> tlb_trie t v = Some i \<Longrightarrow> look_up v True t = (Some i, touch_lru i t)"
  using tlb_wfD(4) by (auto simp: look_up_def)

lemma view_touch: "tlb_wf t \<Longrightarrow> tlb_view (touch_lru i t) = tlb_view t"
  by (rule ext) (auto simp: tlb_view_def tlb_touch_nth tlb_wfD(2) split: option.split
      intro!: option.map_cong)

lemma look_up_view: "tlb_wf t \<Longrightarrow> tlb_view (snd (look_up v u t)) = tlb_view t"
  by (auto simp: look_up_def view_touch split: option.split)

text \<open>Giving an entry back: the common part of eviction, shootdown and deletion.\<close>
definition drop_entry :: "nat \<Rightarrow> CommonTlb \<Rightarrow> CommonTlb" where
  "drop_entry i t = upd_tlb i set_invalid
     (t\<lparr>tlb_trie := (tlb_trie t)(v_page_no (tlb t ! i) := None),
        tlb_trie_pa := (tlb_trie_pa t)(p_page_no (tlb t ! i) := None),
        free_entry_list := free_entry_list t @ [i]\<rparr>)"

lemma drop_entry_simps [simp]:
  "tlb_trie (drop_entry i t) = (tlb_trie t)(v_page_no (tlb t ! i) := None)"
  "free_entry_list (drop_entry i t) = free_entry_list t @ [i]" "tlb_entry_num (drop_entry i t) = tlb_entry_num t"
  "length (tlb (drop_entry i t)) = length (tlb t)" "lru_seq (drop_entry i t) = lru_seq t"
  by (simp_all add: drop_entry_def)

lemma tlb_drop_nth: "j < length (tlb t) \<Longrightarrow> tlb (drop_entry i t) ! j = (if j = i then set_invalid (tlb t ! i) else tlb t ! j)"
  by (simp add: drop_entry_def tlb_upd_nth)

lemma drop_entry_wf:
  assumes wf: "tlb_wf t" and i: "tlb_trie t v = Some i"
  shows "tlb_wf (drop_entry i t)"
proof (rule tlb_wfI, goal_cases)
  case (5 w j)
  note d = tlb_wfD [OF wf i]
  from 5 d have w: "w \<noteq> v" "tlb_trie t w = Some j" by (auto split: if_splits)
  moreover have "j \<noteq> i" using trie_inj [OF wf i] w by blast
  ultimately show ?case using tlb_wfD [OF wf w(2)] by (simp add: tlb_drop_nth)
next
  case (6 j)
  then have j: "tlb_trie t (v_page_no (tlb t ! j)) = Some j" "j \<noteq> i" "j < length (tlb t)"
    using tlb_wf_free [OF wf] by auto
  then have "v_page_no (tlb t ! j) \<noteq> v" using i by auto
  then show ?case using j tlb_wfD [OF wf i] by (simp add: tlb_drop_nth)
qed (use tlb_wf_free [OF wf] tlb_wfD [OF wf i] in auto)

lemma drop_entry_view:
  assumes wf: "tlb_wf t" and i: "tlb_trie t v = Some i"
  shows "tlb_view (drop_entry i t) = (tlb_view t)(v := None)"
proof
  fix w
  show "tlb_view (drop_entry i t) w = ((tlb_view t)(v := None)) w"
  proof (cases "tlb_trie t w")
    case (Some j)
    then show ?thesis using tlb_wfD [OF wf i] tlb_wfD [OF wf Some] trie_inj [OF wf i, of w]
      by (auto simp: tlb_view_def tlb_drop_nth)
  qed (use tlb_wfD [OF wf i] in \<open>auto simp: tlb_view_def\<close>)
qed

lemma shootdown_eq:
  assumes wf: "tlb_wf t"
  shows "snd (shootdown v t) = (case tlb_trie t v of None \<Rightarrow> t | Some i \<Rightarrow> drop_entry i (touch_lru i t))"
proof (cases "tlb_trie t v")
  case (Some i)
  note d = tlb_wfD [OF wf Some]
  have "v_page_no (tlb (touch_lru i t) ! i) = v" using d by (simp add: tlb_touch_nth)
  then show ?thesis using d Some look_up_hit [OF wf Some]
    by (simp add: shootdown_def Let_def drop_entry_def tlb_upd_nth) (simp add: upd_tlb_def)
qed (simp add: shootdown_def look_up_def)

lemma delete_entry_eq:
  assumes wf: "tlb_wf t"
  shows "delete_entry v t = (tlb_trie t v \<noteq> None, snd (shootdown v t))"
proof (cases "tlb_trie t v")
  case (Some i)
  then show ?thesis using look_up_hit [OF wf Some]
    by (simp add: shootdown_eq [OF wf] delete_entry_def Let_def drop_entry_def)
qed (simp add: shootdown_eq [OF wf] delete_entry_def look_up_def)


lemma shootdown_wf: "tlb_wf t \<Longrightarrow> tlb_wf (snd (shootdown v t))"
  by (auto simp: shootdown_eq tlb_wf_touch intro!: drop_entry_wf [of _ v] split: option.split)

lemma shootdown_view: "tlb_wf t \<Longrightarrow> tlb_view (snd (shootdown v t)) = (tlb_view t)(v := None)"
  by (cases "tlb_trie t v")
     (auto simp: shootdown_eq drop_entry_view [of _ v] tlb_wf_touch view_touch, auto simp: tlb_view_def fun_eq_iff)

lemma flush_all_wf: "tlb_wf t \<Longrightarrow> tlb_wf (flush_all t) \<and> tlb_view (flush_all t) = Map.empty"
  by (auto simp: flush_all_def tlb_wf_def tlb_view_def fun_eq_iff)

lemma CommonTlb_wf:
  "CommonTlb s e src fl tm n h r ls ps pol = Some t \<Longrightarrow> tlb_wf t \<and> tlb_view t = Map.empty \<and> lru_seq t = s \<and>
     evict_policy t = pol \<and> tlb_entry_num t = n"
  by (auto simp: CommonTlb_def tlb_wf_def tlb_view_def)

text \<open>Filling a free entry.\<close>
definition fill_entry :: "Address \<Rightarrow> TlbEntry \<Rightarrow> nat \<Rightarrow> nat list \<Rightarrow> CommonTlb \<Rightarrow> CommonTlb" where
  "fill_entry v e i rest t =
     (let t3 = touch_lru i (upd_tlb i (\<lambda>e'. set_valid (assign_entry e' e)) (t\<lparr>free_entry_list := rest\<rparr>))
      in t3\<lparr>tlb_trie := (tlb_trie t3)(v \<mapsto> i), tlb_trie_pa := (tlb_trie_pa t3)(p_page_no e \<mapsto> i)\<rparr>)"

lemma fill_entry_simps [simp]:
  "tlb_trie (fill_entry v e i rest t) = (tlb_trie t)(v \<mapsto> i)"
  "free_entry_list (fill_entry v e i rest t) = rest" "tlb_entry_num (fill_entry v e i rest t) = tlb_entry_num t"
  "length (tlb (fill_entry v e i rest t)) = length (tlb t)"
  "lru_seq (fill_entry v e i rest t) = wrap_int32 (lru_seq t + 1)"
  by (simp_all add: fill_entry_def Let_def)

lemma tlb_fill_nth:
  "j < length (tlb t) \<Longrightarrow> tlb (fill_entry v e i rest t) ! j =
     (if j = i then (set_valid (assign_entry (tlb t ! i) e))\<lparr>e_lru_seq := of_int (wrap_int32 (lru_seq t + 1))\<rparr>
      else tlb t ! j)"
  by (simp add: fill_entry_def Let_def tlb_touch_nth tlb_upd_nth)

lemma fill_entry_wf:
  assumes wf: "tlb_wf t" and free: "free_entry_list t = i # rest" and v: "tlb_trie t v = None" "v_page_no e = v"
  shows "tlb_wf (fill_entry v e i rest t)"
proof (rule tlb_wfI, goal_cases)
  case (5 w j)
  have i: "i < length (tlb t)" "i \<notin> set rest" using tlb_wf_free [OF wf] free by auto
  show ?case
  proof (cases "w = v")
    case True
    then show ?thesis using 5 i v tlb_wf_free [OF wf] by (simp add: tlb_fill_nth)
  next
    case False
    then have w: "tlb_trie t w = Some j" using 5 by simp
    then show ?thesis using tlb_wfD [OF wf w] free False by (auto simp: tlb_fill_nth)
  qed
next
  case (6 j)
  have i: "i < length (tlb t)" using tlb_wf_free [OF wf] free by auto
  show ?case
  proof (cases "j = i")
    case False
    then have j: "tlb_trie t (v_page_no (tlb t ! j)) = Some j" "j < length (tlb t)"
      using 6 tlb_wf_free [OF wf] free by auto
    then have "v_page_no (tlb t ! j) \<noteq> v" using v(1) by auto
    then show ?thesis using False j by (simp add: tlb_fill_nth)
  qed (use i v in \<open>simp add: tlb_fill_nth\<close>)
qed (use tlb_wf_free [OF wf] free in auto)

lemma fill_entry_view:
  assumes wf: "tlb_wf t" and free: "free_entry_list t = i # rest" and v: "tlb_trie t v = None"
  shows "tlb_view (fill_entry v e i rest t) = (tlb_view t)(v \<mapsto> entry_data e)"
proof
  fix w
  have i: "i < length (tlb t)" using tlb_wf_free [OF wf] free by auto
  show "tlb_view (fill_entry v e i rest t) w = ((tlb_view t)(v \<mapsto> entry_data e)) w"
  proof (cases "tlb_trie t w")
    case (Some j)
    then show ?thesis using tlb_wfD [OF wf Some] free v i by (auto simp: tlb_view_def tlb_fill_nth)
  qed (use i v in \<open>auto simp: tlb_view_def tlb_fill_nth\<close>)
qed


subsection \<open>Recency\<close>

definition seq_of :: "CommonTlb \<Rightarrow> Address \<Rightarrow> int" where
  "seq_of t v = uint (e_lru_seq (tlb t ! the (tlb_trie t v)))"

definition lru_rep :: "CommonTlb \<Rightarrow> Address list \<Rightarrow> bool" where
  "lru_rep t vs \<longleftrightarrow> tlb_wf t \<and> set vs = dom (tlb_trie t) \<and>
     sorted_wrt (\<lambda>v w. seq_of t w < seq_of t v) vs \<and>
     (\<forall>v \<in> set vs. seq_of t v \<le> lru_seq t) \<and> 0 \<le> lru_seq t"

text \<open>The specification of least-recently-used replacement, on lists of pages.\<close>
definition lru_touch :: "'a \<Rightarrow> 'a list \<Rightarrow> 'a list" where
  "lru_touch v vs = (if v \<in> set vs then v # removeAll v vs else vs)"

definition lru_insert :: "nat \<Rightarrow> 'a \<Rightarrow> 'a list \<Rightarrow> 'a list" where
  "lru_insert n v vs = (if length vs = n then v # butlast vs else v # vs)"

lemma wrap_int32_id: "0 \<le> x \<Longrightarrow> x < 2 ^ 31 \<Longrightarrow> wrap_int32 x = x"
  by (simp add: wrap_int32_def)

lemma seq_word: "0 \<le> x \<Longrightarrow> x < 2 ^ 31 \<Longrightarrow> uint (of_int x :: 64 word) = x"
  by (simp add: uint_word_of_int take_bit_int_eq_self)

lemma lru_repD:
  assumes "lru_rep t vs"
  shows "tlb_wf t" "set vs = dom (tlb_trie t)" "sorted_wrt (\<lambda>v w. seq_of t w < seq_of t v) vs"
    "0 \<le> lru_seq t" "v \<in> set vs \<Longrightarrow> seq_of t v \<le> lru_seq t"
  using assms by (auto simp: lru_rep_def)

lemma sorted_wrt_distinct: "sorted_wrt (\<lambda>v w. (f w :: int) < f v) vs \<Longrightarrow> distinct vs"
  by (induction vs) auto

lemma lru_rep_distinct: "lru_rep t vs \<Longrightarrow> distinct vs"
  using lru_repD(3) sorted_wrt_distinct by blast

text \<open>A page becomes the most recent one, the others keep their order.\<close>
lemma lru_rep_front:
  assumes rep: "lru_rep t vs" and wf: "tlb_wf t'" and dom: "dom (tlb_trie t') = insert v (set vs)"
    and bound: "lru_seq t + 1 < 2 ^ 31" and seq: "lru_seq t' = lru_seq t + 1" "seq_of t' v = lru_seq t + 1"
    and others: "\<And>w. w \<in> set vs \<Longrightarrow> w \<noteq> v \<Longrightarrow> seq_of t' w = seq_of t w"
  shows "lru_rep t' (v # removeAll v vs)"
proof -
  note d = lru_repD [OF rep]
  have "sorted_wrt (\<lambda>x w. seq_of t' w < seq_of t' x) (removeAll v vs)"
    unfolding removeAll_filter_not_eq
    by (rule sorted_wrt_mono_rel [OF _ sorted_wrt_filter [OF d(3)]]) (auto simp: others)
  moreover have "seq_of t' w < lru_seq t + 1" if "w \<in> set (removeAll v vs)" for w
    using that d(5) [of w] others [of w] by auto
  ultimately show ?thesis using d(4) wf dom seq by (fastforce simp: lru_rep_def)
qed

lemma lru_rep_touch:
  assumes rep: "lru_rep t vs" and i: "tlb_trie t v = Some i" and bound: "lru_seq t + 1 < 2 ^ 31"
  shows "lru_rep (touch_lru i t) (v # removeAll v vs)"
proof -
  note d = lru_repD [OF rep] and w = tlb_wfD [OF lru_repD(1) [OF rep] i]
  have s: "wrap_int32 (lru_seq t + 1) = lru_seq t + 1" "uint (of_int (lru_seq t + 1) :: 64 word) = lru_seq t + 1"
    using d(4) bound wrap_int32_id [of "lru_seq t + 1"] seq_word [of "lru_seq t + 1"] by simp_all
  show ?thesis
  proof (rule lru_rep_front [OF rep])
    show "seq_of (touch_lru i t) w' = seq_of t w'" if w': "w' \<in> set vs" "w' \<noteq> v" for w'
    proof -
      obtain j where j: "tlb_trie t w' = Some j" using w'(1) unfolding d(2) by auto
      then have "j \<noteq> i" using trie_inj [OF d(1) i] w'(2) by blast
      then show ?thesis using tlb_wfD [OF d(1) j] j by (simp add: seq_of_def tlb_touch_nth)
    qed
  qed (use d w s i bound in \<open>auto simp: tlb_wf_touch seq_of_def tlb_touch_nth simp del: of_int_add\<close>)
qed

lemma lru_rep_drop:
  assumes rep: "lru_rep t vs" and i: "tlb_trie t v = Some i"
  shows "lru_rep (drop_entry i t) (removeAll v vs)"
proof -
  note d = lru_repD [OF rep] and w = tlb_wfD [OF lru_repD(1) [OF rep] i]
  have seq: "seq_of (drop_entry i t) w' = seq_of t w'" if w': "w' \<in> set vs" "w' \<noteq> v" for w'
  proof -
    obtain j where j: "tlb_trie t w' = Some j" using w'(1) unfolding d(2) by auto
    then have "j \<noteq> i" using trie_inj [OF d(1) i] w'(2) by blast
    then show ?thesis using tlb_wfD [OF d(1) j] j w that by (simp add: seq_of_def tlb_drop_nth)
  qed
  have "sorted_wrt (\<lambda>x w. seq_of (drop_entry i t) w < seq_of (drop_entry i t) x) (removeAll v vs)"
    unfolding removeAll_filter_not_eq
    by (rule sorted_wrt_mono_rel [OF _ sorted_wrt_filter [OF d(3)]]) (auto simp: seq)
  then show ?thesis using d w drop_entry_wf [OF d(1) i] seq by (auto simp: lru_rep_def)
qed

lemma lru_rep_fill:
  assumes rep: "lru_rep t vs" and free: "free_entry_list t = i # rest" and v: "tlb_trie t v = None" "v_page_no e = v"
    and bound: "lru_seq t + 1 < 2 ^ 31"
  shows "lru_rep (fill_entry v e i rest t) (v # vs)"
proof -
  note d = lru_repD [OF rep]
  have i: "i < length (tlb t)" using tlb_wf_free [OF d(1)] free by auto
  have s: "wrap_int32 (lru_seq t + 1) = lru_seq t + 1" "uint (of_int (lru_seq t + 1) :: 64 word) = lru_seq t + 1"
    using d(4) bound wrap_int32_id [of "lru_seq t + 1"] seq_word [of "lru_seq t + 1"] by simp_all
  have nv: "removeAll v vs = vs" using v(1) d(2) by (simp add: removeAll_id domIff)
  have "lru_rep (fill_entry v e i rest t) (v # removeAll v vs)"
  proof (rule lru_rep_front [OF rep fill_entry_wf [OF d(1) free v]])
    show "seq_of (fill_entry v e i rest t) w = seq_of t w" if w': "w \<in> set vs" "w \<noteq> v" for w
    proof -
      obtain j where j: "tlb_trie t w = Some j" using w'(1) unfolding d(2) by auto
      then show ?thesis using tlb_wfD [OF d(1) j] that free by (auto simp: seq_of_def tlb_fill_nth)
    qed
  qed (use d i s bound in \<open>auto simp: seq_of_def tlb_fill_nth simp del: of_int_add\<close>)
  then show ?thesis by (simp add: nv)
qed


subsection \<open>Replacement\<close>

lemma lru_scan_min:
  assumes "\<And>i. i < n \<Longrightarrow> entry_valid (es ! i)" and "0 < n"
  shows "lru_scan es n < n \<and> (\<forall>i < n. e_lru_seq (es ! lru_scan es n) \<le> e_lru_seq (es ! i))"
  using assms
proof (induction n)
  case (Suc n)
  show ?case
  proof (cases "n = 0")
    case False
    then have upt: "[1..<Suc n] = [1..<n] @ [n]" by simp
    let ?m = "lru_scan es n"
    have IH: "?m < n" "\<forall>i < n. e_lru_seq (es ! ?m) \<le> e_lru_seq (es ! i)"
      using Suc.IH Suc.prems False by auto
    have "lru_scan es (Suc n) = (if e_lru_seq (es ! n) < e_lru_seq (es ! ?m) then n else ?m)"
      using Suc.prems(1) [of n] by (simp add: lru_scan_def upt)
    then show ?thesis using IH by (fastforce simp: less_Suc_eq not_less)
  qed (simp add: lru_scan_def)
qed simp

lemma sorted_wrt_last:
  "sorted_wrt (\<lambda>v w. (f w :: int) < f v) vs \<Longrightarrow> v \<in> set vs \<Longrightarrow> v \<noteq> last vs \<Longrightarrow> f (last vs) < f v"
proof (induction vs)
  case (Cons a vs)
  then show ?case by (cases "vs = []") auto
qed simp

text \<open>A full buffer gives up its least recently used page.\<close>
lemma evict_last:
  assumes rep: "lru_rep t vs" and full: "free_entry_list t = []" and pol: "evict_policy t = LRU"
  shows "vs \<noteq> [] \<and> (\<exists>i. tlb_trie t (last vs) = Some i \<and> evict t = Some (drop_entry i t))"
proof -
  note d = lru_repD [OF rep] and f = tlb_wf_free [OF lru_repD(1) [OF rep]]
  let ?n = "tlb_entry_num t" and ?m = "lru_scan (tlb t) (tlb_entry_num t)"
  have all: "tlb_trie t (v_page_no (tlb t ! i)) = Some i" if "i < ?n" for i using f(5) [OF that] full by simp
  have valid: "entry_valid (tlb t ! i)" if "i < ?n" for i using tlb_wfD(4) [OF d(1) all [OF that]] .
  from lru_scan_min [of ?n "tlb t", OF valid f(2)]
  have m: "?m < ?n" "\<And>i. i < ?n \<Longrightarrow> e_lru_seq (tlb t ! ?m) \<le> e_lru_seq (tlb t ! i)" by auto
  let ?v = "v_page_no (tlb t ! ?m)"
  have v: "tlb_trie t ?v = Some ?m" using all [OF m(1)] .
  then have mem: "?v \<in> set vs" unfolding d(2) by auto
  have "?v = last vs"
  proof (rule ccontr)
    assume "?v \<noteq> last vs"
    with sorted_wrt_last [OF d(3) mem] have "seq_of t (last vs) < seq_of t ?v" .
    moreover have "last vs \<in> set vs" using mem by (cases vs) auto
    then obtain j where j: "tlb_trie t (last vs) = Some j" unfolding d(2) by auto
    then have "j < ?n" using tlb_wfD(1) [OF d(1)] by blast
    ultimately show False using m(2) [of j] j v by (auto simp: seq_of_def word_le_def)
  qed
  moreover have "evict t = Some (drop_entry ?m t)"
    using full pol v by (simp add: evict_def lru_evict_def Let_def drop_entry_def)
  ultimately show ?thesis using mem v by auto
qed

text \<open>The number of pages in the buffer and the number of free entries add up.\<close>
lemma lru_rep_length:
  assumes rep: "lru_rep t vs"
  shows "length vs + length (free_entry_list t) = tlb_entry_num t"
proof -
  note d = lru_repD [OF rep] and f = tlb_wf_free [OF lru_repD(1) [OF rep]]
  have "bij_betw (\<lambda>v. the (tlb_trie t v)) (dom (tlb_trie t)) ({..<tlb_entry_num t} - set (free_entry_list t))"
    by (rule bij_betw_byWitness [where f' = "\<lambda>i. v_page_no (tlb t ! i)"])
       (use tlb_wfD(1,3,5) [OF d(1)] f(5) in auto)
  then have "card (set vs) = card ({..<tlb_entry_num t} - set (free_entry_list t))"
    unfolding d(2) by (rule bij_betw_same_card)
  also have "\<dots> = tlb_entry_num t - length (free_entry_list t)"
    using f(3,4) by (simp add: card_Diff_subset distinct_card)
  finally have "length vs = tlb_entry_num t - length (free_entry_list t)"
    using lru_rep_distinct [OF rep] by (simp add: distinct_card)
  moreover have "length (free_entry_list t) \<le> tlb_entry_num t"
    using f(3,4) card_mono [of "{..<tlb_entry_num t}" "set (free_entry_list t)"] by (simp add: distinct_card)
  ultimately show ?thesis by simp
qed


subsection \<open>The operations on recency lists\<close>

lemma look_up_lru:
  assumes rep: "lru_rep t vs" and bound: "lru_seq t + 1 < 2 ^ 31"
  shows "lru_rep (snd (look_up v True t)) (lru_touch v vs)"
proof (cases "tlb_trie t v")
  case None
  then have "v \<notin> set vs" using lru_repD(2) [OF rep] by auto
  then show ?thesis using rep None by (simp add: look_up_def lru_touch_def)
next
  case (Some i)
  then have "v \<in> set vs" using lru_repD(2) [OF rep] by auto
  then show ?thesis using lru_rep_touch [OF rep Some bound] look_up_hit [OF lru_repD(1) [OF rep] Some]
    by (simp add: lru_touch_def)
qed

lemma shootdown_lru:
  assumes rep: "lru_rep t vs" and bound: "lru_seq t + 1 < 2 ^ 31"
  shows "lru_rep (snd (shootdown v t)) (removeAll v vs)"
proof (cases "tlb_trie t v")
  case None
  then have "v \<notin> set vs" using lru_repD(2) [OF rep] by auto
  then show ?thesis using rep None by (simp add: shootdown_eq [OF lru_repD(1) [OF rep]] removeAll_id)
next
  case (Some i)
  have "lru_rep (drop_entry i (touch_lru i t)) (removeAll v (v # removeAll v vs))"
    by (rule lru_rep_drop [OF lru_rep_touch [OF rep Some bound]]) (simp add: Some)
  then show ?thesis using Some by (simp add: shootdown_eq [OF lru_repD(1) [OF rep]])
qed

lemma lru_rep_evict_time [simp]:
  "tlb_wf (t\<lparr>tlb_evict_time := x\<rparr>) = tlb_wf t" "lru_rep (t\<lparr>tlb_evict_time := x\<rparr>) vs = lru_rep t vs"
  "tlb_view (t\<lparr>tlb_evict_time := x\<rparr>) = tlb_view t"
  by (simp_all add: lru_rep_def tlb_wf_def seq_of_def tlb_view_def fun_eq_iff)

lemma removeAll_last: "distinct vs \<Longrightarrow> vs \<noteq> [] \<Longrightarrow> removeAll (last vs) vs = butlast vs"
  by (induction vs rule: rev_induct) (auto simp: removeAll_id)

text \<open>Insertion of a missing page, into a free entry or in the place of the last page.\<close>
lemma insert_lru:
  assumes rep: "lru_rep t vs" and bound: "lru_seq t + 1 < 2 ^ 31" and pol: "evict_policy t = LRU"
    and v: "v \<notin> set vs" "v_page_no e = v"
  shows "\<exists>i t'. insert_entry v e t = Some (Some i, t') \<and> lru_rep t' (lru_insert (tlb_entry_num t) v vs) \<and>
           tlb_view t' = (if length vs = tlb_entry_num t then (tlb_view t)(last vs := None) else tlb_view t)
             (v \<mapsto> entry_data e)"
proof -
  note d = lru_repD [OF rep]
  have none: "tlb_trie t v = None" using v(1) unfolding d(2) by (simp add: domIff)
  show ?thesis
  proof (cases "free_entry_list t")
    case (Cons i rest)
    have "length vs \<noteq> tlb_entry_num t" using lru_rep_length [OF rep] Cons by simp
    then show ?thesis
      using Cons none lru_rep_fill [OF rep Cons none v(2) bound] fill_entry_view [OF d(1) Cons none, of e]
      by (simp add: insert_entry_def lru_insert_def fill_entry_def Let_def)
  next
    case Nil
    let ?t = "t\<lparr>tlb_evict_time := tlb_evict_time t + 1\<rparr>"
    have rep1: "lru_rep ?t vs" using rep by simp
    from evict_last [OF rep1] Nil pol obtain i where vs: "vs \<noteq> []" "tlb_trie ?t (last vs) = Some i"
      "evict ?t = Some (drop_entry i ?t)" by auto
    let ?u = "drop_entry i ?t"
    have rep2: "lru_rep ?u (butlast vs)"
      using lru_rep_drop [OF rep1 vs(2)] removeAll_last [OF lru_rep_distinct [OF rep] vs(1)] by simp
    have free: "free_entry_list ?u = i # []" using Nil by simp
    have "v \<noteq> last vs" using v(1) vs(1) by auto
    then have none2: "tlb_trie ?u v = None" using none by simp
    have "length vs = tlb_entry_num t" using lru_rep_length [OF rep] Nil by simp
    moreover have "insert_entry v e t = Some (Some i, fill_entry v e i [] ?u)"
      using none Nil vs(3) free by (simp add: insert_entry_def fill_entry_def Let_def)
    moreover have "tlb_view ?u = (tlb_view t)(last vs := None)"
      using drop_entry_view [OF lru_repD(1) [OF rep1] vs(2)] by simp
    ultimately show ?thesis
      using lru_rep_fill [OF rep2 free none2 v(2)] fill_entry_view [OF lru_repD(1) [OF rep2] free none2, of e] bound
      by (simp add: lru_insert_def)
  qed
qed

subsection \<open>Runs\<close>

datatype tlb_op = Translate Address Address | Shoot Address

text \<open>
  A translation looks the page up and, when it misses, inserts a valid entry with the physical page
  the walker returned, as \<^verbatim>\<open>access\<close> does.
\<close>
fun tlb_op_step :: "tlb_op \<Rightarrow> CommonTlb \<Rightarrow> CommonTlb option" where
  "tlb_op_step (Translate v p) t =
     (case look_up v True t of
        (Some i, t1) \<Rightarrow> Some t1
      | (None, t1) \<Rightarrow> map_option snd (insert_entry v (set_valid (TlbEntry v p)) t1))"
| "tlb_op_step (Shoot v) t = Some (snd (shootdown v t))"

fun lru_op_step :: "nat \<Rightarrow> tlb_op \<Rightarrow> Address list \<Rightarrow> Address list" where
  "lru_op_step n (Translate v p) vs = (if v \<in> set vs then lru_touch v vs else lru_insert n v vs)"
| "lru_op_step n (Shoot v) vs = removeAll v vs"

lemma evict_policy_ops [simp]:
  "evict_policy (drop_entry i t) = evict_policy t" "tlb_page_shift (drop_entry i t) = tlb_page_shift t"
  "tlb_line_shift (drop_entry i t) = tlb_line_shift t" "evict_policy (fill_entry v e i r t) = evict_policy t"
  "evict_policy (snd (look_up v u t)) = evict_policy t"
  by (auto simp: drop_entry_def fill_entry_def Let_def look_up_def split: option.split)


text \<open>What an operation keeps, and how far it advances the counter.\<close>
definition op_frame :: "CommonTlb \<Rightarrow> CommonTlb \<Rightarrow> bool" where
  "op_frame t t' \<longleftrightarrow> evict_policy t' = evict_policy t \<and> tlb_entry_num t' = tlb_entry_num t \<and>
     tlb_page_shift t' = tlb_page_shift t \<and> tlb_line_shift t' = tlb_line_shift t \<and>
     (lru_seq t' = lru_seq t \<or> lru_seq t' = wrap_int32 (lru_seq t + 1))"

lemma insert_frame: "insert_entry v e t = Some (r, t') \<Longrightarrow> op_frame t t'"
  by (auto simp: insert_entry_def evict_def op_frame_def Let_def elim!: bind_SomeE split: list.splits if_splits)

lemma look_up_frame: "op_frame t (snd (look_up v u t))"
  by (auto simp: op_frame_def look_up_def split: option.split)

lemma shootdown_frame: "tlb_wf t \<Longrightarrow> op_frame t (snd (shootdown v t))"
  by (auto simp: op_frame_def shootdown_eq split: option.split)

lemma tlb_op_step_num: "tlb_op_step op t = Some t' \<Longrightarrow> tlb_entry_num t' = tlb_entry_num t"
  using look_up_frame [of t _ True]
  by (cases op) (auto simp: op_frame_def shootdown_def Let_def look_up_def split: prod.splits option.splits
      dest!: insert_frame)

lemma tlb_op_step_lru:
  assumes rep: "lru_rep t vs" and bound: "lru_seq t + 1 < 2 ^ 31" and pol: "evict_policy t = LRU"
  shows "\<exists>t'. tlb_op_step op t = Some t' \<and> lru_rep t' (lru_op_step (tlb_entry_num t) op vs) \<and> op_frame t t'"
proof (cases op)
  case (Shoot v)
  then show ?thesis using shootdown_lru [OF rep bound] shootdown_frame [OF lru_repD(1) [OF rep]] by simp
next
  case (Translate v p)
  show ?thesis
  proof (cases "tlb_trie t v")
    case (Some i)
    then have "v \<in> set vs" using lru_repD(2) [OF rep] by auto
    then show ?thesis
      using Translate look_up_lru [OF rep bound, of v] look_up_hit [OF lru_repD(1) [OF rep] Some] look_up_frame [of t v True]
      by simp
  next
    case None
    then have v: "v \<notin> set vs" using lru_repD(2) [OF rep] by auto
    have "v_page_no (set_valid (TlbEntry v p)) = v" by (simp add: TlbEntry_def)
    from insert_lru [OF rep bound pol v this] insert_frame show ?thesis
      using Translate None v by (fastforce simp: look_up_def)
  qed
qed

lemma tlb_run_lru:
  assumes "lru_rep t vs" and "lru_seq t + int (length ops) < 2 ^ 31" and "evict_policy t = LRU"
  shows "\<exists>t'. fold_opt tlb_op_step ops t = Some t' \<and> lru_rep t' (fold (lru_op_step (tlb_entry_num t)) ops vs)"
  using assms
proof (induction ops arbitrary: t vs)
  case (Cons op ops)
  have b: "lru_seq t + 1 < 2 ^ 31" using Cons.prems(2) by simp
  obtain t1 where 1: "tlb_op_step op t = Some t1" "lru_rep t1 (lru_op_step (tlb_entry_num t) op vs)" "op_frame t t1"
    using tlb_op_step_lru [OF Cons.prems(1) b Cons.prems(3)] by blast
  have "lru_seq t1 \<le> lru_seq t + 1"
    using 1(3) lru_repD(4) [OF Cons.prems(1)] b wrap_int32_id [of "lru_seq t + 1"] by (auto simp: op_frame_def)
  then show ?case using Cons.IH [OF 1(2)] 1 Cons.prems(2,3) by (auto simp: op_frame_def)
qed simp

subsection \<open>Properties\<close>

text \<open>
  C12. The buffer implements least-recently-used replacement.  Starting empty, with the counter at zero
  and fewer than \<open>2 ^ 31\<close> operations, any sequence of translations and shootdowns runs without a failed
  assertion, and the pages in the buffer are those of the recency list: a translation moves its page to
  the front, dropping the last page of a full buffer when the page was missing; a shootdown removes its page.
\<close>
theorem tlb_implements_lru:
  assumes "CommonTlb 0 raw src flags timing sz hit res ls ps LRU = Some t" and "length ops < 2 ^ 31"
  shows "\<exists>t' vs. fold_opt tlb_op_step ops t = Some t' \<and> vs = fold (lru_op_step sz) ops [] \<and>
           dom (tlb_view t') = set vs \<and> distinct vs \<and> length vs \<le> sz"
proof -
  note c = CommonTlb_wf [OF assms(1)]
  have "dom (tlb_trie t) = {}" using assms(1) by (auto simp: CommonTlb_def)
  then have rep: "lru_rep t []" using c by (simp add: lru_rep_def)
  have "lru_seq t + int (length ops) < 2 ^ 31" "evict_policy t = LRU" using c assms(2) by simp_all
  from tlb_run_lru [OF rep this] obtain t' where t': "fold_opt tlb_op_step ops t = Some t'"
    "lru_rep t' (fold (lru_op_step sz) ops [])" using c by auto
  have "tlb_entry_num t' = tlb_entry_num t"
    by (rule fold_opt_inv [OF t'(1)]) (auto dest: tlb_op_step_num)
  moreover have "dom (tlb_view t') = dom (tlb_trie t')" by (auto simp: tlb_view_def)
  ultimately show ?thesis
    using t' lru_repD(2) [OF t'(2)] lru_rep_distinct [OF t'(2)] lru_rep_length [OF t'(2)] c by auto
qed

theorem tlb_implements_lru_witness:
  "\<exists>t t'. CommonTlb 0 (TlbEntry 0 0) 0 0 False 2 1 1 6 12 LRU = Some t \<and>
     fold_opt tlb_op_step [Translate 1 7, Translate 2 8, Translate 1 7, Translate 3 9] t = Some t' \<and>
     dom (tlb_view t') = {3, 1}"
proof -
  obtain t where t: "CommonTlb 0 (TlbEntry 0 0) 0 0 False 2 1 1 6 12 LRU = Some t" by (simp add: CommonTlb_def)
  let ?ops = "[Translate 1 7, Translate 2 8, Translate 1 7, Translate 3 9]"
  have "fold (lru_op_step 2) ?ops [] = [3, 1]" by (simp add: lru_touch_def lru_insert_def)
  moreover have "length ?ops < 2 ^ 31" by simp
  ultimately obtain t' where "fold_opt tlb_op_step ?ops t = Some t'" "dom (tlb_view t') = set [3, 1]"
    using tlb_implements_lru [OF t, of ?ops] by metis
  then show ?thesis using t by (metis list.simps(15) list.set(1))
qed

text \<open>
  A shootdown removes exactly the page it names: the buffer stays well formed, the page misses
  afterwards, and every other page keeps its translation and flags; deleting an entry does the same.
\<close>
theorem shootdown_removes_page:
  assumes "tlb_wf t"
  shows "tlb_wf (snd (shootdown v t)) \<and> tlb_view (snd (shootdown v t)) = (tlb_view t)(v := None) \<and>
         fst (look_up v u (snd (shootdown v t))) = None \<and>
         delete_entry v t = (tlb_view t v \<noteq> None, snd (shootdown v t))"
proof -
  have "tlb_view (snd (shootdown v t)) v = None" using shootdown_view [OF assms, of v] by simp
  then have "tlb_trie (snd (shootdown v t)) v = None" by (simp add: tlb_view_def)
  moreover have "tlb_view t v \<noteq> None \<longleftrightarrow> tlb_trie t v \<noteq> None" by (simp add: tlb_view_def)
  ultimately show ?thesis
    using shootdown_wf [OF assms] shootdown_view [OF assms] delete_entry_eq [OF assms, of v] by simp
qed

theorem shootdown_removes_page_witness:
  "\<exists>t t'. CommonTlb 0 (TlbEntry 0 0) 0 0 False 2 1 1 6 12 LRU = Some t \<and> t' = snd (shootdown 5 t) \<and>
     tlb_view t' 5 = None \<and> delete_entry 5 t = (False, t')"
proof -
  obtain t where t: "CommonTlb 0 (TlbEntry 0 0) 0 0 False 2 1 1 6 12 LRU = Some t" by (simp add: CommonTlb_def)
  from shootdown_removes_page [of t 5] CommonTlb_wf [OF t] t show ?thesis by auto
qed

text \<open>
  C31. Changing the physical page of an entry leaves the index by physical page behind: after the update
  the entry has the new page, a search for the new page finds nothing and a search for the old page
  still finds the entry, so that a later flag update for the new page is lost.
\<close>
theorem update_ppn_leaves_stale_index:
  assumes "tlb_trie_pa t p = Some i" and "i < length (tlb t)" and "tlb_trie_pa t q = None"
  shows "p_page_no (tlb (snd (update_ppn p q t)) ! i) = q \<and>
         look_up_pa q (snd (update_ppn p q t)) = None \<and> look_up_pa p (snd (update_ppn p q t)) = Some i \<and>
         snd (update_tlb_flags q s d (snd (update_ppn p q t))) = snd (update_ppn p q t)"
  using assms by (simp add: update_ppn_def update_tlb_flags_def look_up_pa_def tlb_upd_nth)

theorem update_ppn_leaves_stale_index_witness:
  "\<exists>t t'. CommonTlb 0 (TlbEntry 0 0) 0 0 False 2 1 1 6 12 LRU = Some t \<and>
     tlb_op_step (Translate 1 7) t = Some t' \<and> look_up_pa 8 (snd (update_ppn 7 8 t')) = None"
proof -
  define t where "t = the (CommonTlb 0 (TlbEntry 0 0) 0 0 False 2 1 1 6 12 LRU)"
  have t: "CommonTlb 0 (TlbEntry 0 0) 0 0 False 2 1 1 6 12 LRU = Some t" by (simp add: CommonTlb_def t_def)
  obtain t' where t': "tlb_op_step (Translate 1 7) t = Some t'" "tlb_trie_pa t' 7 = Some 0" "tlb_trie_pa t' 8 = None"
      "length (tlb t') = 2"
    by (simp add: t_def CommonTlb_def look_up_def insert_entry_def Let_def TlbEntry_def upt_conv_Cons)
  from update_ppn_leaves_stale_index [OF t'(2) _ t'(3)] t'(4) t t'(1) show ?thesis by auto
qed

end
