(* ===== verification/Flexi_List.thy ===== *)
theory Flexi_List
  imports Prelude
begin

text \<open>
  The intrusive list \<^verbatim>\<open>FlexiList\<close> of \<^verbatim>\<open>src/src/common/common_structures.h\<close>.  The blocks carry
  their own \<^verbatim>\<open>next\<close> pointer, so the state is the list header together with the map of all
  \<^verbatim>\<open>next\<close> pointers, which every list over the same kind of block shares.  The operations
  are shown to implement a sequence of blocks and to leave alone every other list that has
  no block in common.  The interface the page allocator relies on is the locale
  \<open>block_queue\<close>, with its array of queues; it is interpreted on the operations of this theory.
\<close>

subsection \<open>The list header and its operations\<close>

type_synonym 'a links = "'a \<Rightarrow> 'a option"

record 'a flexi_list =
  fl_head :: "'a option"
  fl_tail :: "'a option"
  fl_size :: int

definition FlexiList :: "'a flexi_list" where
  "FlexiList = \<lparr>fl_head = None, fl_tail = None, fl_size = 0\<rparr>"

definition is_empty :: "'a flexi_list \<Rightarrow> bool" where
  "is_empty l = (case fl_head l of Some _ \<Rightarrow> False | None \<Rightarrow> True)"

definition clear :: "'a flexi_list \<Rightarrow> 'a flexi_list" where
  "clear l = l\<lparr>fl_size := 0, fl_head := None, fl_tail := None\<rparr>"

definition push_block_back ::
  "'a links \<Rightarrow> 'a flexi_list \<Rightarrow> 'a \<Rightarrow> ('a links \<times> 'a flexi_list) option" where
  "push_block_back nx l block =
     (case fl_head l of
        None \<Rightarrow>
          Some (nx(block := None),
                l\<lparr>fl_head := Some block, fl_tail := Some block, fl_size := fl_size l + 1\<rparr>)
      | Some h \<Rightarrow>
          (case fl_tail l of
             None \<Rightarrow> None
           | Some t \<Rightarrow>
               let nx1 = (if h = t then nx(h := Some block) else nx);
                   nx2 = nx1(t := Some block)
               in Some (nx2(block := None),
                        l\<lparr>fl_tail := Some block, fl_size := fl_size l + 1\<rparr>)))"

definition fetch_head ::
  "'a links \<Rightarrow> 'a flexi_list \<Rightarrow> ('a \<times> 'a links \<times> 'a flexi_list) option" where
  "fetch_head nx l =
     (case fl_head l of
        None \<Rightarrow> None
      | Some h \<Rightarrow>
          (case nx h of
             None \<Rightarrow>
               Some (h, nx, l\<lparr>fl_head := None, fl_tail := None, fl_size := fl_size l - 1\<rparr>)
           | Some n \<Rightarrow>
               Some (h, nx(h := None), l\<lparr>fl_head := Some n, fl_size := fl_size l - 1\<rparr>)))"

definition get_head :: "'a flexi_list \<Rightarrow> 'a option" where
  "get_head l = fl_head l"

text \<open>The search loop of \<^verbatim>\<open>fetch_block\<close>: it stops at the wanted block or at the end of the chain.\<close>
partial_function (option) fetch_block_loop ::
  "'a links \<Rightarrow> 'a \<Rightarrow> 'a option \<Rightarrow> 'a option \<Rightarrow> ('a option \<times> 'a option) option" where
  "fetch_block_loop nx wanted pre tmp =
     (case tmp of
        None \<Rightarrow> Some (pre, None)
      | Some b \<Rightarrow>
          if b = wanted then Some (pre, Some b)
          else fetch_block_loop nx wanted (Some b) (nx b))"

declare fetch_block_loop.simps [code]

definition fetch_block ::
  "'a links \<Rightarrow> 'a flexi_list \<Rightarrow> 'a \<Rightarrow> ('a \<times> 'a links \<times> 'a flexi_list) option" where
  "fetch_block nx l wanted = do {
     h \<leftarrow> fl_head l;
     (pre, tmp) \<leftarrow> fetch_block_loop nx wanted None (Some h);
     b \<leftarrow> tmp;
     (nx', l') \<leftarrow>
       (if b = h then
          (let l1 = l\<lparr>fl_head := nx h\<rparr>; nx1 = nx(b := None)
           in Some (nx1, if nx h = None then l1\<lparr>fl_tail := None\<rparr> else l1))
        else if Some b = fl_tail l then
          (case pre of None \<Rightarrow> None
           | Some p \<Rightarrow> Some (nx(p := None), l\<lparr>fl_tail := pre\<rparr>))
        else
          (case pre of None \<Rightarrow> None
           | Some p \<Rightarrow> Some ((nx(p := nx b))(b := None), l)));
     Some (b, nx', l'\<lparr>fl_size := fl_size l' - 1\<rparr>)
   }"

definition get_size :: "'a flexi_list \<Rightarrow> int" where
  "get_size l = fl_size l"

definition extend_back ::
  "'a links \<Rightarrow> 'a flexi_list \<Rightarrow> 'a flexi_list \<Rightarrow> ('a links \<times> 'a flexi_list) option" where
  "extend_back nx l added =
     (if is_empty added then Some (nx, l)
      else case fl_head l of
        None \<Rightarrow> Some (nx, l\<lparr>fl_head := fl_head added, fl_tail := fl_tail added\<rparr>)
      | Some _ \<Rightarrow>
          (case fl_tail l of
             None \<Rightarrow> None
           | Some t \<Rightarrow>
               Some (nx(t := fl_head added),
                     l\<lparr>fl_tail := fl_tail added, fl_size := fl_size l + get_size added\<rparr>)))"

subsection \<open>The sequence a header stands for\<close>

fun chain :: "'a links \<Rightarrow> 'a option \<Rightarrow> 'a list \<Rightarrow> bool" where
  "chain nx p [] \<longleftrightarrow> p = None"
| "chain nx p (x # xs) \<longleftrightarrow> p = Some x \<and> chain nx (nx x) xs"

definition flexi_rep :: "'a links \<Rightarrow> 'a flexi_list \<Rightarrow> 'a list \<Rightarrow> bool" where
  "flexi_rep nx l xs \<longleftrightarrow>
     chain nx (fl_head l) xs \<and> distinct xs \<and>
     fl_tail l = (if xs = [] then None else Some (last xs)) \<and>
     fl_size l = int (length xs)"

lemma chain_upd_notin [simp]:
  "a \<notin> set xs \<Longrightarrow> chain (nx(a := v)) p xs = chain nx p xs"
  by (induction xs arbitrary: p) auto

lemma chain_None [simp]: "chain nx None xs \<longleftrightarrow> xs = []"
  by (cases xs) auto

lemma chain_SomeE:
  assumes "chain nx (Some a) xs"
  obtains ys where "xs = a # ys" and "chain nx (nx a) ys"
  using assms by (cases xs) auto

text \<open>Redirecting the last block of a chain concatenates the two chains.\<close>
lemma chain_link:
  assumes "chain nx p xs" and "distinct xs" and "xs \<noteq> []"
    and "set xs \<inter> set ys = {}" and "chain nx q ys"
  shows "chain (nx(last xs := q)) p (xs @ ys)"
  using assms
proof (induction xs arbitrary: p)
  case (Cons x xs)
  show ?case
  proof (cases "xs = []")
    case True
    moreover have "chain (nx(x := q)) q ys"
      using Cons.prems by (subst chain_upd_notin) auto
    ultimately show ?thesis using Cons.prems by (simp add: fun_upd_def)
  next
    case False
    with Cons.prems Cons.IH [of "nx x"] show ?thesis
      by (auto simp: last_in_set)
  qed
qed simp

lemma flexi_rep_frame:
  assumes "flexi_rep nx l xs" and "a \<notin> set xs"
  shows "flexi_rep (nx(a := v)) l xs"
  using assms by (simp add: flexi_rep_def)

lemma flexi_rep_empty: "flexi_rep nx FlexiList []"
  by (simp add: flexi_rep_def FlexiList_def)

lemma flexi_rep_is_empty: "flexi_rep nx l xs \<Longrightarrow> is_empty l \<longleftrightarrow> xs = []"
  by (cases xs) (auto simp: flexi_rep_def is_empty_def)

lemma flexi_rep_size: "flexi_rep nx l xs \<Longrightarrow> get_size l = int (length xs)"
  by (simp add: flexi_rep_def get_size_def)

subsection \<open>The operations implement the sequence operations\<close>

lemma push_block_back_rep:
  assumes rep: "flexi_rep nx l xs" and new: "block \<notin> set xs"
  obtains nx' l' where "push_block_back nx l block = Some (nx', l')"
    and "flexi_rep nx' l' (xs @ [block])"
    and "\<And>a. a \<notin> insert block (set xs) \<Longrightarrow> nx' a = nx a"
proof (cases "xs = []")
  case True
  let ?l = "l\<lparr>fl_head := Some block, fl_tail := Some block, fl_size := fl_size l + 1\<rparr>"
  from True rep show thesis
    by (intro that [of "nx(block := None)" ?l]) (auto simp: push_block_back_def flexi_rep_def)
next
  case False
  then obtain h hs where xs: "xs = h # hs" by (cases xs) auto
  let ?nx = "(nx(last xs := Some block))(block := None)"
  let ?l = "l\<lparr>fl_tail := Some block, fl_size := fl_size l + 1\<rparr>"
  have hd: "fl_head l = Some h" and tl: "fl_tail l = Some (last xs)"
    using rep by (auto simp: flexi_rep_def xs)
  have last: "last xs \<in> set xs" using False by simp
  have push: "push_block_back nx l block = Some (?nx, ?l)"
    by (auto simp: push_block_back_def hd tl Let_def fun_upd_def)
  have "chain (nx(block := None)) (fl_head l) xs"
    using rep new by (simp add: flexi_rep_def)
  then have "chain ((nx(block := None))(last xs := Some block)) (fl_head l) (xs @ [block])"
    by (rule chain_link) (use rep new False in \<open>auto simp: flexi_rep_def\<close>)
  moreover have "(nx(block := None))(last xs := Some block) = ?nx"
    using new last by (auto simp: fun_upd_twist)
  ultimately have "flexi_rep ?nx ?l (xs @ [block])"
    using rep new False by (simp add: flexi_rep_def)
  then show thesis by (intro that [OF push]) (use last in auto)
qed

lemma fetch_head_rep:
  assumes rep: "flexi_rep nx l (x # xs)"
  obtains nx' l' where "fetch_head nx l = Some (x, nx', l')"
    and "flexi_rep nx' l' xs"
    and "\<And>a. a \<noteq> x \<Longrightarrow> nx' a = nx a"
proof (cases xs)
  case Nil
  let ?l = "l\<lparr>fl_head := None, fl_tail := None, fl_size := fl_size l - 1\<rparr>"
  from Nil rep show thesis
    by (intro that [of nx ?l]) (auto simp: fetch_head_def flexi_rep_def)
next
  case (Cons y ys)
  let ?l = "l\<lparr>fl_head := Some y, fl_size := fl_size l - 1\<rparr>"
  from Cons rep show thesis
    by (intro that [of "nx(x := None)" ?l]) (auto simp: fetch_head_def flexi_rep_def)
qed

lemma fetch_head_empty: "flexi_rep nx l [] \<Longrightarrow> fetch_head nx l = None"
  by (simp add: fetch_head_def flexi_rep_def)

text \<open>On a chain the search loop terminates, with the block before the wanted one.\<close>
lemma fetch_block_loop_found:
  assumes "chain nx p (us @ w # vs)" and "w \<notin> set us"
  shows "fetch_block_loop nx w pre p =
           Some (if us = [] then pre else Some (last us), Some w)"
  using assms
proof (induction us arbitrary: p pre)
  case Nil
  then show ?case by (simp add: fetch_block_loop.simps)
next
  case (Cons u us)
  then show ?case by (subst fetch_block_loop.simps) auto
qed

lemma fetch_block_loop_missing:
  assumes "chain nx p us" and "w \<notin> set us"
  shows "\<exists>pre'. fetch_block_loop nx w pre p = Some (pre', None)"
  using assms
proof (induction us arbitrary: p pre)
  case Nil
  then show ?case by (simp add: fetch_block_loop.simps)
next
  case (Cons u us)
  then show ?case by (subst fetch_block_loop.simps) auto
qed

lemma chain_append:
  "chain nx p (us @ w # vs) \<Longrightarrow> chain nx (Some w) (w # vs)"
  by (induction us arbitrary: p) auto

lemma chain_unlink:
  assumes "chain nx p (us @ w # vs)" and "distinct (us @ w # vs)" and "us \<noteq> []"
  shows "chain (nx(last us := nx w)) p (us @ vs)"
  using assms
proof (induction us arbitrary: p)
  case (Cons u us)
  show ?case
  proof (cases "us = []")
    case True
    moreover have "chain (nx(u := nx w)) (nx w) vs"
      using Cons.prems True by (subst chain_upd_notin) auto
    ultimately show ?thesis using Cons.prems by (simp add: fun_upd_def)
  next
    case False
    with Cons.prems Cons.IH [of "nx u"] show ?thesis by (auto simp: last_in_set)
  qed
qed simp

lemma fetch_block_rep:
  assumes rep: "flexi_rep nx l xs" and w: "w \<in> set xs"
  shows "\<exists>nx' l'. fetch_block nx l w = Some (w, nx', l') \<and> flexi_rep nx' l' (remove1 w xs)"
proof -
  obtain us vs where xs: "xs = us @ w # vs" and us: "w \<notin> set us"
    using w by (meson split_list_first)
  obtain h where h: "fl_head l = Some h" "h \<in> set xs"
    using rep w by (cases xs) (auto simp: flexi_rep_def)
  have dist: "distinct (us @ w # vs)" and ch: "chain nx (fl_head l) (us @ w # vs)"
    using rep by (auto simp: flexi_rep_def xs)
  have loop: "fetch_block_loop nx w None (Some h) =
      Some (if us = [] then None else Some (last us), Some w)"
    using fetch_block_loop_found [OF ch us, of None] h by simp
  have tail: "fl_tail l = Some (last (w # vs))" and size: "fl_size l = int (length xs)"
    using rep by (auto simp: flexi_rep_def xs)
  have rm: "remove1 w xs = us @ vs" unfolding xs by (rule remove1_split [OF us])
  show ?thesis
  proof (cases "us = []")
    case True
    with ch dist tail size loop h rm show ?thesis
      by (auto simp: fetch_block_def flexi_rep_def Let_def xs)
  next
    case False
    then have "h \<noteq> w" using ch dist h by (cases us) auto
    have un: "chain (nx(last us := nx w)) (fl_head l) (us @ vs)"
      by (rule chain_unlink [OF ch dist False])
    have w_last: "w \<noteq> last us" using us False by auto
    show ?thesis
    proof (cases "vs = []")
      case True
      then have "nx w = None" using chain_append [OF ch] by simp
      with True un \<open>h \<noteq> w\<close> False loop h rm tail size dist show ?thesis
        by (auto simp: fetch_block_def flexi_rep_def xs)
    next
      case False
      then have "last (w # vs) \<noteq> w" using dist by auto
      with \<open>us \<noteq> []\<close> False un \<open>h \<noteq> w\<close> loop h rm tail size dist w_last show ?thesis
        by (auto simp: fetch_block_def flexi_rep_def xs)
    qed
  qed
qed

lemma fetch_block_missing:
  assumes "flexi_rep nx l xs" and "w \<notin> set xs"
  shows "fetch_block nx l w = None"
proof (cases "fl_head l")
  case (Some h)
  then have "chain nx (Some h) xs" using assms(1) by (simp add: flexi_rep_def)
  from fetch_block_loop_missing [OF this assms(2), of None] Some show ?thesis
    by (auto simp: fetch_block_def)
qed (simp add: fetch_block_def)

lemma extend_back_rep:
  assumes "flexi_rep nx l xs" and "flexi_rep nx m ys"
    and "xs \<noteq> []" and "set xs \<inter> set ys = {}"
  shows "\<exists>nx' l'. extend_back nx l m = Some (nx', l') \<and> flexi_rep nx' l' (xs @ ys)"
proof (cases "ys = []")
  case True
  with assms show ?thesis by (auto simp: extend_back_def flexi_rep_is_empty)
next
  case False
  obtain h where h: "fl_head l = Some h" using assms(1,3) by (cases xs) (auto simp: flexi_rep_def)
  have "chain (nx(last xs := fl_head m)) (fl_head l) (xs @ ys)"
    by (rule chain_link) (use assms in \<open>auto simp: flexi_rep_def\<close>)
  then show ?thesis
    using assms False h
    by (auto simp: extend_back_def flexi_rep_is_empty get_size_def) (simp add: flexi_rep_def get_size_def)
qed

subsection \<open>The interface of block queues\<close>

text \<open>
  What a client of the list may rely on.  \<open>rep h l xs\<close> says that header \<open>l\<close> stands for the
  sequence \<open>xs\<close> in heap \<open>h\<close>; the operations give the sequence operations and disturb no
  header whose blocks are elsewhere.
\<close>
locale block_queue =
  fixes rep :: "'h \<Rightarrow> 'l \<Rightarrow> 'a list \<Rightarrow> bool"
    and push :: "'h \<Rightarrow> 'l \<Rightarrow> 'a \<Rightarrow> ('h \<times> 'l) option"
    and fetch :: "'h \<Rightarrow> 'l \<Rightarrow> ('a \<times> 'h \<times> 'l) option"
    and len :: "'l \<Rightarrow> int"
    and new :: 'l
  assumes rep_new: "rep h new []"
    and rep_len: "rep h l xs \<Longrightarrow> len l = int (length xs)"
    and rep_distinct: "rep h l xs \<Longrightarrow> distinct xs"
    and push_law: "rep h l xs \<Longrightarrow> b \<notin> set xs \<Longrightarrow>
      \<exists>h' l'. push h l b = Some (h', l') \<and> rep h' l' (xs @ [b]) \<and>
        (\<forall>m ys. rep h m ys \<longrightarrow> set ys \<inter> insert b (set xs) = {} \<longrightarrow> rep h' m ys)"
    and fetch_law: "rep h l (x # xs) \<Longrightarrow>
      \<exists>h' l'. fetch h l = Some (x, h', l') \<and> rep h' l' xs \<and>
        (\<forall>m ys. rep h m ys \<longrightarrow> x \<notin> set ys \<longrightarrow> rep h' m ys)"
begin

text \<open>An array of queues in one heap, no two of which share a block.\<close>
definition rep_array :: "'h \<Rightarrow> nat \<Rightarrow> (nat \<Rightarrow> 'l) \<Rightarrow> (nat \<Rightarrow> 'a list) \<Rightarrow> bool" where
  "rep_array h n L X \<longleftrightarrow>
     (\<forall>i < n. rep h (L i) (X i)) \<and>
     (\<forall>i < n. \<forall>j < n. i \<noteq> j \<longrightarrow> set (X i) \<inter> set (X j) = {})"

lemma rep_array_len: "rep_array h n L X \<Longrightarrow> i < n \<Longrightarrow> len (L i) = int (length (X i))"
  by (auto simp: rep_array_def intro: rep_len)

lemma rep_array_new: "rep_array h n (\<lambda>_. new) (\<lambda>_. [])"
  by (simp add: rep_array_def rep_new)

lemma rep_array_push:
  assumes arr: "rep_array h n L X" and k: "k < n" and b: "\<And>i. i < n \<Longrightarrow> b \<notin> set (X i)"
  shows "\<exists>h' l'. push h (L k) b = Some (h', l') \<and>
           rep_array h' n (L(k := l')) (X(k := X k @ [b])) \<and>
           (\<forall>m ys. rep h m ys \<longrightarrow> set ys \<inter> insert b (set (X k)) = {} \<longrightarrow> rep h' m ys)"
proof -
  have "rep h (L k) (X k)" using arr k by (simp add: rep_array_def)
  from push_law [OF this b [OF k]] obtain h' l'
    where p: "push h (L k) b = Some (h', l')" and r: "rep h' l' (X k @ [b])"
      and f: "\<And>m ys. rep h m ys \<Longrightarrow> set ys \<inter> insert b (set (X k)) = {} \<Longrightarrow> rep h' m ys"
    by blast
  have "rep h' (L i) (X i)" if "i < n" "i \<noteq> k" for i
    using f [of "L i" "X i"] arr that b k by (auto simp: rep_array_def)
  then have "rep_array h' n (L(k := l')) (X(k := X k @ [b]))"
    using r arr b k by (auto simp: rep_array_def)
  with p f show ?thesis by blast
qed

lemma rep_array_fetch:
  assumes arr: "rep_array h n L X" and k: "k < n" and x: "X k = x # xs"
  shows "\<exists>h' l'. fetch h (L k) = Some (x, h', l') \<and> rep_array h' n (L(k := l')) (X(k := xs)) \<and>
           (\<forall>m ys. rep h m ys \<longrightarrow> x \<notin> set ys \<longrightarrow> rep h' m ys)"
proof -
  have "rep h (L k) (x # xs)" using arr k x by (auto simp: rep_array_def)
  from fetch_law [OF this] obtain h' l'
    where p: "fetch h (L k) = Some (x, h', l')" and r: "rep h' l' xs"
      and f: "\<And>m ys. rep h m ys \<Longrightarrow> x \<notin> set ys \<Longrightarrow> rep h' m ys"
    by blast
  have dis: "\<And>i. i < n \<Longrightarrow> i \<noteq> k \<Longrightarrow> set (X i) \<inter> set (x # xs) = {}"
    using arr k unfolding rep_array_def x [symmetric] by blast
  have "rep h' (L i) (X i)" if "i < n" "i \<noteq> k" for i
    using f [of "L i" "X i"] arr that dis [of i] by (auto simp: rep_array_def)
  then have "rep_array h' n (L(k := l')) (X(k := xs))"
    using r arr k dis by (auto simp: rep_array_def)
  with p f show ?thesis by blast
qed

end

interpretation fq: block_queue flexi_rep push_block_back fetch_head get_size FlexiList
proof (unfold_locales, goal_cases)
  case (4 h l xs b)
  then obtain nx' l' where p: "push_block_back h l b = Some (nx', l')"
    and r: "flexi_rep nx' l' (xs @ [b])"
    and same: "\<And>a. a \<notin> insert b (set xs) \<Longrightarrow> nx' a = h a"
    using push_block_back_rep by metis
  have "chain nx' p ys" if "chain h p ys" "set ys \<inter> insert b (set xs) = {}" for p ys
    using that by (induction ys arbitrary: p) (auto simp: same)
  with p r show ?case by (auto simp: flexi_rep_def)
next
  case (5 h l x xs)
  then obtain nx' l' where p: "fetch_head h l = Some (x, nx', l')"
    and r: "flexi_rep nx' l' xs" and same: "\<And>a. a \<noteq> x \<Longrightarrow> nx' a = h a"
    using fetch_head_rep by metis
  have "chain nx' p ys" if "chain h p ys" "x \<notin> set ys" for p ys
    using that by (induction ys arbitrary: p) (auto simp: same)
  with p r show ?case by (auto simp: flexi_rep_def)
qed (auto simp: flexi_rep_empty flexi_rep_size dest: flexi_rep_def [THEN iffD1])

subsection \<open>Properties\<close>

text \<open>
  C23. Inserting a block and taking the head are the queue operations: if the list header stands
  for the sequence \<open>xs\<close> and the block is not yet in it, then after \<^verbatim>\<open>push_block_back\<close> the header stands
  for \<open>xs\<close> with the block appended, \<^verbatim>\<open>get_size\<close> is one more, and \<^verbatim>\<open>fetch_head\<close> then returns
  the first element of that sequence and leaves the rest.
\<close>
theorem flexi_list_fifo:
  assumes "flexi_rep nx l xs" and "block \<notin> set xs"
  shows "\<exists>nx1 l1 nx2 l2.
           push_block_back nx l block = Some (nx1, l1) \<and>
           flexi_rep nx1 l1 (xs @ [block]) \<and> get_size l1 = get_size l + 1 \<and>
           fetch_head nx1 l1 = Some (hd (xs @ [block]), nx2, l2) \<and>
           flexi_rep nx2 l2 (tl (xs @ [block]))"
proof -
  obtain nx1 l1 where 1: "push_block_back nx l block = Some (nx1, l1)"
    and r1: "flexi_rep nx1 l1 (xs @ [block])"
    using fq.push_law [OF assms] by blast
  then have "flexi_rep nx1 l1 (hd (xs @ [block]) # tl (xs @ [block]))" by simp
  from fq.fetch_law [OF this] obtain nx2 l2
    where "fetch_head nx1 l1 = Some (hd (xs @ [block]), nx2, l2)"
      and "flexi_rep nx2 l2 (tl (xs @ [block]))" by blast
  moreover have "get_size l1 = get_size l + 1"
    using flexi_rep_size [OF assms(1)] flexi_rep_size [OF r1] by simp
  ultimately show ?thesis using 1 r1 by blast
qed

definition two_block_links :: "nat links" where
  "two_block_links = (\<lambda>_. None)(7 := Some 9)"

definition two_block_list :: "nat flexi_list" where
  "two_block_list = \<lparr>fl_head = Some 7, fl_tail = Some 9, fl_size = 2\<rparr>"

lemma two_block_rep: "flexi_rep two_block_links two_block_list [7, 9]"
  by (simp add: flexi_rep_def two_block_links_def two_block_list_def)

theorem flexi_list_fifo_witness:
  "\<exists>nx1 l1 nx2 l2.
     push_block_back two_block_links two_block_list 3 = Some (nx1, l1) \<and>
     flexi_rep nx1 l1 [7, 9, 3] \<and> get_size l1 = 3 \<and>
     fetch_head nx1 l1 = Some (7, nx2, l2) \<and> flexi_rep nx2 l2 [9, 3]"
  using flexi_list_fifo [OF two_block_rep, of 3]
  by (simp add: get_size_def two_block_list_def)

text \<open>
  \<^verbatim>\<open>fetch_block\<close> removes exactly the wanted block from the sequence, from the front, the end or
  the middle, and its search loop always ends; asked for a block that is not in the list it runs
  into the assertion.
\<close>
theorem fetch_block_removes:
  assumes "flexi_rep nx l xs"
  shows "if w \<in> set xs
         then \<exists>nx' l'. fetch_block nx l w = Some (w, nx', l') \<and> flexi_rep nx' l' (remove1 w xs)
         else fetch_block nx l w = None"
  using fetch_block_rep [OF assms] fetch_block_missing [OF assms] by simp

theorem fetch_block_removes_witness:
  "\<exists>nx' l'. fetch_block two_block_links two_block_list 9 = Some (9, nx', l') \<and>
     flexi_rep nx' l' [7]"
  using fetch_block_removes [OF two_block_rep, of 9] by simp

text \<open>
  \<^verbatim>\<open>extend_back\<close> concatenates the two sequences when the receiver has a block already.  When
  the receiver is empty it takes over the chain of the added list but not its size: the header
  then reaches every block of \<open>ys\<close> while \<^verbatim>\<open>get_size\<close> still answers zero.
\<close>
theorem extend_back_concat:
  assumes "flexi_rep nx l xs" and "flexi_rep nx m ys" and "set xs \<inter> set ys = {}"
  shows "\<exists>nx' l'. extend_back nx l m = Some (nx', l') \<and>
           (if xs = [] \<and> ys \<noteq> []
            then chain nx' (fl_head l') ys \<and> get_size l' = 0
            else flexi_rep nx' l' (xs @ ys))"
proof (cases "xs = []")
  case True
  then show ?thesis
    using assms flexi_rep_is_empty [OF assms(2)]
    by (auto simp: extend_back_def flexi_rep_def get_size_def)
next
  case False
  then show ?thesis using extend_back_rep [OF assms(1,2) False assms(3)] by simp
qed

theorem extend_back_concat_witness:
  "\<exists>nx' l'. extend_back two_block_links FlexiList two_block_list = Some (nx', l') \<and>
     chain nx' (fl_head l') [7, 9] \<and> get_size l' = 0"
  using extend_back_concat [OF flexi_rep_empty two_block_rep] by simp

end
