(* ===== verification/Memory_Zone.thy ===== *)
theory Memory_Zone
  imports Common_Functions Flexi_List "HOL-Library.Signed_Division"
begin

text \<open>
  Page descriptors, zones and the memory node: \<^verbatim>\<open>src/src/mmu/page.h\<close>, \<^verbatim>\<open>src/src/mmu/zone.h\<close>,
  \<^verbatim>\<open>src/src/mmu/zone.cpp\<close> and \<^verbatim>\<open>src/src/mmu/common_memory_ops.h\<close>.

  A node creates one descriptor per page number and hands out that pointer ever after, so a
  \<^verbatim>\<open>Page*\<close> is its page number.  The \<^verbatim>\<open>next\<close> fields of all descriptors form \<open>page_links\<close>, the
  heap of the \<^verbatim>\<open>FlexiList\<close>s; the other fields are in \<open>node_mem_map\<close>.  Fields that no
  constructor initialises keep what the memory held, the parameters \<open>raw\<close> of the model.  A
  \<^verbatim>\<open>Zone*\<close> inside a descriptor is the index of the zone in its node.  Counters that the code
  decrements without a guard are 64-bit words.
\<close>

subsection \<open>Data\<close>

record zinfo =
  numCores :: nat
  memory_size :: "64 word"
  page_size :: "64 word"
  page_shift :: nat
  percpu_pagelist_fraction :: "32 word"
  max_zone_pfns :: "nat list"
  paging_mode :: PagingStyle

record Page =
  pg_count :: nat
  pageNo :: nat
  map_count :: int
  pg_zone :: nat
  pg_node :: nat
  pg_overlap :: nat
  pg_private :: nat

definition Page :: "Page \<Rightarrow> nat \<Rightarrow> Page" where
  "Page raw page_no = raw\<lparr>pg_count := 0, pageNo := page_no, map_count := - 1, pg_overlap := 0\<rparr>"

record FreeArea =
  block_list :: "nat flexi_list"
  nr_free :: "64 word"

record PerCpuPages =
  pcp_count :: "32 word"
  pcp_low :: "32 word"
  pcp_high :: "32 word"
  pcp_batch :: "32 word"
  page_list :: "nat list"

type_synonym PerCpuPageset = "PerCpuPages \<times> PerCpuPages"

record Zone =
  free_pages :: "64 word"
  pages_min :: nat
  pages_low :: nat
  pages_high :: nat
  zone_type :: nat
  zone_start_pfn :: nat
  free_area :: "nat \<Rightarrow> FreeArea"
  page_set :: "PerCpuPageset list"

record MemoryNode =
  node_mem_map :: "nat \<rightharpoonup> Page"
  page_links :: "nat links"
  raw_page :: "nat \<Rightarrow> Page"
  zone_lowest_possible :: "nat list"
  zone_highest_possible :: "nat list"
  nr_zones :: nat
  present_pages :: nat
  node_id :: nat
  node_start_pfn :: nat
  node_page_num :: nat
  node_zones :: "Zone option list"

subsection \<open>Page descriptors\<close>

definition get_page_ptr :: "MemoryNode \<Rightarrow> nat \<Rightarrow> MemoryNode option" where
  "get_page_ptr n page_id = do {
     _ \<leftarrow> assert_that (page_id < node_page_num n);
     Some (case node_mem_map n page_id of
         Some _ \<Rightarrow> n
       | None \<Rightarrow> n\<lparr>node_mem_map := (node_mem_map n)(page_id \<mapsto> Page (raw_page n page_id) page_id),
                   page_links := (page_links n)(page_id := None)\<rparr>)
   }"

text \<open>Writing through a descriptor pointer that \<^verbatim>\<open>get_page_ptr\<close> returned.\<close>
definition page_upd :: "(Page \<Rightarrow> Page) \<Rightarrow> MemoryNode \<Rightarrow> nat \<Rightarrow> MemoryNode option" where
  "page_upd f n p =
     (case node_mem_map n p of
        None \<Rightarrow> None
      | Some pg \<Rightarrow> Some (n\<lparr>node_mem_map := (node_mem_map n)(p \<mapsto> f pg)\<rparr>))"

definition PAGE_BUDDY_MAPCOUNT_VALUE :: int where "PAGE_BUDDY_MAPCOUNT_VALUE = - 128"

definition set_page_buddy :: "MemoryNode \<Rightarrow> nat \<Rightarrow> MemoryNode option" where
  "set_page_buddy n page_id = do {
     n1 \<leftarrow> get_page_ptr n page_id;
     page_upd (map_count_update (\<lambda>_. PAGE_BUDDY_MAPCOUNT_VALUE)) n1 page_id
   }"

definition clear_page_buddy :: "MemoryNode \<Rightarrow> nat \<Rightarrow> MemoryNode option" where
  "clear_page_buddy n page_id = do {
     n1 \<leftarrow> get_page_ptr n page_id;
     page_upd (map_count_update (\<lambda>_. - 1)) n1 page_id
   }"

definition set_page_private :: "MemoryNode \<Rightarrow> nat \<Rightarrow> nat \<Rightarrow> MemoryNode option" where
  "set_page_private n page_id order = do {
     n1 \<leftarrow> get_page_ptr n page_id;
     page_upd (pg_private_update (\<lambda>_. order)) n1 page_id
   }"

definition set_page_order :: "MemoryNode \<Rightarrow> nat \<Rightarrow> nat \<Rightarrow> MemoryNode option" where
  "set_page_order n page_id order = do {
     n1 \<leftarrow> set_page_private n page_id order;
     set_page_buddy n1 page_id
   }"

subsection \<open>Per-CPU page caches\<close>

text \<open>The batch size is computed in \<^verbatim>\<open>int\<close> and \<^verbatim>\<open>unsigned\<close>; the final decrement wraps at zero.\<close>
definition zone_batchsize :: "zinfo \<Rightarrow> 64 word \<Rightarrow> 32 word" where
  "zone_batchsize zi fp =
     (let batch0 = (ucast (drop_bit 10 fp) :: 32 word);
          batch1 = (if (scast batch0 :: 64 word) * page_size zi > 512 * 1024
                    then (ucast ((512 * 1024) div page_size zi) :: 32 word)
                    else word_of_int (sint batch0 sdiv 4));
          batch2 = (if batch1 <s 1 then 1 else batch1);
          batch3 = log2_16 (ucast (batch2 + word_of_int (sint batch2 sdiv 2)))
      in of_nat batch3 - 1)"

definition zone_pageset_init :: "zinfo \<Rightarrow> 64 word \<Rightarrow> PerCpuPageset \<Rightarrow> PerCpuPageset" where
  "zone_pageset_init zi fp ps =
     (let hot = (fst ps)\<lparr>pcp_count := 0, page_list := []\<rparr>;
          cold = (snd ps)\<lparr>pcp_count := 0, page_list := []\<rparr>
      in if percpu_pagelist_fraction zi \<noteq> 0 then
           (let high = (ucast (fp div scast (percpu_pagelist_fraction zi)) :: 32 word);
                batch0 = Max_c 1 (high div 4);
                batch = (if unat (high div 4) > page_shift zi * 8
                         then of_nat (page_shift zi * 8) else batch0)
            in (hot\<lparr>pcp_batch := batch, pcp_high := high\<rparr>,
                cold\<lparr>pcp_batch := batch, pcp_high := 2 * batch\<rparr>))
         else
           (let batch0 = zone_batchsize zi fp;
                high = 6 * batch0;
                batch = Max_c 1 batch0
            in (hot\<lparr>pcp_batch := batch, pcp_high := high\<rparr>,
                cold\<lparr>pcp_batch := Max_c 1 (batch div 2), pcp_high := 2 * batch\<rparr>)))"

definition setup_zone_pageset :: "zinfo \<Rightarrow> PerCpuPageset \<Rightarrow> Zone \<Rightarrow> Zone" where
  "setup_zone_pageset zi raw z =
     z\<lparr>page_set := page_set z @
         map (\<lambda>_. zone_pageset_init zi (free_pages z) raw) [0..<numCores zi]\<rparr>"

subsection \<open>Zones\<close>

definition Zone :: "zinfo \<Rightarrow> PerCpuPageset \<Rightarrow> Zone \<Rightarrow> nat \<Rightarrow> nat \<Rightarrow> nat \<Rightarrow> Zone option" where
  "Zone zi raw_ps raw ty start_pfn end_pfn = do {
     _ \<leftarrow> assert_that (start_pfn < end_pfn);
     Some (setup_zone_pageset zi raw_ps
       (raw\<lparr>zone_type := ty, zone_start_pfn := start_pfn,
            free_pages := of_nat (end_pfn - start_pfn), page_set := []\<rparr>))
   }"

text \<open>With the default rates the thresholds are five quarters and three halves of the minimum.\<close>
definition set_pages_thres :: "Zone \<Rightarrow> nat \<Rightarrow> Zone" where
  "set_pages_thres z mn =
     z\<lparr>pages_min := mn, pages_low := 5 * mn div 4, pages_high := 3 * mn div 2\<rparr>"

text \<open>The inner loop: \<open>j\<close> more blocks of order \<open>i\<close>, from page \<open>page_index\<close> on.\<close>
primrec init_blocks ::
  "nat \<Rightarrow> nat \<Rightarrow> nat flexi_list \<Rightarrow> MemoryNode \<Rightarrow> nat \<Rightarrow> (nat flexi_list \<times> MemoryNode \<times> nat) option" where
  "init_blocks 0 i bl n page_index = Some (bl, n, page_index)"
| "init_blocks (Suc j) i bl n page_index = do {
     n1 \<leftarrow> get_page_ptr n page_index;
     (lk, bl1) \<leftarrow> push_block_back (page_links n1) bl page_index;
     init_blocks j i bl1 (n1\<lparr>page_links := lk\<rparr>) (page_index + 2 ^ i)
   }"

text \<open>The outer loop runs from \<^const>\<open>MAXORDER\<close> down to order one, while pages are left.\<close>
primrec init_orders :: "nat \<Rightarrow> Zone \<Rightarrow> MemoryNode \<Rightarrow> nat \<Rightarrow> nat \<Rightarrow> (Zone \<times> MemoryNode) option" where
  "init_orders 0 z n page_index page_number = Some (z, n)"
| "init_orders (Suc i) z n page_index page_number =
     (if page_number = 0 then Some (z, n)
      else
        let max_block_num = page_number div 2 ^ Suc i in
        if max_block_num > 0 then do {
          (bl, n1, page_index1) \<leftarrow>
            init_blocks max_block_num (Suc i) (block_list (free_area z (Suc i))) n page_index;
          init_orders i
            (z\<lparr>free_area := (free_area z)(Suc i := \<lparr>block_list = bl, nr_free = of_nat max_block_num\<rparr>)\<rparr>)
            n1 page_index1 (page_number - max_block_num * 2 ^ Suc i)
        }
        else init_orders i z n page_index page_number)"

definition free_area_init_zone :: "Zone \<Rightarrow> MemoryNode \<Rightarrow> (Zone \<times> MemoryNode) option" where
  "free_area_init_zone z n =
     init_orders MAXORDER
       (z\<lparr>free_area := (\<lambda>_. \<lparr>block_list = FlexiList, nr_free = 0\<rparr>)\<rparr>)
       n (zone_start_pfn z) (unat (free_pages z))"

subsection \<open>The memory node\<close>

text \<open>Bounds of the zones: each zone starts where the one before it ends.\<close>
fun zone_bounds :: "nat \<Rightarrow> nat list \<Rightarrow> (nat \<times> nat) list" where
  "zone_bounds low [] = []"
| "zone_bounds low (pfn # pfns) = (low, Max_c pfn low) # zone_bounds (Max_c pfn low) pfns"

definition node_bounds :: "zinfo \<Rightarrow> nat \<Rightarrow> (nat \<times> nat) list" where
  "node_bounds zi start_pfn =
     (case max_zone_pfns zi of
        [] \<Rightarrow> []
      | dma # pfns \<Rightarrow> (start_pfn, dma) # zone_bounds dma pfns)"

definition calculate_total_pages :: "(nat \<times> nat) list \<Rightarrow> nat option" where
  "calculate_total_pages bs =
     (if \<forall>(lo, hi) \<in> set bs. lo \<le> hi then Some (sum_list (map (\<lambda>(lo, hi). hi - lo) bs)) else None)"

primrec init_zones ::
  "zinfo \<Rightarrow> PerCpuPageset \<Rightarrow> Zone \<Rightarrow> (nat \<times> nat) list \<Rightarrow> nat \<Rightarrow> MemoryNode \<Rightarrow> MemoryNode option" where
  "init_zones zi raw_ps raw [] i n = Some n"
| "init_zones zi raw_ps raw (b # bs) i n =
     (case b of (lo, hi) \<Rightarrow>
        if hi \<noteq> lo then do {
          z \<leftarrow> Zone zi raw_ps raw i lo hi;
          (z1, n1) \<leftarrow> free_area_init_zone z n;
          init_zones zi raw_ps raw bs (Suc i)
            (n1\<lparr>node_zones := node_zones n1 @ [Some z1], nr_zones := nr_zones n1 + 1\<rparr>)
        }
        else init_zones zi raw_ps raw bs (Suc i) (n\<lparr>node_zones := node_zones n @ [None]\<rparr>))"

text \<open>
  The constructor up to the watermarks, which are computed in floating point and not modelled.
\<close>
definition MemoryNode ::
  "zinfo \<Rightarrow> PerCpuPageset \<Rightarrow> Zone \<Rightarrow> MemoryNode \<Rightarrow> nat \<Rightarrow> 64 word \<Rightarrow> MemoryNode option" where
  "MemoryNode zi raw_ps raw_z raw_n nid start_addr = do {
     let start_pfn = unat (drop_bit (page_shift zi) start_addr);
     let bs = node_bounds zi start_pfn;
     total \<leftarrow> calculate_total_pages bs;
     init_zones zi raw_ps raw_z bs 0
       (raw_n\<lparr>node_id := nid, node_start_pfn := start_pfn,
              node_mem_map := Map.empty,
              zone_lowest_possible := map fst bs, zone_highest_possible := map snd bs,
              node_page_num := total, present_pages := total, node_zones := []\<rparr>)
   }"

subsection \<open>The pages a set of free lists stands for\<close>

text \<open>
  \<open>X k\<close> is the sequence of first pages of the blocks of order \<open>k\<close>.  The pages of all blocks are
  collected in a multiset, so that a page in two blocks shows as a count above one.
\<close>
definition blk :: "nat \<Rightarrow> nat \<Rightarrow> nat multiset" where
  "blk p k = mset [p..<p + 2 ^ k]"

definition row :: "nat \<Rightarrow> nat list \<Rightarrow> nat multiset" where
  "row k ps = sum_list (map (\<lambda>p. blk p k) ps)"

definition free_ms :: "(nat \<Rightarrow> nat list) \<Rightarrow> nat multiset" where
  "free_ms X = (\<Sum>k \<le> MAXORDER. row k (X k))"

lemma set_blk [simp]: "set_mset (blk p k) = {p..<p + 2 ^ k}"
  by (simp add: blk_def)

lemma count_blk: "count (blk p k) q = (if p \<le> q \<and> q < p + 2 ^ k then 1 else 0)"
  by (simp add: blk_def count_mset_0_iff distinct_count_atmost_1)

lemma row_simps [simp]:
  "row k [] = {#}" "row k (p # ps) = blk p k + row k ps"
  "row k (ps @ qs) = row k ps + row k qs"
  by (simp_all add: row_def)

lemma mem_row: "q \<in># row k ps \<longleftrightarrow> (\<exists>p \<in> set ps. p \<le> q \<and> q < p + 2 ^ k)"
  by (induction ps) auto

lemma mem_free_ms:
  "q \<in># free_ms X \<longleftrightarrow> (\<exists>k \<le> MAXORDER. \<exists>p \<in> set (X k). p \<le> q \<and> q < p + 2 ^ k)"
  by (auto simp: free_ms_def set_mset_sum mem_row)

lemma free_ms_upd:
  assumes "k \<le> MAXORDER"
  shows "free_ms (X(k := ys)) + row k (X k) = free_ms X + row k ys"
proof -
  have fin: "finite {..MAXORDER}" and k: "k \<in> {..MAXORDER}" using assms by auto
  have "(\<Sum>j \<in> {..MAXORDER} - {k}. row j ((X(k := ys)) j)) =
        (\<Sum>j \<in> {..MAXORDER} - {k}. row j (X j))"
    by (rule sum.cong) auto
  with sum.remove [OF fin k, of "\<lambda>j. row j ((X(k := ys)) j)"] sum.remove [OF fin k, of "\<lambda>j. row j (X j)"]
  show ?thesis unfolding free_ms_def by (simp add: ac_simps)
qed

lemma free_ms_push: "k \<le> MAXORDER \<Longrightarrow> free_ms (X(k := X k @ [p])) = free_ms X + blk p k"
  using free_ms_upd [of k X "X k @ [p]"] by (simp add: ac_simps)

lemma free_ms_pop:
  "k \<le> MAXORDER \<Longrightarrow> X k = p # ps \<Longrightarrow> free_ms X = free_ms (X(k := ps)) + blk p k"
  using free_ms_upd [of k X ps] by (simp add: ac_simps)

lemma head_in_free_ms: "k \<le> MAXORDER \<Longrightarrow> p \<in> set (X k) \<Longrightarrow> p \<in># free_ms X"
  by (force simp: mem_free_ms)

lemma free_ms_empty: "(\<And>k. k \<le> MAXORDER \<Longrightarrow> X k = []) \<Longrightarrow> free_ms X = {#}"
  by (simp add: free_ms_def)

subsection \<open>The invariant of the free lists of a zone\<close>

definition lists_rep :: "(nat \<Rightarrow> nat flexi_list) \<Rightarrow> MemoryNode \<Rightarrow> (nat \<Rightarrow> nat list) \<Rightarrow> bool" where
  "lists_rep L n X \<longleftrightarrow>
     fq.rep_array (page_links n) (Suc MAXORDER) L X \<and>
     (\<forall>k \<le> MAXORDER. \<forall>p \<in> set (X k). p \<in> dom (node_mem_map n) \<and> p + 2 ^ k \<le> node_page_num n) \<and>
     (\<forall>q. count (free_ms X) q \<le> 1) \<and>
     node_page_num n < 2 ^ 64"

abbreviation zone_lists :: "Zone \<Rightarrow> nat \<Rightarrow> nat flexi_list" where
  "zone_lists z \<equiv> \<lambda>k. block_list (free_area z k)"

definition zone_rep :: "Zone \<Rightarrow> MemoryNode \<Rightarrow> (nat \<Rightarrow> nat list) \<Rightarrow> bool" where
  "zone_rep z n X \<longleftrightarrow>
     lists_rep (zone_lists z) n X \<and>
     (\<forall>k \<le> MAXORDER. unat (nr_free (free_area z k)) = length (X k))"

lemma rep_array_frame:
  assumes "fq.rep_array nx m L X" and "\<And>i. i < m \<Longrightarrow> a \<notin> set (X i)"
  shows "fq.rep_array (nx(a := v)) m L X"
  using assms by (auto simp: fq.rep_array_def intro: flexi_rep_frame)

lemma get_page_ptr_ok:
  assumes "p < node_page_num n"
  shows "\<exists>n'. get_page_ptr n p = Some n' \<and> p \<in> dom (node_mem_map n') \<and>
           dom (node_mem_map n) \<subseteq> dom (node_mem_map n') \<and>
           node_page_num n' = node_page_num n \<and> node_zones n' = node_zones n"
  using assms by (auto simp: get_page_ptr_def split: option.splits)

lemma get_page_ptr_dom [simp]:
  "p \<in> dom (node_mem_map n) \<Longrightarrow> p < node_page_num n \<Longrightarrow> get_page_ptr n p = Some n"
  by (auto simp: get_page_ptr_def)

lemma lists_rep_get_page_ptr:
  assumes "lists_rep L n X" and "get_page_ptr n p = Some n'"
  shows "lists_rep L n' X"
proof (cases "node_mem_map n p")
  case None
  then have "\<And>k. k < Suc MAXORDER \<Longrightarrow> p \<notin> set (X k)"
    using assms(1) by (fastforce simp: lists_rep_def less_Suc_eq_le)
  then have "fq.rep_array ((page_links n)(p := None)) (Suc MAXORDER) L X"
    using assms(1) unfolding lists_rep_def by (blast intro: rep_array_frame)
  moreover have "page_links n' = (page_links n)(p := None)"
    and "dom (node_mem_map n') = insert p (dom (node_mem_map n))"
    and "node_page_num n' = node_page_num n"
    using None assms(2) by (auto simp: get_page_ptr_def)
  ultimately show ?thesis using assms(1) unfolding lists_rep_def by simp
next
  case (Some pg)
  with assms show ?thesis by (auto simp: get_page_ptr_def)
qed

text \<open>
  A step of the node that disturbs only lists with a page in \<open>S\<close>: the lists of any other zone
  stand for the same sequences afterwards.
\<close>
definition only_touches :: "nat set \<Rightarrow> MemoryNode \<Rightarrow> MemoryNode \<Rightarrow> bool" where
  "only_touches S n n' \<longleftrightarrow>
     (\<forall>L Y. lists_rep L n Y \<longrightarrow> set_mset (free_ms Y) \<inter> S = {} \<longrightarrow> lists_rep L n' Y)"

lemma only_touches_refl: "only_touches S n n"
  by (simp add: only_touches_def)

lemma only_touches_trans:
  "only_touches S n n1 \<Longrightarrow> only_touches T n1 n2 \<Longrightarrow> S \<subseteq> U \<Longrightarrow> T \<subseteq> U \<Longrightarrow> only_touches U n n2"
  unfolding only_touches_def by (meson disjoint_iff subsetD)

lemma only_touches_links:
  assumes "\<And>l ys. flexi_rep (page_links n) l ys \<Longrightarrow> set ys \<inter> S = {} \<Longrightarrow> flexi_rep lk l ys"
  shows "only_touches S n (n\<lparr>page_links := lk\<rparr>)"
proof -
  have "fq.rep_array lk (Suc MAXORDER) L Y"
    if "fq.rep_array (page_links n) (Suc MAXORDER) L Y" "set_mset (free_ms Y) \<inter> S = {}" for L Y
    using that head_in_free_ms assms unfolding fq.rep_array_def by (meson disjoint_iff less_Suc_eq_le)
  then show ?thesis by (simp add: only_touches_def lists_rep_def)
qed

text \<open>Putting a block of pages that are in no list on the list of its order.\<close>
lemma lists_rep_push:
  assumes rep: "lists_rep L n X" and k: "k \<le> MAXORDER"
    and bound: "p + 2 ^ k \<le> node_page_num n"
    and new: "set_mset (free_ms X) \<inter> {p..<p + 2 ^ k} = {}"
  shows "\<exists>n1 lk bl.
           get_page_ptr n p = Some n1 \<and>
           push_block_back (page_links n1) (L k) p = Some (lk, bl) \<and>
           lists_rep (L(k := bl)) (n1\<lparr>page_links := lk\<rparr>) (X(k := X k @ [p])) \<and>
           p \<in> dom (node_mem_map n1) \<and> node_page_num n1 = node_page_num n \<and>
           node_zones n1 = node_zones n \<and>
           only_touches (set_mset (free_ms X) \<union> {p..<p + 2 ^ k}) n (n1\<lparr>page_links := lk\<rparr>)"
proof -
  have "p < node_page_num n" 
    using bound by (rule less_le_trans [rotated]) simp
  from get_page_ptr_ok [OF this] obtain n1
    where n1: "get_page_ptr n p = Some n1" "p \<in> dom (node_mem_map n1)"
      "node_page_num n1 = node_page_num n" "node_zones n1 = node_zones n" by blast
  have rep1: "lists_rep L n1 X" by (rule lists_rep_get_page_ptr [OF rep n1(1)])
  have "p \<notin> set (X i)" if "i < Suc MAXORDER" for i
    using new head_in_free_ms [of i p X] that by (auto simp: less_Suc_eq_le)
  then obtain lk bl where push: "push_block_back (page_links n1) (L k) p = Some (lk, bl)"
    and arr: "fq.rep_array lk (Suc MAXORDER) (L(k := bl)) (X(k := X k @ [p]))"
    and frame: "\<And>m ys. flexi_rep (page_links n1) m ys \<Longrightarrow> set ys \<inter> insert p (set (X k)) = {} \<Longrightarrow>
      flexi_rep lk m ys"
    using fq.rep_array_push [of "page_links n1" "Suc MAXORDER" L X k p] rep1 k
    by (auto simp: lists_rep_def less_Suc_eq_le)
  have "count (free_ms X + blk p k) q \<le> 1" for q
    using rep new by (cases "q \<in># free_ms X") (auto simp: lists_rep_def count_blk not_in_iff)
  then have "lists_rep (L(k := bl)) (n1\<lparr>page_links := lk\<rparr>) (X(k := X k @ [p]))"
    using rep1 arr bound n1 k by (auto simp: lists_rep_def free_ms_push)
  moreover have "only_touches (set_mset (free_ms X) \<union> {p..<p + 2 ^ k}) n1 (n1\<lparr>page_links := lk\<rparr>)"
    by (rule only_touches_links, rule frame) (use head_in_free_ms [OF k] in \<open>auto simp: disjoint_iff\<close>)
  then have "only_touches (set_mset (free_ms X) \<union> {p..<p + 2 ^ k}) n (n1\<lparr>page_links := lk\<rparr>)"
    using lists_rep_get_page_ptr [OF _ n1(1)] unfolding only_touches_def by blast
  ultimately show ?thesis using push n1 by blast
qed

subsection \<open>Initial free lists\<close>

lemma mset_upt_append: "a \<le> b \<Longrightarrow> b \<le> c \<Longrightarrow> mset [a..<b] + mset [b..<c] = mset [a..<c]"
  by (metis mset_append upt_add_eq_append le_add_diff_inverse)

lemma init_blocks_ok:
  assumes "lists_rep L n X" and "k \<le> MAXORDER" and "idx + j * 2 ^ k \<le> node_page_num n"
    and "\<And>q. q \<in># free_ms X \<Longrightarrow> q < idx"
  shows "\<exists>bl n' X'.
           init_blocks j k (L k) n idx = Some (bl, n', idx + j * 2 ^ k) \<and>
           lists_rep (L(k := bl)) n' X' \<and>
           free_ms X' = free_ms X + mset [idx..<idx + j * 2 ^ k] \<and>
           (\<forall>i. i \<noteq> k \<longrightarrow> X' i = X i) \<and> length (X' k) = length (X k) + j \<and>
           node_page_num n' = node_page_num n \<and> node_zones n' = node_zones n \<and>
           only_touches (set_mset (free_ms X) \<union> {idx..<idx + j * 2 ^ k}) n n'"
  using assms
proof (induction j arbitrary: L n X idx)
  case 0
  then show ?case
    by (intro exI [of _ "L k"] exI [of _ n] exI [of _ X])
      (simp add: only_touches_refl del: fun_upd_apply)
next
  case (Suc j)
  have "set_mset (free_ms X) \<inter> {idx..<idx + 2 ^ k} = {}"
    using Suc.prems(4) by fastforce
  with Suc.prems obtain n1 lk bl
    where n1: "get_page_ptr n idx = Some n1" "node_page_num n1 = node_page_num n"
        "node_zones n1 = node_zones n"
      and push: "push_block_back (page_links n1) (L k) idx = Some (lk, bl)"
      and rep: "lists_rep (L(k := bl)) (n1\<lparr>page_links := lk\<rparr>) (X(k := X k @ [idx]))"
      and t1: "only_touches (set_mset (free_ms X) \<union> {idx..<idx + 2 ^ k}) n (n1\<lparr>page_links := lk\<rparr>)"
    using lists_rep_push [of L n X k idx] by auto
  have ms: "free_ms (X(k := X k @ [idx])) = free_ms X + blk idx k"
    using Suc.prems(2) by (rule free_ms_push)
  have small: "q < idx + 2 ^ k" if "q \<in># free_ms (X(k := X k @ [idx]))" for q
    using that Suc.prems(4) [of q] by (auto simp: ms)
  have room: "idx + 2 ^ k + j * 2 ^ k \<le> node_page_num (n1\<lparr>page_links := lk\<rparr>)"
    using Suc.prems(3) n1 by simp
  from Suc.IH [OF rep Suc.prems(2) room small] obtain bl' n' X'
    where rec: "init_blocks j k bl (n1\<lparr>page_links := lk\<rparr>) (idx + 2 ^ k) =
        Some (bl', n', idx + 2 ^ k + j * 2 ^ k)"
      and r: "lists_rep (L(k := bl')) n' X'"
      and f: "free_ms X' = free_ms X + blk idx k + mset [idx + 2 ^ k..<idx + 2 ^ k + j * 2 ^ k]"
      and o: "\<And>i. i \<noteq> k \<Longrightarrow> X' i = X i" "length (X' k) = Suc (length (X k)) + j"
      and m: "node_page_num n' = node_page_num n" "node_zones n' = node_zones n"
      and t2: "only_touches (set_mset (free_ms X) \<union> {idx..<idx + 2 ^ k} \<union>
          {idx + 2 ^ k..<idx + 2 ^ k + j * 2 ^ k}) (n1\<lparr>page_links := lk\<rparr>) n'"
    by (auto simp: ms n1 fun_upd_same fun_upd_other simp del: fun_upd_apply)
  have "free_ms X' = free_ms X + mset [idx..<idx + Suc j * 2 ^ k]"
    using mset_upt_append [of idx "idx + 2 ^ k" "idx + 2 ^ k + j * 2 ^ k"]
    by (simp add: f blk_def ac_simps)
  moreover have "only_touches (set_mset (free_ms X) \<union> {idx..<idx + Suc j * 2 ^ k}) n n'"
    by (rule only_touches_trans [OF t1 t2]) auto
  ultimately show ?case
    using rec r o m push n1(1)
    by (intro exI [of _ bl'] exI [of _ n'] exI [of _ X'])
      (simp add: ac_simps del: fun_upd_apply)
qed

text \<open>
  The loop over the orders takes all pages but an odd one: order zero is never filled.
\<close>
lemma init_orders_ok:
  assumes "zone_rep z n X" and "i \<le> MAXORDER" and "0 < i \<or> num < 2"
    and "idx + num \<le> node_page_num n" and "\<And>q. q \<in># free_ms X \<Longrightarrow> q < idx"
    and "\<And>k. 1 \<le> k \<Longrightarrow> k \<le> i \<Longrightarrow> X k = []"
  shows "\<exists>z' n' X'. init_orders i z n idx num = Some (z', n') \<and> zone_rep z' n' X' \<and>
           free_ms X' = free_ms X + mset [idx..<idx + (num - num mod 2)] \<and>
           free_pages z' = free_pages z \<and> zone_start_pfn z' = zone_start_pfn z \<and>
           node_page_num n' = node_page_num n \<and> node_zones n' = node_zones n \<and>
           only_touches (set_mset (free_ms X) \<union> {idx..<idx + num}) n n'"
  using assms
proof (induction i arbitrary: z n X idx num)
  case 0
  then have "num - num mod 2 = 0" by auto
  with 0 show ?case by (auto simp: only_touches_refl)
next
  case (Suc i)
  let ?m = "num div 2 ^ Suc i"
  consider "num = 0" | "0 < num" "?m = 0" | "0 < ?m" by (cases "num = 0"; cases "?m = 0") auto
  then show ?case
  proof cases
    case 1
    with Suc.prems show ?thesis by (auto simp: only_touches_refl)
  next
    case 2
    then have "num < 2 ^ Suc i" by (simp add: div_eq_0_iff)
    then have "0 < i \<or> num < 2" by (cases i) auto
    with 2 Suc.IH [OF Suc.prems(1) _ this] Suc.prems show ?thesis by (simp add: Let_def)
  next
    case 3
    let ?r = "num - ?m * 2 ^ Suc i"
    have r: "?r = num mod 2 ^ Suc i" by (simp add: minus_div_mult_eq_mod)
    have le: "?m * 2 ^ Suc i \<le> num" by simp
    have lrep: "lists_rep (zone_lists z) n X" using Suc.prems(1) by (simp add: zone_rep_def)
    have room: "idx + ?m * 2 ^ Suc i \<le> node_page_num n" using Suc.prems(4) le by linarith
    from init_blocks_ok [OF lrep Suc.prems(2) room Suc.prems(5)] obtain bl n1 X1
      where blocks: "init_blocks ?m (Suc i) (zone_lists z (Suc i)) n idx =
          Some (bl, n1, idx + ?m * 2 ^ Suc i)"
        and rep1: "lists_rep ((zone_lists z)(Suc i := bl)) n1 X1"
        and f1: "free_ms X1 = free_ms X + mset [idx..<idx + ?m * 2 ^ Suc i]"
        and o1: "\<And>k. k \<noteq> Suc i \<Longrightarrow> X1 k = X k" and l1: "length (X1 (Suc i)) = ?m"
        and m1: "node_page_num n1 = node_page_num n" "node_zones n1 = node_zones n"
        and t1: "only_touches (set_mset (free_ms X) \<union> {idx..<idx + ?m * 2 ^ Suc i}) n n1"
      using Suc.prems(6) [of "Suc i"] by auto
    let ?z = "z\<lparr>free_area := (free_area z)(Suc i := \<lparr>block_list = bl, nr_free = of_nat ?m\<rparr>)\<rparr>"
    have "zone_lists ?z = (zone_lists z)(Suc i := bl)" by auto
    moreover have "?m < 2 ^ 64"
      using room Suc.prems(4) lrep le by (auto simp: lists_rep_def intro: le_less_trans [OF div_le_dividend])
    ultimately have "zone_rep ?z n1 X1"
      using Suc.prems(1) rep1 o1 l1 by (auto simp: zone_rep_def unat_of_nat take_bit_nat_eq_self)
    moreover have "0 < i \<or> ?r < 2" unfolding r by (cases i) auto
    moreover have "idx + ?m * 2 ^ Suc i + ?r \<le> node_page_num n1"
      using Suc.prems(4) le m1 by linarith
    moreover have "q < idx + ?m * 2 ^ Suc i" if "q \<in># free_ms X1" for q
      using that Suc.prems(5) [of q] by (auto simp: f1 simp del: power_Suc)
    ultimately obtain z' n' X'
      where rec: "init_orders i ?z n1 (idx + ?m * 2 ^ Suc i) ?r = Some (z', n')"
        and rep': "zone_rep z' n' X'"
        and f': "free_ms X' = free_ms X1 +
            mset [idx + ?m * 2 ^ Suc i..<idx + ?m * 2 ^ Suc i + (?r - ?r mod 2)]"
        and m': "free_pages z' = free_pages z" "zone_start_pfn z' = zone_start_pfn z"
            "node_page_num n' = node_page_num n" "node_zones n' = node_zones n"
        and t2: "only_touches (set_mset (free_ms X1) \<union>
            {idx + ?m * 2 ^ Suc i..<idx + ?m * 2 ^ Suc i + ?r}) n1 n'"
      using Suc.IH [of ?z n1 X1 ?r "idx + ?m * 2 ^ Suc i"] Suc.prems(2,6) o1 m1 by auto
    have "?r mod 2 = num mod 2" unfolding r by (simp add: mod_mod_cancel)
    moreover have "?r mod 2 \<le> ?r" by simp
    ultimately have "?m * 2 ^ Suc i + (?r - ?r mod 2) = num - num mod 2"
      using le by linarith
    then have "free_ms X' = free_ms X + mset [idx..<idx + (num - num mod 2)]"
      using f1 f' mset_upt_append [of idx "idx + ?m * 2 ^ Suc i" "idx + (num - num mod 2)"]
      by (simp add: add.assoc)
    moreover have "only_touches (set_mset (free_ms X) \<union> {idx..<idx + num}) n n'"
    proof (rule only_touches_trans [OF t1 t2])
      have sub: "{idx..<idx + ?m * 2 ^ Suc i} \<subseteq> {idx..<idx + num}"
        using le by (intro ivl_subset [THEN iffD2] disjI2 conjI) linarith+
      then show "set_mset (free_ms X) \<union> {idx..<idx + ?m * 2 ^ Suc i} \<subseteq>
          set_mset (free_ms X) \<union> {idx..<idx + num}" by blast
      have "{idx + ?m * 2 ^ Suc i..<idx + ?m * 2 ^ Suc i + ?r} \<subseteq> {idx..<idx + num}"
        using le by (intro ivl_subset [THEN iffD2] disjI2 conjI) linarith+
      with sub show "set_mset (free_ms X1) \<union> {idx + ?m * 2 ^ Suc i..<idx + ?m * 2 ^ Suc i + ?r} \<subseteq>
          set_mset (free_ms X) \<union> {idx..<idx + num}"
        by (auto simp only: f1 set_mset_union set_mset_mset set_upt Un_iff subset_iff)
    qed
    ultimately show ?thesis using 3 blocks rec rep' m' by (auto simp: Let_def)
  qed
qed

lemma zone_rep_new:
  assumes "node_page_num n < 2 ^ 64"
  shows "zone_rep (z\<lparr>free_area := (\<lambda>_. \<lparr>block_list = FlexiList, nr_free = 0\<rparr>)\<rparr>) n (\<lambda>_. [])"
  using assms fq.rep_array_new [of "page_links n" "Suc MAXORDER"]
  by (simp add: zone_rep_def lists_rep_def free_ms_empty)

lemma free_area_init_ok:
  assumes "zone_start_pfn z + unat (free_pages z) \<le> node_page_num n" and "node_page_num n < 2 ^ 64"
  shows "\<exists>z' n' X. free_area_init_zone z n = Some (z', n') \<and> zone_rep z' n' X \<and>
           free_ms X = mset [zone_start_pfn z..<zone_start_pfn z +
             (unat (free_pages z) - unat (free_pages z) mod 2)] \<and>
           free_pages z' = free_pages z \<and> node_page_num n' = node_page_num n \<and>
           node_zones n' = node_zones n \<and>
           only_touches {zone_start_pfn z..<zone_start_pfn z + unat (free_pages z)} n n'"
  using init_orders_ok [OF zone_rep_new [OF assms(2), of z], of MAXORDER
      "unat (free_pages z)" "zone_start_pfn z"] assms(1)
  by (auto simp: free_area_init_zone_def free_ms_empty MAXORDER_def)

subsection \<open>The zones of a node\<close>

fun bounds_from :: "nat \<Rightarrow> (nat \<times> nat) list \<Rightarrow> bool" where
  "bounds_from l [] \<longleftrightarrow> True"
| "bounds_from l ((lo, hi) # bs) \<longleftrightarrow> l = lo \<and> lo \<le> hi \<and> bounds_from hi bs"

lemma bounds_from_zone_bounds: "bounds_from l (zone_bounds l pfns)"
  by (induction pfns arbitrary: l) (simp_all add: Max_c_def)

fun bounds_end :: "nat \<Rightarrow> (nat \<times> nat) list \<Rightarrow> nat" where
  "bounds_end l [] = l"
| "bounds_end l ((lo, hi) # bs) = bounds_end hi bs"

lemma bounds_from_le:
  "bounds_from l bs \<Longrightarrow>
     l \<le> bounds_end l bs \<and> (\<forall>(lo, hi) \<in> set bs. l \<le> lo \<and> lo \<le> hi \<and> hi \<le> bounds_end l bs)"
  by (induction l bs rule: bounds_from.induct) fastforce+

lemma bounds_from_total:
  assumes "bounds_from l bs"
  shows "calculate_total_pages bs = Some (bounds_end l bs - l)"
proof -
  have "sum_list (map (\<lambda>(lo, hi). hi - lo) bs) = bounds_end l bs - l"
    using assms
  proof (induction l bs rule: bounds_from.induct)
    case (2 l lo hi bs)
    then show ?case using bounds_from_le [of hi bs] by simp
  qed simp
  then show ?thesis
    using bounds_from_le [OF assms] by (auto simp: calculate_total_pages_def)
qed

text \<open>
  The free lists of all zones of a node.  \<open>Xs ! i\<close> are the sequences of zone \<open>i\<close>; they cover the
  even part of the zone's bounds and an absent zone has none.
\<close>
definition zone_covers :: "MemoryNode \<Rightarrow> (nat \<times> nat) \<times> Zone option \<times> (nat \<Rightarrow> nat list) \<Rightarrow> bool" where
  "zone_covers n bzX =
     (case bzX of ((lo, hi), zo, X) \<Rightarrow>
        (case zo of
           None \<Rightarrow> lo = hi
         | Some z \<Rightarrow> lo < hi \<and> zone_rep z n X \<and> free_pages z = of_nat (hi - lo) \<and>
             free_ms X = mset [lo..<lo + ((hi - lo) - (hi - lo) mod 2)]))"

lemma zone_covers_frame:
  assumes "zone_covers n ((lo, hi), zo, X)" and "only_touches {b..<c} n n'" and "hi \<le> b"
  shows "zone_covers n' ((lo, hi), zo, X)"
proof -
  have "set_mset (free_ms X) \<inter> {b..<c} = {}" if "zo = Some z" for z
    using assms(1,3) that by (auto simp: zone_covers_def)
  then show ?thesis
    using assms(1,2) unfolding zone_covers_def only_touches_def zone_rep_def
    by (auto split: option.splits)
qed

lemma lists_rep_bookkeeping [simp]:
  "lists_rep L (n\<lparr>node_zones := zs\<rparr>) X \<longleftrightarrow> lists_rep L n X"
  "lists_rep L (n\<lparr>nr_zones := m\<rparr>) X \<longleftrightarrow> lists_rep L n X"
  by (simp_all add: lists_rep_def)

lemma zone_rep_bookkeeping [simp]:
  "zone_rep z (n\<lparr>node_zones := zs\<rparr>) X \<longleftrightarrow> zone_rep z n X"
  "zone_rep z (n\<lparr>nr_zones := m\<rparr>) X \<longleftrightarrow> zone_rep z n X"
  by (simp_all add: zone_rep_def)

lemma zone_covers_bookkeeping [simp]:
  "zone_covers (n\<lparr>node_zones := zs\<rparr>) c \<longleftrightarrow> zone_covers n c"
  "zone_covers (n\<lparr>nr_zones := m\<rparr>) c \<longleftrightarrow> zone_covers n c"
  by (simp_all add: zone_covers_def cong: option.case_cong)

lemma Zone_ok:
  assumes "lo < hi" and "hi < 2 ^ 64"
  obtains z where "Zone zi raw_ps raw i lo hi = Some z" and "zone_start_pfn z = lo"
    and "unat (free_pages z) = hi - lo" and "free_pages z = of_nat (hi - lo)"
proof -
  have "unat (of_nat (hi - lo) :: 64 word) = hi - lo"
    using assms by (simp add: unat_of_nat take_bit_nat_eq_self del: of_nat_diff)
  then show thesis
    using assms by (intro that) (auto simp: Zone_def setup_zone_pageset_def simp del: of_nat_diff)
qed

text \<open>Setting up one zone after the others.\<close>
lemma init_zone_ok:
  assumes "l < hi" and "hi \<le> node_page_num n" and "node_page_num n < 2 ^ 64"
  obtains z z1 n1 X where "Zone zi raw_ps raw i l hi = Some z"
    and "free_area_init_zone z n = Some (z1, n1)" and "zone_covers n1 ((l, hi), Some z1, X)"
    and "node_page_num n1 = node_page_num n" and "node_zones n1 = node_zones n"
    and "\<And>c. zone_covers n c \<Longrightarrow> snd (fst c) \<le> l \<Longrightarrow> zone_covers n1 c"
proof -
  obtain z where z: "Zone zi raw_ps raw i l hi = Some z" "zone_start_pfn z = l"
    "unat (free_pages z) = hi - l" "free_pages z = of_nat (hi - l)"
    using Zone_ok [OF assms(1) le_less_trans [OF assms(2,3)]] by metis
  from free_area_init_ok [of z n] assms obtain z1 n1 X
    where f: "free_area_init_zone z n = Some (z1, n1)" and r: "zone_rep z1 n1 X"
      and ms: "free_ms X = mset [l..<l + ((hi - l) - (hi - l) mod 2)]"
      and e: "free_pages z1 = free_pages z" "node_page_num n1 = node_page_num n"
        "node_zones n1 = node_zones n"
      and t: "only_touches {l..<hi} n n1"
    unfolding z(2,3) by auto
  have "zone_covers n1 c" if "zone_covers n c" "snd (fst c) \<le> l" for c
    using that zone_covers_frame [OF _ t] by (cases c) (auto split: prod.splits)
  moreover have "zone_covers n1 ((l, hi), Some z1, X)"
    using r ms e z(4) assms(1) by (simp add: zone_covers_def del: mset_upt)
  ultimately show thesis using that z(1) f e by blast
qed

lemma init_zones_ok:
  assumes "bounds_from l bs" and "bounds_end l bs \<le> node_page_num n" and "node_page_num n < 2 ^ 64"
    and "length bs0 = length (node_zones n)" and "length Xs = length (node_zones n)"
    and "\<forall>b \<in> set (zip bs0 (zip (node_zones n) Xs)). zone_covers n b \<and> snd (fst b) \<le> l"
  shows "\<exists>n' Xs'. init_zones zi raw_ps raw bs i n = Some n' \<and>
           length (node_zones n') = length bs0 + length bs \<and>
           length Xs' = length (node_zones n') \<and>
           (\<forall>b \<in> set (zip (bs0 @ bs) (zip (node_zones n') Xs')). zone_covers n' b) \<and>
           node_page_num n' = node_page_num n"
  using assms
proof (induction bs arbitrary: l i n bs0 Xs)
  case Nil
  then show ?case by auto
next
  case (Cons b bs)
  obtain hi where b: "b = (l, hi)" and le: "l \<le> hi" and rest: "bounds_from hi bs"
    using Cons.prems(1) by (cases b) auto
  have "hi \<le> bounds_end l (b # bs)" using bounds_from_le [OF rest] by (simp add: b)
  with Cons.prems have hi: "hi \<le> node_page_num n" by simp
  show ?case
  proof (cases "hi = l")
    case True
    let ?n = "n\<lparr>node_zones := node_zones n @ [None]\<rparr>"
    have "zone_covers n (b, None, \<lambda>_. [])" by (simp add: zone_covers_def b True)
    with Cons.prems(4-6) have "\<forall>c \<in> set (zip (bs0 @ [b]) (zip (node_zones ?n) (Xs @ [\<lambda>_. []]))).
        zone_covers ?n c \<and> snd (fst c) \<le> hi"
      by (auto simp: b True)
    from Cons.IH [OF rest _ _ _ _ this] Cons.prems True show ?thesis by (simp add: b)
  next
    case False
    with le have "l < hi" by simp
    from init_zone_ok [OF this hi Cons.prems(3)] obtain z z1 n1 X
      where z: "Zone zi raw_ps raw i l hi = Some z" "free_area_init_zone z n = Some (z1, n1)"
        "zone_covers n1 ((l, hi), Some z1, X)" "node_page_num n1 = node_page_num n"
        "node_zones n1 = node_zones n"
        and keep: "\<And>c. zone_covers n c \<Longrightarrow> snd (fst c) \<le> l \<Longrightarrow> zone_covers n1 c" by metis
    let ?n = "n1\<lparr>node_zones := node_zones n1 @ [Some z1], nr_zones := nr_zones n1 + 1\<rparr>"
    have "\<forall>c \<in> set (zip (bs0 @ [b]) (zip (node_zones ?n) (Xs @ [X]))).
        zone_covers ?n c \<and> snd (fst c) \<le> hi"
      using Cons.prems(4-6) z(3,5) keep le by (fastforce simp: b)
    from Cons.IH [OF rest _ _ _ _ this] Cons.prems z False show ?thesis by (simp add: b)
  qed
qed

subsection \<open>Properties\<close>

lemma bounds_end_zone_bounds: "bounds_end l (zone_bounds l pfns) = fold max pfns l"
  by (induction pfns arbitrary: l) (simp_all add: Max_c_def max_def)

lemma node_bounds_from:
  assumes "max_zone_pfns zi = dma # pfns"
  shows "bounds_from 0 (node_bounds zi 0)"
    and "bounds_end 0 (node_bounds zi 0) = fold max (max_zone_pfns zi) 0"
  using assms bounds_from_zone_bounds
  by (simp_all add: node_bounds_def bounds_end_zone_bounds)

text \<open>Concrete values for the examples: a machine with a DMA zone of 4 pages and a normal zone of 5.\<close>
definition sample_zinfo :: zinfo where
  "sample_zinfo = \<lparr>numCores = 1, memory_size = 0x9000, page_size = 4096, page_shift = 12,
     percpu_pagelist_fraction = 0, max_zone_pfns = [4, 0, 9, 0], paging_mode = LongMode_Normal\<rparr>"

definition sample_page :: Page where
  "sample_page = \<lparr>pg_count = 0, pageNo = 0, map_count = 0, pg_zone = 0, pg_node = 0,
     pg_overlap = 0, pg_private = 0\<rparr>"

definition sample_pcp :: PerCpuPages where
  "sample_pcp = \<lparr>pcp_count = 0, pcp_low = 0, pcp_high = 0, pcp_batch = 0, page_list = []\<rparr>"

definition sample_zone :: Zone where
  "sample_zone = \<lparr>free_pages = 5, pages_min = 0, pages_low = 0, pages_high = 0, zone_type = 2,
     zone_start_pfn = 4, free_area = (\<lambda>_. \<lparr>block_list = FlexiList, nr_free = 0\<rparr>), page_set = []\<rparr>"

definition sample_node :: MemoryNode where
  "sample_node = \<lparr>node_mem_map = Map.empty, page_links = (\<lambda>_. None), raw_page = (\<lambda>_. sample_page),
     zone_lowest_possible = [], zone_highest_possible = [], nr_zones = 0, present_pages = 9,
     node_id = 0, node_start_pfn = 0, node_page_num = 9, node_zones = []\<rparr>"

text \<open>
  C19. Initialising the free lists of a zone whose pages all belong to the node runs to its end
  without a failed assertion, and the lists then hold each page of the zone in exactly one block,
  except the last page of a zone with an odd number of pages, which is in no list: the loop over
  the orders stops before order zero.
\<close>
theorem free_area_init_partition:
  assumes "zone_start_pfn z + unat (free_pages z) \<le> node_page_num n" and "node_page_num n < 2 ^ 64"
  shows "\<exists>z' n' X. free_area_init_zone z n = Some (z', n') \<and> zone_rep z' n' X \<and>
           (\<forall>q. count (free_ms X) q =
              (if zone_start_pfn z \<le> q \<and> q < zone_start_pfn z + unat (free_pages z) \<and>
                  \<not> (odd (unat (free_pages z)) \<and> q = zone_start_pfn z + unat (free_pages z) - 1)
               then 1 else 0))"
proof -
  let ?s = "zone_start_pfn z" and ?c = "unat (free_pages z)"
  have "(q < ?s + (?c - ?c mod 2)) \<longleftrightarrow> q < ?s + ?c \<and> \<not> (odd ?c \<and> q = ?s + ?c - 1)" if "?s \<le> q" for q
    using that by (cases "even ?c") (auto simp: even_iff_mod_2_eq_zero odd_iff_mod_2_eq_one)
  then have "count (mset [?s..<?s + (?c - ?c mod 2)]) q =
      (if ?s \<le> q \<and> q < ?s + ?c \<and> \<not> (odd ?c \<and> q = ?s + ?c - 1) then 1 else 0)" for q
    by (auto simp: count_mset_set')
  then show ?thesis using free_area_init_ok [OF assms] by metis
qed

theorem free_area_init_partition_witness:
  "\<exists>z' n' X. free_area_init_zone sample_zone sample_node = Some (z', n') \<and> zone_rep z' n' X \<and>
     count (free_ms X) 7 = 1 \<and> count (free_ms X) 8 = 0"
  using free_area_init_partition [of sample_zone sample_node]
  by (force simp: sample_zone_def sample_node_def)



text \<open>
  C28. For a zone below 8192 pages of 4 KB, such as a DMA zone of 16 MB, the batch size of the per-CPU
  page caches wraps around: the logarithm of one is zero and the decrement gives the largest
  32-bit value, which becomes the batch and, times six, the high mark of the hot list.
\<close>
theorem small_zone_batch_wraps:
  assumes "page_size zi = 4096" and "percpu_pagelist_fraction zi = 0" and "fp < 8192"
  shows "zone_batchsize zi fp = 0xFFFFFFFF \<and>
         pcp_batch (fst (zone_pageset_init zi fp ps)) = 0xFFFFFFFF \<and>
         pcp_high (fst (zone_pageset_init zi fp ps)) = 0xFFFFFFFA"
proof -
  have "unat fp < 8192" using assms(3) by (simp add: word_less_nat_alt)
  then have "unat (drop_bit 10 fp) < 8" by (simp add: word_arith_simps)
  then have "drop_bit 10 fp \<in> of_nat ` set [0..<8]"
    by (intro image_eqI [of _ _ "unat (drop_bit 10 fp)"]) auto
  moreover have "\<forall>w \<in> set (map of_nat [0..<8] :: 64 word list).
      (scast (ucast w :: 32 word) :: 64 word) * 4096 \<le> 512 * 1024 \<and>
      (let b = word_of_int (sint (ucast w :: 32 word) sdiv 4) :: 32 word
       in b <s 1 \<or> b = 1)"
    by code_simp
  ultimately have 1: "(scast (ucast (drop_bit 10 fp) :: 32 word) :: 64 word) * page_size zi \<le> 512 * 1024"
    "let b = word_of_int (sint (ucast (drop_bit 10 fp) :: 32 word) sdiv 4) :: 32 word in b <s 1 \<or> b = 1"
    using assms(1) by (metis list.set_map)+
  have 2: "log2_16 (ucast (1 + word_of_int (sint (1 :: 32 word) sdiv 2) :: 32 word)) = 0" by code_simp
  have batch: "zone_batchsize zi fp = 0xFFFFFFFF"
  proof -
    have "zone_batchsize zi fp = of_nat (log2_16 (ucast (1 + word_of_int (sint (1 :: 32 word) sdiv 2) :: 32 word))) - 1"
      using 1 by (auto simp only: zone_batchsize_def Let_def not_less if_False if_True split: if_splits)
    then show ?thesis by (simp only: 2) simp
  qed
  have "Max_c 1 (0xFFFFFFFF :: 32 word) = 0xFFFFFFFF" by code_simp
  then show ?thesis
    using batch assms(2) by (simp add: zone_pageset_init_def Let_def)
qed

theorem small_zone_batch_wraps_witness:
  "zone_batchsize sample_zinfo 4096 = 0xFFFFFFFF"
  using small_zone_batch_wraps [of sample_zinfo 4096] by (simp add: sample_zinfo_def)

end
