(* ===== verification/Buddy_Allocator.thy ===== *)
theory Buddy_Allocator
  imports Memory_Zone
begin

text \<open>
  The page allocator of \<^verbatim>\<open>src/src/mmu/memory_management.cpp\<close>: allocation of blocks of
  \<open>2 ^ order\<close> pages from the free lists of a zone, splitting larger blocks, the freeing path
  and the per-CPU page caches.  The locks around the operations are not modelled; each
  operation is one step.

  Allocation is shown to conserve pages: the pages of the allocated block and the pages that
  remain free are together exactly the pages that were free before.
\<close>

subsection \<open>State\<close>

record BuddyAllocator =
  total_memsize :: "64 word"
  ba_mode :: PagingStyle
  free_page_num :: "64 word"
  mem_node :: "MemoryNode option"

definition BuddyAllocator :: "zinfo \<Rightarrow> MemoryNode option \<Rightarrow> BuddyAllocator option" where
  "BuddyAllocator zi node = do {
     _ \<leftarrow> assert_that (memory_size zi > 0);
     Some \<lparr>total_memsize = memory_size zi, ba_mode = paging_mode zi,
           free_page_num = drop_bit (page_shift zi) (memory_size zi), mem_node = node\<rparr>
   }"

definition get_free_memory_size :: "zinfo \<Rightarrow> BuddyAllocator \<Rightarrow> 64 word" where
  "get_free_memory_size zi a = push_bit (page_shift zi) (free_page_num a)"

subsection \<open>Splitting blocks\<close>

definition area_push :: "MemoryNode \<Rightarrow> Zone \<Rightarrow> nat \<Rightarrow> nat \<Rightarrow> (MemoryNode \<times> Zone) option" where
  "area_push n z order new_page_id = do {
     n1 \<leftarrow> get_page_ptr n new_page_id;
     let area = free_area z order;
     (lk, bl) \<leftarrow> push_block_back (page_links n1) (block_list area) new_page_id;
     let z1 = z\<lparr>free_area := (free_area z)(order := \<lparr>block_list = bl, nr_free = nr_free area + 1\<rparr>)\<rparr>;
     n2 \<leftarrow> set_page_order (n1\<lparr>page_links := lk\<rparr>) new_page_id order;
     Some (n2, z1)
   }"

primrec expand_loop ::
  "nat \<Rightarrow> MemoryNode \<Rightarrow> Zone \<Rightarrow> nat \<Rightarrow> nat \<Rightarrow> nat \<Rightarrow> (MemoryNode \<times> Zone) option" where
  "expand_loop 0 n z page_id low_order sz = Some (n, z)"
| "expand_loop (Suc high_order) n z page_id low_order sz =
     (if low_order < Suc high_order then
        (let sz1 = sz div 2; new_page_id = page_id + sz1 in do {
           (n1, z1) \<leftarrow> area_push n z high_order new_page_id;
           expand_loop high_order n1 z1 page_id low_order sz1
         })
      else Some (n, z))"

definition expand :: "MemoryNode \<Rightarrow> Zone \<Rightarrow> nat \<Rightarrow> nat \<Rightarrow> nat \<Rightarrow> (MemoryNode \<times> Zone) option" where
  "expand n z page_id low_order high_order =
     expand_loop high_order n z page_id low_order (2 ^ high_order)"

text \<open>The overload that keeps a given page inside the remaining block.\<close>
primrec expand_around_loop ::
  "nat \<Rightarrow> MemoryNode \<Rightarrow> Zone \<Rightarrow> nat \<Rightarrow> nat \<Rightarrow> nat \<Rightarrow> nat \<Rightarrow> (MemoryNode \<times> Zone) option" where
  "expand_around_loop 0 n z head_page_id page_id low_order sz = Some (n, z)"
| "expand_around_loop (Suc high_order) n z head_page_id page_id low_order sz =
     (if low_order < Suc high_order then
        (let sz1 = sz div 2;
             first = page_id - head_page_id < sz1;
             new_page_id = (if first then head_page_id + sz1 else head_page_id);
             head1 = (if first then head_page_id else head_page_id + sz1) in do {
           (n1, z1) \<leftarrow> area_push n z high_order new_page_id;
           expand_around_loop high_order n1 z1 head1 page_id low_order sz1
         })
      else Some (n, z))"

definition expand_around ::
  "MemoryNode \<Rightarrow> Zone \<Rightarrow> nat \<Rightarrow> nat \<Rightarrow> nat \<Rightarrow> nat \<Rightarrow> (MemoryNode \<times> Zone) option" where
  "expand_around n z head_page_id page_id low_order high_order =
     expand_around_loop high_order n z head_page_id page_id low_order (2 ^ high_order)"

subsection \<open>Allocation\<close>

type_synonym alloc_result = "nat option \<times> 64 word \<times> MemoryNode \<times> Zone"

text \<open>
  The loop over the orders.  The second component of the result is the allocator's count of
  free pages.  The zone's own count is reduced by one shifted right by the order.
\<close>
primrec rmqueue_orders ::
  "nat list \<Rightarrow> 64 word \<Rightarrow> MemoryNode \<Rightarrow> Zone \<Rightarrow> nat \<Rightarrow> alloc_result option" where
  "rmqueue_orders [] fpn n z order = Some (None, fpn, n, z)"
| "rmqueue_orders (current_order # rest) fpn n z order =
     (let area = free_area z current_order in
      if get_size (block_list area) = 0 then rmqueue_orders rest fpn n z order
      else do {
        (page, lk, bl) \<leftarrow> fetch_head (page_links n) (block_list area);
        pg \<leftarrow> node_mem_map n page;
        n1 \<leftarrow> page_upd (\<lambda>pg. pg\<lparr>pg_node := node_id n, pg_zone := zone_type z, map_count := - 1,
                                pg_private := 0, pg_count := 1\<rparr>) (n\<lparr>page_links := lk\<rparr>) page;
        let z1 = z\<lparr>free_area := (free_area z)
                     (current_order := \<lparr>block_list = bl, nr_free = nr_free area - 1\<rparr>),
                   free_pages := free_pages z - drop_bit order 1\<rparr>;
        (n2, z2) \<leftarrow> expand n1 z1 (pageNo pg) order current_order;
        Some (Some page, fpn - push_bit order 1, n2, z2)
      })"

definition rmqueue_page_smallest ::
  "64 word \<Rightarrow> MemoryNode \<Rightarrow> Zone \<Rightarrow> nat \<Rightarrow> alloc_result option" where
  "rmqueue_page_smallest fpn n z order = rmqueue_orders [order..<Suc MAXORDER] fpn n z order"

definition allocate_pages_zone ::
  "BuddyAllocator \<Rightarrow> nat \<Rightarrow> nat \<Rightarrow> (nat option \<times> BuddyAllocator) option" where
  "allocate_pages_zone a zone order = do {
     n \<leftarrow> mem_node a;
     z \<leftarrow> (if zone < length (node_zones n) then node_zones n ! zone else None);
     (page, fpn, n1, z1) \<leftarrow> rmqueue_page_smallest (free_page_num a) n z order;
     Some (page, a\<lparr>free_page_num := fpn,
                   mem_node := Some (n1\<lparr>node_zones := (node_zones n1)[zone := Some z1]\<rparr>)\<rparr>)
   }"

definition zone_present :: "MemoryNode \<Rightarrow> nat \<Rightarrow> bool" where
  "zone_present n i \<longleftrightarrow> i < length (node_zones n) \<and> node_zones n ! i \<noteq> None"

text \<open>Zones by their index in \<^verbatim>\<open>node_zones\<close>: DMA, DMA32, normal and high memory.\<close>
definition gfp_zone :: "BuddyAllocator \<Rightarrow> 32 word \<Rightarrow> nat option option" where
  "gfp_zone a flag =
     (case mem_node a of
        None \<Rightarrow> Some None
      | Some n \<Rightarrow>
          if zone_present n 0 \<and> flag AND GFP_DMA \<noteq> 0 then Some (Some 0)
          else if zone_present n 1 \<and> flag AND GFP_DMA32 \<noteq> 0 then Some (Some 1)
          else if zone_present n 3 \<and> flag AND GFP_HighMem \<noteq> 0 then Some (Some 3)
          else do {
            _ \<leftarrow> assert_that (zone_present n 2);
            Some (Some 2)
          })"

definition allocate_pages ::
  "BuddyAllocator \<Rightarrow> 32 word \<Rightarrow> nat \<Rightarrow> (nat option \<times> BuddyAllocator) option" where
  "allocate_pages a gfp_mask order =
     (if order \<ge> MAXORDER then Some (None, a)
      else do {
        zone \<leftarrow> gfp_zone a gfp_mask;
        (case zone of
           Some z \<Rightarrow> allocate_pages_zone a z order
         | None \<Rightarrow> Some (None, a))
      })"

definition get_free_pages ::
  "zinfo \<Rightarrow> BuddyAllocator \<Rightarrow> 32 word \<Rightarrow> nat \<Rightarrow> (Address \<times> BuddyAllocator) option" where
  "get_free_pages zi a gfp_mask order = do {
     (page, a1) \<leftarrow> allocate_pages a gfp_mask order;
     p \<leftarrow> page;
     n \<leftarrow> mem_node a1;
     pg \<leftarrow> node_mem_map n p;
     Some (push_bit (page_shift zi) (of_nat (pageNo pg)), a1)
   }"

definition get_dma_pages ::
  "zinfo \<Rightarrow> BuddyAllocator \<Rightarrow> 32 word \<Rightarrow> nat \<Rightarrow> (Address \<times> BuddyAllocator) option" where
  "get_dma_pages zi a gfp_mask order = get_free_pages zi a (gfp_mask OR GFP_DMA) order"

subsection \<open>Freeing\<close>

definition find_buddy_index :: "nat \<Rightarrow> nat \<Rightarrow> nat" where
  "find_buddy_index page_no order = page_no XOR 2 ^ order"

definition read_page :: "MemoryNode \<Rightarrow> nat \<Rightarrow> (Page \<times> MemoryNode) option" where
  "read_page n p = do {
     n1 \<leftarrow> get_page_ptr n p;
     pg \<leftarrow> node_mem_map n1 p;
     Some (pg, n1)
   }"

definition page_is_buddy :: "MemoryNode \<Rightarrow> nat \<Rightarrow> nat \<Rightarrow> nat \<Rightarrow> (bool \<times> MemoryNode) option" where
  "page_is_buddy n page_id buddy_id order = do {
     (b, n1) \<leftarrow> read_page n buddy_id;
     if pg_private b = order then do {
       (p, n2) \<leftarrow> read_page n1 page_id;
       (b2, n3) \<leftarrow> read_page n2 buddy_id;
       Some (pg_node p = pg_node b2 \<and> pg_zone p = pg_zone b2, n3)
     }
     else Some (False, n1)
   }"

function free_merge ::
  "MemoryNode \<Rightarrow> Zone \<Rightarrow> nat \<Rightarrow> nat \<Rightarrow> nat \<Rightarrow> (MemoryNode \<times> Zone \<times> nat \<times> nat) option" where
  "free_merge n z page_no page_id order =
     (if order < MAXORDER - 1 then do {
        let buddy_id = find_buddy_index page_id order;
        (buddy, n1) \<leftarrow> page_is_buddy n page_no buddy_id order;
        if \<not> buddy then Some (n1, z, page_id, order)
        else do {
          let area = free_area z order;
          let z1 = z\<lparr>free_area := (free_area z)(order := area\<lparr>nr_free := nr_free area - 1\<rparr>)\<rparr>;
          n2 \<leftarrow> clear_page_buddy n1 buddy_id;
          n3 \<leftarrow> set_page_private n2 buddy_id 0;
          free_merge n3 z1 page_no (buddy_id AND page_no) (Suc order)
        }
      }
      else Some (n, z, page_id, order))"
  by pat_completeness auto
termination by (relation "measure (\<lambda>(n, z, page_no, page_id, order). MAXORDER - order)") auto

declare free_merge.simps [simp del]

definition free_one_page_zone :: "MemoryNode \<Rightarrow> Zone \<Rightarrow> nat \<Rightarrow> nat \<Rightarrow> (MemoryNode \<times> Zone) option" where
  "free_one_page_zone n z page_no order = do {
     (n1, z1, page_id, order1) \<leftarrow> free_merge n z page_no (page_no AND (2 ^ MAXORDER - 1)) order;
     n2 \<leftarrow> set_page_order n1 page_id order1;
     let area = free_area z1 order1;
     Some (n2, z1\<lparr>free_area := (free_area z1)(order1 := area\<lparr>nr_free := nr_free area + 1\<rparr>)\<rparr>)
   }"

definition free_one_page :: "BuddyAllocator \<Rightarrow> nat \<Rightarrow> BuddyAllocator option" where
  "free_one_page a page_no = do {
     n \<leftarrow> mem_node a;
     (pg, n1) \<leftarrow> read_page n page_no;
     let zone = pg_zone pg;
     z \<leftarrow> (if zone < length (node_zones n1) then node_zones n1 ! zone else None);
     (n2, z1) \<leftarrow> free_one_page_zone n1 z (pageNo pg) 0;
     Some (a\<lparr>mem_node := Some (n2\<lparr>node_zones := (node_zones n2)[zone := Some z1]\<rparr>)\<rparr>)
   }"

subsection \<open>Per-CPU page caches\<close>

definition get_cpu_pages :: "Zone \<Rightarrow> nat \<Rightarrow> bool \<Rightarrow> PerCpuPages option" where
  "get_cpu_pages z cpu_id cold =
     (if cpu_id < length (page_set z)
      then Some (if cold then snd (page_set z ! cpu_id) else fst (page_set z ! cpu_id))
      else None)"

definition put_cpu_pages :: "Zone \<Rightarrow> nat \<Rightarrow> bool \<Rightarrow> PerCpuPages \<Rightarrow> Zone" where
  "put_cpu_pages z cpu_id cold pps =
     z\<lparr>page_set := (page_set z)[cpu_id :=
         (if cold then (fst (page_set z ! cpu_id), pps) else (pps, snd (page_set z ! cpu_id)))]\<rparr>"

text \<open>At most \<open>cnt\<close> single allocations, appended to the list; the first result counts them.\<close>
primrec allocate_bulk ::
  "nat \<Rightarrow> 64 word \<Rightarrow> MemoryNode \<Rightarrow> Zone \<Rightarrow> nat \<Rightarrow> nat list \<Rightarrow>
   (nat \<times> nat list \<times> 64 word \<times> MemoryNode \<times> Zone) option" where
  "allocate_bulk 0 fpn n z order lst = Some (0, lst, fpn, n, z)"
| "allocate_bulk (Suc cnt) fpn n z order lst = do {
     (page, fpn1, n1, z1) \<leftarrow> rmqueue_page_smallest fpn n z order;
     (case page of
        None \<Rightarrow> Some (0, lst, fpn1, n1, z1)
      | Some p \<Rightarrow> do {
          (i, lst', fpn2, n2, z2) \<leftarrow> allocate_bulk cnt fpn1 n1 z1 order (lst @ [p]);
          Some (Suc i, lst', fpn2, n2, z2)
        })
   }"

definition refill_cpu_pages ::
  "64 word \<Rightarrow> MemoryNode \<Rightarrow> Zone \<Rightarrow> PerCpuPages \<Rightarrow>
   (PerCpuPages \<times> 64 word \<times> MemoryNode \<times> Zone) option" where
  "refill_cpu_pages fpn n z pps =
     (if page_list pps = [] then do {
        (i, lst, fpn1, n1, z1) \<leftarrow> allocate_bulk (unat (pcp_batch pps)) fpn n z 0 (page_list pps);
        Some (pps\<lparr>pcp_count := pcp_count pps + of_nat i, page_list := lst\<rparr>, fpn1, n1, z1)
      }
      else if pcp_count pps \<le> pcp_low pps then do {
        (i, lst, fpn1, n1, z1) \<leftarrow>
          allocate_bulk (unat (pcp_batch pps - pcp_count pps)) fpn n z 0 (page_list pps);
        Some (pps\<lparr>pcp_count := pcp_count pps + of_nat i, page_list := lst\<rparr>, fpn1, n1, z1)
      }
      else Some (pps, fpn, n, z))"

definition buffered_rmqueue ::
  "64 word \<Rightarrow> MemoryNode \<Rightarrow> 32 word \<Rightarrow> Zone \<Rightarrow> nat \<Rightarrow> nat \<Rightarrow> alloc_result option" where
  "buffered_rmqueue fpn n gfp_mask z order cpu_id =
     (let cold = (gfp_mask AND GFP_COLD \<noteq> 0) in
      if order = 0 then do {
        pps0 \<leftarrow> get_cpu_pages z cpu_id cold;
        (pps, fpn1, n1, z1) \<leftarrow> refill_cpu_pages fpn n z pps0;
        (case page_list pps of
           p # ps \<Rightarrow>
             Some (Some p, fpn1, n1,
                   put_cpu_pages z1 cpu_id cold (pps\<lparr>pcp_count := pcp_count pps - 1\<rparr>))
         | [] \<Rightarrow> rmqueue_page_smallest fpn1 n1 (put_cpu_pages z1 cpu_id cold pps) order)
      }
      else rmqueue_page_smallest fpn n z order)"

primrec free_pcppages_bulk ::
  "nat \<Rightarrow> MemoryNode \<Rightarrow> Zone \<Rightarrow> PerCpuPages \<Rightarrow> (MemoryNode \<times> Zone \<times> PerCpuPages) option" where
  "free_pcppages_bulk 0 n z pcp = Some (n, z, pcp)"
| "free_pcppages_bulk (Suc cnt) n z pcp =
     (case page_list pcp of
        [] \<Rightarrow> Some (n, z, pcp)
      | page # rest \<Rightarrow> do {
          pg \<leftarrow> node_mem_map n page;
          (n1, z1) \<leftarrow> free_one_page_zone n z (pageNo pg) 0;
          free_pcppages_bulk cnt n1 z1 (pcp\<lparr>page_list := rest, pcp_count := pcp_count pcp + 1\<rparr>)
        })"

definition free_hot_cold_page ::
  "MemoryNode \<Rightarrow> Zone \<Rightarrow> nat \<Rightarrow> nat \<Rightarrow> bool \<Rightarrow> (MemoryNode \<times> Zone) option" where
  "free_hot_cold_page n z page cpu_id cold = do {
     pps0 \<leftarrow> get_cpu_pages z cpu_id cold;
     let pps = pps0\<lparr>page_list := page_list pps0 @ [page], pcp_count := pcp_count pps0 + 1\<rparr>;
     (n1, z1, pps1) \<leftarrow>
       (if pcp_count pps > pcp_high pps then do {
          (n1, z1, pps1) \<leftarrow> free_pcppages_bulk (unat (pcp_batch pps)) n z pps;
          Some (n1, z1, pps1\<lparr>pcp_count := pcp_count pps1 - pcp_batch pps1\<rparr>)
        }
        else Some (n, z, pps));
     Some (n1, put_cpu_pages z1 cpu_id cold pps1)
   }"

subsection \<open>Descriptors and bookkeeping\<close>

text \<open>Each descriptor knows its own page number.\<close>
definition node_wf :: "MemoryNode \<Rightarrow> bool" where
  "node_wf n \<longleftrightarrow> (\<forall>p pg. node_mem_map n p = Some pg \<longrightarrow> pageNo pg = p)"

text \<open>What the page operations leave alone in a node, and the list operations in a zone.\<close>
definition node_same :: "MemoryNode \<Rightarrow> MemoryNode \<Rightarrow> bool" where
  "node_same n n' \<longleftrightarrow>
     node_page_num n' = node_page_num n \<and> node_zones n' = node_zones n \<and>
     node_id n' = node_id n \<and> (node_wf n \<longrightarrow> node_wf n')"

lemma node_same_refl [simp]: "node_same n n"
  by (simp add: node_same_def)

lemma node_same_trans [trans]: "node_same n n1 \<Longrightarrow> node_same n1 n2 \<Longrightarrow> node_same n n2"
  by (simp add: node_same_def)

lemma node_same_links: "node_same n (n\<lparr>page_links := lk\<rparr>)"
  by (simp add: node_same_def node_wf_def)

lemma get_page_ptr_same: "get_page_ptr n p = Some n' \<Longrightarrow> node_same n n'"
  by (auto simp: get_page_ptr_def node_same_def node_wf_def Page_def split: option.splits if_splits)

lemma page_upd_same:
  assumes "page_upd f n p = Some n'" and "\<And>pg. pageNo (f pg) = pageNo pg"
  shows "node_same n n' \<and> page_links n' = page_links n \<and> dom (node_mem_map n') = dom (node_mem_map n)"
  using assms by (auto simp: page_upd_def node_same_def node_wf_def split: option.splits if_splits)

lemma set_page_order_ok:
  assumes "p \<in> dom (node_mem_map n)" and "p < node_page_num n"
  shows "\<exists>n'. set_page_order n p k = Some n' \<and> node_same n n' \<and>
           page_links n' = page_links n \<and> dom (node_mem_map n') = dom (node_mem_map n)"
  using assms
  by (auto simp: set_page_order_def set_page_private_def set_page_buddy_def page_upd_def
      node_same_def node_wf_def get_page_ptr_def)

lemma lists_rep_cong:
  "page_links n' = page_links n \<Longrightarrow> dom (node_mem_map n') = dom (node_mem_map n) \<Longrightarrow>
   node_page_num n' = node_page_num n \<Longrightarrow> lists_rep L n' X = lists_rep L n X"
  by (simp add: lists_rep_def)

lemma lists_rep_length:
  assumes "lists_rep L n X" and "k \<le> MAXORDER"
  shows "length (X k) \<le> node_page_num n"
proof -
  have "flexi_rep (page_links n) (L k) (X k)"
    using assms by (auto simp: lists_rep_def fq.rep_array_def)
  then have "distinct (X k)" by (rule fq.rep_distinct)
  moreover have "p < node_page_num n" if "p \<in> set (X k)" for p
  proof -
    have "p + 2 ^ k \<le> node_page_num n" using that assms by (auto simp: lists_rep_def)
    then show ?thesis by (rule less_le_trans [rotated]) simp
  qed
  then have "set (X k) \<subseteq> {..<node_page_num n}" by auto
  ultimately show ?thesis
    by (metis card_lessThan card_mono distinct_card finite_lessThan)
qed

subsection \<open>Splitting conserves pages\<close>

lemma area_push_ok:
  assumes rep: "zone_rep z n X" and k: "k \<le> MAXORDER" and bound: "p + 2 ^ k \<le> node_page_num n"
    and new: "set_mset (free_ms X) \<inter> {p..<p + 2 ^ k} = {}"
  shows "\<exists>n' z'. area_push n z k p = Some (n', z') \<and> zone_rep z' n' (X(k := X k @ [p])) \<and>
           node_same n n' \<and> free_pages z' = free_pages z \<and> zone_type z' = zone_type z \<and>
           only_touches (set_mset (free_ms X) \<union> {p..<p + 2 ^ k}) n n'"
proof -
  have lrep: "lists_rep (zone_lists z) n X" using rep by (simp add: zone_rep_def)
  from lists_rep_push [OF lrep k bound new] obtain n1 lk bl
    where n1: "get_page_ptr n p = Some n1" "p \<in> dom (node_mem_map n1)"
        "node_page_num n1 = node_page_num n"
      and push: "push_block_back (page_links n1) (zone_lists z k) p = Some (lk, bl)"
      and rep1: "lists_rep ((zone_lists z)(k := bl)) (n1\<lparr>page_links := lk\<rparr>) (X(k := X k @ [p]))"
      and t: "only_touches (set_mset (free_ms X) \<union> {p..<p + 2 ^ k}) n (n1\<lparr>page_links := lk\<rparr>)"
    by blast
  have "p < node_page_num n1" using bound n1(3) by (metis add_lessD1 le_add1 le_neq_implies_less
        less_add_same_cancel1 less_le_trans zero_less_numeral zero_less_power)
  with n1(2) obtain n2 where n2: "set_page_order (n1\<lparr>page_links := lk\<rparr>) p k = Some n2"
    "node_same (n1\<lparr>page_links := lk\<rparr>) n2" "page_links n2 = lk"
    "dom (node_mem_map n2) = dom (node_mem_map n1)"
    using set_page_order_ok [of p "n1\<lparr>page_links := lk\<rparr>" k] by auto
  let ?z = "z\<lparr>free_area := (free_area z)(k := \<lparr>block_list = bl, nr_free = nr_free (free_area z k) + 1\<rparr>)\<rparr>"
  have eq: "lists_rep L n2 Y = lists_rep L (n1\<lparr>page_links := lk\<rparr>) Y" for L Y
    using n2 by (intro lists_rep_cong) (auto simp: node_same_def)
  have "Suc (length (X k)) < 2 ^ 64"
    using lists_rep_length [OF rep1 k] rep1 by (simp add: lists_rep_def)
  then have "unat (nr_free (free_area z k) + 1) = Suc (length (X k))"
    using rep k by (simp add: zone_rep_def word_arith_simps)
  moreover have "zone_lists ?z = (zone_lists z)(k := bl)" by auto
  ultimately have "zone_rep ?z n2 (X(k := X k @ [p]))"
    using rep rep1 unfolding zone_rep_def eq by simp
  moreover have "node_same n n2"
    using get_page_ptr_same [OF n1(1)] node_same_links n2(2) by (blast intro: node_same_trans)
  moreover have "only_touches (set_mset (free_ms X) \<union> {p..<p + 2 ^ k}) n n2"
    using t by (simp add: only_touches_def eq)
  moreover have "area_push n z k p = Some (n2, ?z)"
    using n1(1) push n2(1) by (simp add: area_push_def)
  ultimately show ?thesis by auto
qed

lemma blk_halves: "blk p (Suc h) = blk p h + blk (p + 2 ^ h) h"
  unfolding blk_def by (subst mset_upt_append) (simp_all add: mult_2 add.assoc)

text \<open>
  Splitting the block at \<open>p\<close> from order \<open>high\<close> down to order \<open>low\<close> puts the upper half of each
  order on its list.
\<close>
lemma expand_loop_ok:
  assumes "zone_rep z n X" and "high \<le> MAXORDER" and "p + 2 ^ high \<le> node_page_num n"
    and "set_mset (free_ms X) \<inter> {p..<p + 2 ^ high} = {}" and "low \<le> high"
  shows "\<exists>n' z' X'. expand_loop high n z p low (2 ^ high) = Some (n', z') \<and> zone_rep z' n' X' \<and>
           free_ms X' + blk p low = free_ms X + blk p high \<and>
           (\<forall>k. X' k = (if low \<le> k \<and> k < high then X k @ [p + 2 ^ k] else X k)) \<and>
           node_same n n' \<and> free_pages z' = free_pages z \<and> zone_type z' = zone_type z \<and>
           only_touches (set_mset (free_ms X) \<union> {p..<p + 2 ^ high}) n n'"
  using assms
proof (induction high arbitrary: n z X)
  case 0
  then show ?case by (auto simp: only_touches_refl)
next
  case (Suc h)
  show ?case
  proof (cases "low = Suc h")
    case True
    with Suc.prems show ?thesis by (auto simp: only_touches_refl)
  next
    case False
    let ?q = "p + 2 ^ h" and ?X = "X(h := X h @ [p + 2 ^ h])"
    have ends: "?q + 2 ^ h = p + 2 ^ Suc h" by simp
    have "set_mset (free_ms X) \<inter> {?q..<?q + 2 ^ h} = {}"
      using Suc.prems(4) by fastforce
    with Suc.prems obtain n1 z1 where push: "area_push n z h ?q = Some (n1, z1)"
      and rep1: "zone_rep z1 n1 ?X" and s1: "node_same n n1" "free_pages z1 = free_pages z"
        "zone_type z1 = zone_type z"
      and t1: "only_touches (set_mset (free_ms X) \<union> {?q..<?q + 2 ^ h}) n n1"
      using area_push_ok [of z n X h ?q] unfolding ends by auto
    have ms: "free_ms ?X = free_ms X + blk ?q h"
      using Suc.prems(2) by (intro free_ms_push) simp
    have room: "p + 2 ^ h \<le> node_page_num n1"
      using Suc.prems(3) s1(1) by (simp add: node_same_def)
    have dis: "set_mset (free_ms ?X) \<inter> {p..<p + 2 ^ h} = {}"
      using Suc.prems(4) by (fastforce simp: ms)
    have h: "h \<le> MAXORDER" "low \<le> h" using Suc.prems(2,5) False by simp_all
    from Suc.IH [OF rep1 h(1) room dis h(2)] obtain n' z' X'
      where rec: "expand_loop h n1 z1 p low (2 ^ h) = Some (n', z')"
      and rep': "zone_rep z' n' X'" and ms': "free_ms X' + blk p low = free_ms ?X + blk p h"
      and X': "\<forall>k. X' k = (if low \<le> k \<and> k < h then ?X k @ [p + 2 ^ k] else ?X k)"
      and s2: "node_same n1 n'" "free_pages z' = free_pages z1" "zone_type z' = zone_type z1"
      and t2: "only_touches (set_mset (free_ms ?X) \<union> {p..<p + 2 ^ h}) n1 n'"
      by blast
    have "only_touches (set_mset (free_ms X) \<union> {p..<p + 2 ^ Suc h}) n n'"
      by (rule only_touches_trans [OF t1 t2]) (auto simp: ms)
    moreover have "free_ms X' + blk p low = free_ms X + blk p (Suc h)"
      using ms ms' by (simp add: blk_halves ac_simps)
    moreover have "\<forall>k. X' k = (if low \<le> k \<and> k < Suc h then X k @ [p + 2 ^ k] else X k)"
      using X' False Suc.prems(5) by (auto simp: less_Suc_eq)
    ultimately show ?thesis
      using push rec rep' s1 s2 False Suc.prems(5)
      by (auto simp: Let_def intro: node_same_trans)
  qed
qed

subsection \<open>Taking a block\<close>

lemma lists_rep_fetch:
  assumes rep: "lists_rep L n X" and k: "k \<le> MAXORDER" and X: "X k = p # ps"
  shows "\<exists>lk bl. fetch_head (page_links n) (L k) = Some (p, lk, bl) \<and>
           lists_rep (L(k := bl)) (n\<lparr>page_links := lk\<rparr>) (X(k := ps)) \<and>
           only_touches {p} n (n\<lparr>page_links := lk\<rparr>)"
proof -
  from fq.rep_array_fetch [of "page_links n" "Suc MAXORDER" L X k p ps] rep k X
  obtain lk bl where f: "fetch_head (page_links n) (L k) = Some (p, lk, bl)"
    and arr: "fq.rep_array lk (Suc MAXORDER) (L(k := bl)) (X(k := ps))"
    and frame: "\<And>m ys. flexi_rep (page_links n) m ys \<Longrightarrow> p \<notin> set ys \<Longrightarrow> flexi_rep lk m ys"
    by (auto simp: lists_rep_def less_Suc_eq_le)
  have "count (free_ms (X(k := ps))) q \<le> 1" for q
  proof -
    have "count (free_ms (X(k := ps))) q \<le> count (free_ms X) q"
      using free_ms_pop [of k X p ps] k X by simp
    also have "\<dots> \<le> 1" using rep by (simp add: lists_rep_def)
    finally show ?thesis .
  qed
  moreover have "\<forall>j \<le> MAXORDER. \<forall>q \<in> set ((X(k := ps)) j).
      q \<in> dom (node_mem_map n) \<and> q + 2 ^ j \<le> node_page_num n"
    using rep X k by (auto simp: lists_rep_def simp del: domIff)
  ultimately have "lists_rep (L(k := bl)) (n\<lparr>page_links := lk\<rparr>) (X(k := ps))"
    using arr rep unfolding lists_rep_def by simp
  moreover have "only_touches {p} n (n\<lparr>page_links := lk\<rparr>)"
    by (rule only_touches_links, rule frame) auto
  ultimately show ?thesis using f by blast
qed

text \<open>The body of the loop at the first order that has a block.\<close>
lemma rmqueue_take:
  assumes rep: "zone_rep z n X" and wf: "node_wf n" and k: "k \<le> MAXORDER" and low: "low \<le> k"
    and X: "X k = p # ps"
  shows "\<exists>n' z' X'. rmqueue_orders (k # rest) fpn n z low =
             Some (Some p, fpn - push_bit low 1, n', z') \<and>
           zone_rep z' n' X' \<and> free_ms X = free_ms X' + blk p low \<and>
           (\<forall>j. X' j = (if low \<le> j \<and> j < k then X j @ [p + 2 ^ j] else if j = k then ps else X j)) \<and>
           node_same n n' \<and> free_pages z' = free_pages z - drop_bit low 1 \<and> zone_type z' = zone_type z \<and>
           only_touches (set_mset (free_ms X)) n n'"
proof -
  let ?area = "free_area z k"
  have lrep: "lists_rep (zone_lists z) n X" using rep by (simp add: zone_rep_def)
  from lists_rep_fetch [OF lrep k X] obtain lk bl
    where f: "fetch_head (page_links n) (zone_lists z k) = Some (p, lk, bl)"
      and rep1: "lists_rep ((zone_lists z)(k := bl)) (n\<lparr>page_links := lk\<rparr>) (X(k := ps))"
      and t1: "only_touches {p} n (n\<lparr>page_links := lk\<rparr>)" by blast
  have size: "get_size (zone_lists z k) \<noteq> 0"
    using fq.rep_array_len [of "page_links n" "Suc MAXORDER" "zone_lists z" X k] lrep k X
    by (simp add: lists_rep_def less_Suc_eq_le)
  obtain pg where pg: "node_mem_map n p = Some pg" "pageNo pg = p" and p: "p + 2 ^ k \<le> node_page_num n"
    using lrep k X wf unfolding lists_rep_def node_wf_def by fastforce
  let ?f = "\<lambda>pg. pg\<lparr>pg_node := node_id n, pg_zone := zone_type z, map_count := - 1,
                     pg_private := 0, pg_count := 1\<rparr>"
  obtain n1 where n1: "page_upd ?f (n\<lparr>page_links := lk\<rparr>) p = Some n1"
    using pg by (auto simp: page_upd_def)
  note n1_same = page_upd_same [OF n1, simplified]
  let ?z = "z\<lparr>free_area := (free_area z)(k := \<lparr>block_list = bl, nr_free = nr_free ?area - 1\<rparr>),
              free_pages := free_pages z - drop_bit low 1\<rparr>"
  have eq: "lists_rep L n1 Y = lists_rep L (n\<lparr>page_links := lk\<rparr>) Y" for L Y
    using n1_same by (intro lists_rep_cong) (auto simp: node_same_def)
  have "unat (nr_free ?area - 1) = length ps"
    using rep k X by (subst unat_dec) (auto simp: zone_rep_def unat_eq_zero [symmetric] simp del: unat_eq_zero)
  moreover have "zone_lists ?z = (zone_lists z)(k := bl)" by auto
  ultimately have zrep: "zone_rep ?z n1 (X(k := ps))"
    using rep rep1 unfolding zone_rep_def eq by simp
  have ms: "free_ms X = free_ms (X(k := ps)) + blk p k" using k X by (rule free_ms_pop)
  have dis: "set_mset (free_ms (X(k := ps))) \<inter> {p..<p + 2 ^ k} = {}"
  proof -
    have "count (free_ms (X(k := ps)) + blk p k) q \<le> 1" for q
      using lrep unfolding ms [symmetric] by (simp add: lists_rep_def)
    then have "count (free_ms (X(k := ps))) q = 0" if "p \<le> q" "q < p + 2 ^ k" for q
      using that by (metis add_le_same_cancel2 count_blk count_union le_zero_eq)
    then show ?thesis by (metis atLeastLessThan_iff disjoint_iff not_in_iff)
  qed
  have s1: "node_same n n1"
    using n1_same node_same_links by (blast intro: node_same_trans)
  have room: "p + 2 ^ k \<le> node_page_num n1" using p s1 by (simp add: node_same_def)
  from expand_loop_ok [OF zrep k room dis low] obtain n' z' X'
    where ex: "expand n1 ?z p low k = Some (n', z')" and rep': "zone_rep z' n' X'"
      and ms': "free_ms X' + blk p low = free_ms (X(k := ps)) + blk p k"
      and X': "\<forall>j. X' j = (if low \<le> j \<and> j < k then (X(k := ps)) j @ [p + 2 ^ j] else (X(k := ps)) j)"
      and s2: "node_same n1 n'" "free_pages z' = free_pages ?z" "zone_type z' = zone_type ?z"
      and t2: "only_touches (set_mset (free_ms (X(k := ps))) \<union> {p..<p + 2 ^ k}) n1 n'"
    unfolding expand_def by blast
  have "only_touches {p} n n1" using t1 by (simp add: only_touches_def eq)
  from only_touches_trans [OF this t2] have "only_touches (set_mset (free_ms X)) n n'"
    by (auto simp: ms)
  moreover have "rmqueue_orders (k # rest) fpn n z low = Some (Some p, fpn - push_bit low 1, n', z')"
    using size f pg n1 ex by (simp add: Let_def)
  moreover have "\<forall>j. X' j = (if low \<le> j \<and> j < k then X j @ [p + 2 ^ j] else if j = k then ps else X j)"
    using X' by auto
  ultimately show ?thesis
    using rep' ms ms' s1 s2 by (auto intro: node_same_trans)
qed

lemma rmqueue_orders_ok:
  assumes "zone_rep z n X" and "node_wf n" and "\<And>k. k \<in> set ks \<Longrightarrow> order \<le> k \<and> k \<le> MAXORDER"
  shows "case List.find (\<lambda>k. X k \<noteq> []) ks of
           None \<Rightarrow> rmqueue_orders ks fpn n z order = Some (None, fpn, n, z)
         | Some k \<Rightarrow> \<exists>n' z' X'.
             rmqueue_orders ks fpn n z order =
               Some (Some (hd (X k)), fpn - push_bit order 1, n', z') \<and>
             zone_rep z' n' X' \<and> free_ms X = free_ms X' + blk (hd (X k)) order \<and>
             (\<forall>j. X' j = (if order \<le> j \<and> j < k then X j @ [hd (X k) + 2 ^ j]
                          else if j = k then tl (X k) else X j)) \<and>
             node_same n n' \<and> free_pages z' = free_pages z - drop_bit order 1 \<and>
             zone_type z' = zone_type z \<and> only_touches (set_mset (free_ms X)) n n'"
  using assms(3)
proof (induction ks)
  case (Cons k ks)
  note prems = Cons.prems
  show ?case
  proof (cases "X k")
    case Nil
    then have "get_size (zone_lists z k) = 0"
      using fq.rep_array_len [of "page_links n" "Suc MAXORDER" "zone_lists z" X k] assms(1) Cons.prems
      by (simp add: zone_rep_def lists_rep_def less_Suc_eq_le)
    then have "rmqueue_orders (k # ks) fpn n z order = rmqueue_orders ks fpn n z order"
      by (simp add: Let_def)
    moreover have "List.find (\<lambda>k. X k \<noteq> []) (k # ks) = List.find (\<lambda>k. X k \<noteq> []) ks"
      using Nil by simp
    ultimately show ?thesis using Cons by (simp only: list.set_intros)
  next
    case (Cons p ps)
    then have "List.find (\<lambda>k. X k \<noteq> []) (k # ks) = Some k" and "hd (X k) = p" and "tl (X k) = ps"
      by simp_all
    then show ?thesis
      using rmqueue_take [OF assms(1,2) _ _ Cons, of order ks fpn] prems
      by (simp only: option.case list.set_intros)
  qed
qed simp

lemma rmqueue_smallest_ok:
  assumes "zone_rep z n X" and "node_wf n"
  shows "case List.find (\<lambda>k. X k \<noteq> []) [order..<Suc MAXORDER] of
           None \<Rightarrow> rmqueue_page_smallest fpn n z order = Some (None, fpn, n, z)
         | Some k \<Rightarrow> \<exists>n' z' X'.
             rmqueue_page_smallest fpn n z order =
               Some (Some (hd (X k)), fpn - push_bit order 1, n', z') \<and>
             zone_rep z' n' X' \<and> free_ms X = free_ms X' + blk (hd (X k)) order \<and>
             (\<forall>j. X' j = (if order \<le> j \<and> j < k then X j @ [hd (X k) + 2 ^ j]
                          else if j = k then tl (X k) else X j)) \<and>
             node_same n n' \<and> free_pages z' = free_pages z - drop_bit order 1 \<and>
             zone_type z' = zone_type z \<and> only_touches (set_mset (free_ms X)) n n'"
  unfolding rmqueue_page_smallest_def by (rule rmqueue_orders_ok [OF assms]) auto

subsection \<open>The free lists of all zones\<close>

definition node_free :: "(nat \<Rightarrow> nat list) list \<Rightarrow> nat multiset" where
  "node_free Xs = sum_list (map free_ms Xs)"

text \<open>
  The invariant of the allocator's node: every zone's lists are well formed, and no page is in two
  blocks, of the same zone or of different ones.
\<close>
definition node_inv :: "MemoryNode \<Rightarrow> (nat \<Rightarrow> nat list) list \<Rightarrow> bool" where
  "node_inv n Xs \<longleftrightarrow>
     node_wf n \<and> length Xs = length (node_zones n) \<and>
     (\<forall>i < length Xs. case node_zones n ! i of
        None \<Rightarrow> Xs ! i = (\<lambda>_. [])
      | Some z \<Rightarrow> zone_rep z n (Xs ! i)) \<and>
     (\<forall>q. count (node_free Xs) q \<le> 1)"

lemma node_free_split:
  assumes "i < length Xs"
  shows "node_free Xs = free_ms (Xs ! i) + node_free (take i Xs @ drop (Suc i) Xs)"
  using arg_cong [OF id_take_nth_drop [OF assms], of node_free]
  by (simp add: node_free_def ac_simps)

lemma node_free_update:
  assumes "i < length Xs"
  shows "node_free (Xs[i := Y]) + free_ms (Xs ! i) = node_free Xs + free_ms Y"
  using assms node_free_split [of i Xs] node_free_split [of i "Xs[i := Y]"]
  by (simp add: ac_simps)

lemma free_ms_in_node_free: "X \<in> set Xs \<Longrightarrow> count (free_ms X) q \<le> count (node_free Xs) q"
  unfolding node_free_def by (induction Xs) auto

lemma node_free_disjoint:
  assumes "\<forall>q. count (node_free Xs) q \<le> 1" and "i < length Xs" and "j < length Xs" and "i \<noteq> j"
  shows "set_mset (free_ms (Xs ! j)) \<inter> set_mset (free_ms (Xs ! i)) = {}"
proof -
  let ?R = "take i Xs @ drop (Suc i) Xs"
  have "Xs ! j \<in> set (take i Xs) \<union> set (drop (Suc i) Xs)"
  proof (cases "j < i")
    case True
    then have "take i Xs ! j = Xs ! j" "j < length (take i Xs)" using assms(3) by auto
    then show ?thesis by (metis UnI1 nth_mem)
  next
    case False
    then have "drop (Suc i) Xs ! (j - Suc i) = Xs ! j" "j - Suc i < length (drop (Suc i) Xs)"
      using assms(2-4) by auto
    then show ?thesis by (metis UnI2 nth_mem)
  qed
  then have R: "Xs ! j \<in> set ?R" by simp
  have "count (free_ms (Xs ! i)) q + count (free_ms (Xs ! j)) q \<le> 1" for q
  proof -
    have "count (free_ms (Xs ! i)) q + count (node_free ?R) q \<le> 1"
      using assms(1) node_free_split [OF assms(2)] by (metis count_union)
    then show ?thesis using free_ms_in_node_free [OF R, of q] by linarith
  qed
  moreover have "1 \<le> count M q" if "q \<in># M" for M and q :: nat using that by simp
  ultimately have "\<not> (q \<in># free_ms (Xs ! i) \<and> q \<in># free_ms (Xs ! j))" for q
    by (meson add_mono not_one_le_zero le_trans numeral_le_one_iff one_add_one nat_le_linear
        add_le_same_cancel1)
  then show ?thesis by blast
qed

lemma node_inv_update:
  assumes inv: "node_inv n Xs" and i: "i < length Xs" and same: "node_same n n1"
    and rep: "zone_rep z1 n1 Y" and ms: "free_ms (Xs ! i) = free_ms Y + B"
    and t: "only_touches (set_mset (free_ms (Xs ! i))) n n1"
  shows "node_inv (n1\<lparr>node_zones := (node_zones n1)[i := Some z1]\<rparr>) (Xs[i := Y])"
    and "node_free Xs = node_free (Xs[i := Y]) + B"
proof -
  have zones: "node_zones n1 = node_zones n" and len: "length (node_zones n) = length Xs"
    and le: "\<forall>q. count (node_free Xs) q \<le> 1"
    using same inv by (auto simp: node_same_def node_inv_def)
  show free: "node_free Xs = node_free (Xs[i := Y]) + B"
    using node_free_update [OF i, of Y] ms by (simp add: ac_simps)
  have zone: "case node_zones n ! j of None \<Rightarrow> Xs ! j = (\<lambda>_. []) | Some z \<Rightarrow> zone_rep z n1 (Xs ! j)"
    if j: "j < length Xs" "j \<noteq> i" for j
  proof -
    have "set_mset (free_ms (Xs ! j)) \<inter> set_mset (free_ms (Xs ! i)) = {}"
      by (rule node_free_disjoint [OF le i j(1)]) (use j in simp)
    moreover have "case node_zones n ! j of None \<Rightarrow> Xs ! j = (\<lambda>_. []) | Some z \<Rightarrow> zone_rep z n (Xs ! j)"
      using inv j by (simp add: node_inv_def)
    ultimately show ?thesis
      using t by (auto simp: only_touches_def zone_rep_def split: option.splits)
  qed
  have "count (node_free (Xs[i := Y])) q \<le> 1" for q
    using le free by (metis add_leD1 count_union)
  moreover have "node_wf n1" using same inv by (simp add: node_same_def node_inv_def)
  ultimately show "node_inv (n1\<lparr>node_zones := (node_zones n1)[i := Some z1]\<rparr>) (Xs[i := Y])"
    using zone [THEN option.split [of "\<lambda>b. b", THEN iffD1]] rep i len zones
    by (auto simp: node_inv_def node_wf_def nth_list_update split: option.splits)
qed

subsection \<open>Allocation on the node\<close>

text \<open>
  What an allocation of \<open>2 ^ order\<close> pages from zone \<open>i\<close> does to the free pages of the node.
\<close>
lemma allocate_pages_zone_ok:
  assumes n: "mem_node a = Some n" and inv: "node_inv n Xs" and i: "zone_present n i"
    and order: "order \<le> MAXORDER"
  shows "\<exists>page a' n' Xs'. allocate_pages_zone a i order = Some (page, a') \<and>
           mem_node a' = Some n' \<and> node_inv n' Xs' \<and> (\<forall>j. zone_present n j \<longrightarrow> zone_present n' j) \<and>
           (case page of
              None \<Rightarrow> node_free Xs' = node_free Xs \<and> free_page_num a' = free_page_num a \<and>
                (\<forall>k. order \<le> k \<and> k \<le> MAXORDER \<longrightarrow> (Xs ! i) k = [])
            | Some p \<Rightarrow> node_free Xs = node_free Xs' + blk p order \<and>
                free_page_num a' = free_page_num a - push_bit order 1)"
proof -
  obtain z where z: "node_zones n ! i = Some z" and len: "i < length (node_zones n)"
    using i by (auto simp: zone_present_def)
  have rep: "zone_rep z n (Xs ! i)" and wf: "node_wf n" and iX: "i < length Xs"
    using inv z len by (fastforce simp: node_inv_def)+
  note ok = rmqueue_smallest_ok [OF rep wf, where order = order and fpn = "free_page_num a"]
  show ?thesis
  proof (cases "List.find (\<lambda>k. (Xs ! i) k \<noteq> []) [order..<Suc MAXORDER]")
    case None
    then have "rmqueue_page_smallest (free_page_num a) n z order = Some (None, free_page_num a, n, z)"
      using ok by (simp only: option.case)
    then have "allocate_pages_zone a i order = Some (None, a)"
      using n z len by (simp add: allocate_pages_zone_def list_update_same_conv)
    moreover have "\<forall>k. order \<le> k \<and> k \<le> MAXORDER \<longrightarrow> (Xs ! i) k = []"
      using None by (auto simp: find_None_iff)
    ultimately show ?thesis using n inv by auto
  next
    case (Some k)
    let ?p = "hd ((Xs ! i) k)"
    obtain n1 z1 Y where rm: "rmqueue_page_smallest (free_page_num a) n z order =
        Some (Some ?p, free_page_num a - push_bit order 1, n1, z1)"
      and rep1: "zone_rep z1 n1 Y" and ms: "free_ms (Xs ! i) = free_ms Y + blk ?p order"
      and same: "node_same n n1" and t: "only_touches (set_mset (free_ms (Xs ! i))) n n1"
      using ok unfolding Some option.case by blast
    note upd = node_inv_update [OF inv iX same rep1 ms t]
    have "allocate_pages_zone a i order = Some (Some ?p,
        a\<lparr>free_page_num := free_page_num a - push_bit order 1,
          mem_node := Some (n1\<lparr>node_zones := (node_zones n1)[i := Some z1]\<rparr>)\<rparr>)"
      using n z len rm by (simp add: allocate_pages_zone_def)
    moreover have "zone_present (n1\<lparr>node_zones := (node_zones n1)[i := Some z1]\<rparr>) j" if "zone_present n j" for j
      using that same by (cases "i = j") (auto simp: zone_present_def node_same_def)
    ultimately show ?thesis using upd by auto
  qed
qed

lemma gfp_zone_present:
  assumes "mem_node a = Some n" and "zone_present n 2"
  obtains i where "gfp_zone a flag = Some (Some i)" and "zone_present n i"
proof -
  have "\<exists>i. gfp_zone a flag = Some (Some i) \<and> zone_present n i"
    using assms by (auto simp: gfp_zone_def)
  then show thesis using that by blast
qed

lemma allocate_pages_ok:
  assumes "mem_node a = Some n" and "node_inv n Xs" and "zone_present n 2"
  shows "\<exists>page a' n' Xs'. allocate_pages a gfp_mask order = Some (page, a') \<and>
           mem_node a' = Some n' \<and> node_inv n' Xs' \<and> zone_present n' 2 \<and>
           (case page of
              None \<Rightarrow> node_free Xs' = node_free Xs \<and> free_page_num a' = free_page_num a
            | Some p \<Rightarrow> order < MAXORDER \<and> node_free Xs = node_free Xs' + blk p order \<and>
                free_page_num a' = free_page_num a - push_bit order 1)"
proof (cases "order < MAXORDER")
  case False
  then show ?thesis using assms by (auto simp: allocate_pages_def)
next
  case True
  obtain i where i: "gfp_zone a gfp_mask = Some (Some i)" "zone_present n i"
    using gfp_zone_present [OF assms(1,3)] .
  have "allocate_pages a gfp_mask order = allocate_pages_zone a i order"
    using True i by (simp add: allocate_pages_def)
  then show ?thesis
    using allocate_pages_zone_ok [OF assms(1,2) i(2), of order] True assms(3)
    by (fastforce split: option.splits)
qed

subsection \<open>Freeing\<close>

lemma nat_xor_less: "a < 2 ^ m \<Longrightarrow> b < 2 ^ m \<Longrightarrow> a XOR b < (2 :: nat) ^ m"
  by (metis take_bit_nat_eq_self_iff take_bit_xor)

lemma nat_and_less:
  assumes "a < 2 ^ m"
  shows "a AND b < (2 :: nat) ^ m"
proof -
  have "take_bit m (a AND b) = take_bit m a AND b" by (simp add: take_bit_eq_mask ac_simps)
  also have "take_bit m a = a" using assms by (simp add: take_bit_nat_eq_self_iff)
  finally show ?thesis by (simp only: take_bit_nat_eq_self_iff)
qed

text \<open>A step of the freeing path: descriptors may be created and written, no list changes.\<close>
definition descr_step :: "MemoryNode \<Rightarrow> MemoryNode \<Rightarrow> bool" where
  "descr_step n n' \<longleftrightarrow>
     node_page_num n' = node_page_num n \<and> node_zones n' = node_zones n \<and>
     (\<forall>L X. lists_rep L n X \<longrightarrow> lists_rep L n' X)"

lemma descr_step_refl [simp]: "descr_step n n"
  by (simp add: descr_step_def)

lemma descr_step_trans: "descr_step n n1 \<Longrightarrow> descr_step n1 n2 \<Longrightarrow> descr_step n n2"
  by (simp add: descr_step_def)

lemma get_page_ptr_descr: "get_page_ptr n p = Some n' \<Longrightarrow> descr_step n n'"
  using get_page_ptr_same lists_rep_get_page_ptr by (fastforce simp: descr_step_def node_same_def)

lemma page_upd_descr:
  assumes "page_upd f n p = Some n'"
  shows "descr_step n n'"
proof -
  have "page_links n' = page_links n" and "dom (node_mem_map n') = dom (node_mem_map n)"
    and "node_page_num n' = node_page_num n" and "node_zones n' = node_zones n"
    using assms by (auto simp: page_upd_def split: option.splits if_splits)
  then show ?thesis using lists_rep_cong [of n' n] by (simp add: descr_step_def)
qed

lemma page_write_descr:
  assumes "p < node_page_num n"
  shows "\<exists>n'. (do { n1 \<leftarrow> get_page_ptr n p; page_upd f n1 p }) = Some n' \<and> descr_step n n'"
proof -
  obtain n1 where n1: "get_page_ptr n p = Some n1" "p \<in> dom (node_mem_map n1)"
    using get_page_ptr_ok [OF assms] by blast
  then obtain n2 where "page_upd f n1 p = Some n2" by (auto simp: page_upd_def)
  with n1 show ?thesis
    using get_page_ptr_descr page_upd_descr descr_step_trans by (metis bind.bind_lunit)
qed

lemma read_page_descr:
  assumes "p < node_page_num n"
  shows "\<exists>pg n'. read_page n p = Some (pg, n') \<and> descr_step n n'"
proof -
  obtain n1 where n1: "get_page_ptr n p = Some n1" "p \<in> dom (node_mem_map n1)"
    using get_page_ptr_ok [OF assms] by blast
  then show ?thesis using get_page_ptr_descr [OF n1(1)] by (auto simp: read_page_def)
qed

lemma page_is_buddy_descr:
  assumes "p < node_page_num n" and "b < node_page_num n"
  shows "\<exists>r n'. page_is_buddy n p b order = Some (r, n') \<and> descr_step n n'"
proof -
  obtain pb n1 where 1: "read_page n b = Some (pb, n1)" "descr_step n n1"
    using read_page_descr [OF assms(2)] by blast
  then obtain pp n2 where 2: "read_page n1 p = Some (pp, n2)" "descr_step n1 n2"
    using read_page_descr [of p n1] assms by (auto simp: descr_step_def)
  then obtain pb2 n3 where 3: "read_page n2 b = Some (pb2, n3)" "descr_step n2 n3"
    using read_page_descr [of b n2] 1 assms by (auto simp: descr_step_def)
  show ?thesis
    using 1 2 3 by (auto simp: page_is_buddy_def intro: descr_step_trans)
qed

lemma free_merge_descr:
  assumes "page_id < 2 ^ MAXORDER" and "page_no < node_page_num n" and "2 ^ MAXORDER \<le> node_page_num n"
    and "order \<le> MAXORDER"
  shows "\<exists>n' z' q k. free_merge n z page_no page_id order = Some (n', z', q, k) \<and>
           descr_step n n' \<and> zone_lists z' = zone_lists z \<and> free_pages z' = free_pages z \<and>
           q < 2 ^ MAXORDER \<and> k \<le> MAXORDER"
  using assms
proof (induction n z page_no page_id order rule: free_merge.induct)
  case (1 n z page_no page_id order)
  show ?case
  proof (cases "order < MAXORDER - 1")
    case False
    with 1(2-) show ?thesis by (auto simp: free_merge.simps [of n z page_no page_id order])
  next
    case True
    let ?b = "find_buddy_index page_id order"
    have b: "?b < 2 ^ MAXORDER"
      unfolding find_buddy_index_def by (rule nat_xor_less [OF 1(2)]) (use True in simp)
    then obtain r n1 where 2: "page_is_buddy n page_no ?b order = Some (r, n1)" "descr_step n n1"
      using page_is_buddy_descr [of page_no n ?b order] 1(3,4) by auto
    show ?thesis
    proof (cases r)
      case False
      with True 1(2-) 2 show ?thesis
        by (auto simp: Let_def free_merge.simps [of n z page_no page_id order])
    next
      case r: True
      have "?b < node_page_num n1" using b 1(4) 2(2) by (simp add: descr_step_def)
      then obtain n2 where 3: "clear_page_buddy n1 ?b = Some n2" "descr_step n1 n2"
        unfolding clear_page_buddy_def using page_write_descr by metis
      then have "?b < node_page_num n2" using \<open>?b < node_page_num n1\<close> by (simp add: descr_step_def)
      then obtain n3 where 4: "set_page_private n2 ?b 0 = Some n3" "descr_step n2 n3"
        unfolding set_page_private_def using page_write_descr by metis
      have n3: "descr_step n n3" using 2 3 4 by (blast intro: descr_step_trans)
      let ?z = "z\<lparr>free_area := (free_area z)(order := (free_area z order)
          \<lparr>nr_free := nr_free (free_area z order) - 1\<rparr>)\<rparr>"
      have lists: "zone_lists ?z = zone_lists z" by auto
      have less: "?b AND page_no < 2 ^ MAXORDER" using b by (rule nat_and_less)
      have pre: "page_no < node_page_num n3" "2 ^ MAXORDER \<le> node_page_num n3" "Suc order \<le> MAXORDER"
        using n3 1(3,4) True by (simp_all add: descr_step_def)
      have "\<not> \<not> r" using r by simp
      from 1(1) [OF True refl 2(1) refl this refl refl 3(1) 4(1) less pre] obtain n' z' q k where "free_merge n3 ?z page_no (?b AND page_no) (Suc order) = Some (n', z', q, k)"
        and "descr_step n3 n'" and "zone_lists z' = zone_lists ?z" and "free_pages z' = free_pages ?z"
        and "q < 2 ^ MAXORDER" and "k \<le> MAXORDER"
        by blast
      moreover from this(1) have "free_merge n z page_no page_id order = Some (n', z', q, k)"
        using True 2(1) 3(1) 4(1) r by (subst free_merge.simps) (simp add: Let_def)
      ultimately show ?thesis using n3 lists by (auto intro: descr_step_trans)
    qed
  qed
qed

lemma free_one_page_zone_descr:
  assumes "page_no < node_page_num n" and "2 ^ MAXORDER \<le> node_page_num n" and "order \<le> MAXORDER"
  shows "\<exists>n' z'. free_one_page_zone n z page_no order = Some (n', z') \<and>
           descr_step n n' \<and> zone_lists z' = zone_lists z \<and> free_pages z' = free_pages z"
proof -
  have "page_no AND (2 ^ MAXORDER - 1) < 2 ^ MAXORDER"
    by (subst and.commute) (rule nat_and_less, simp)
  from free_merge_descr [OF this assms] obtain n1 z1 q k
    where m: "free_merge n z page_no (page_no AND (2 ^ MAXORDER - 1)) order = Some (n1, z1, q, k)"
      and s: "descr_step n n1" "zone_lists z1 = zone_lists z" "free_pages z1 = free_pages z"
      and q: "q < 2 ^ MAXORDER" by blast
  have "q < node_page_num n1" using q s(1) assms(2) by (simp add: descr_step_def)
  from page_write_descr [OF this] obtain n2
    where n2: "set_page_private n1 q k = Some n2" "descr_step n1 n2"
    unfolding set_page_private_def by metis
  then have "q < node_page_num n2" using \<open>q < node_page_num n1\<close> by (simp add: descr_step_def)
  from page_write_descr [OF this] obtain n3
    where n3: "set_page_buddy n2 q = Some n3" "descr_step n2 n3"
    unfolding set_page_buddy_def by metis
  let ?z = "z1\<lparr>free_area := (free_area z1)(k := (free_area z1 k)\<lparr>nr_free := nr_free (free_area z1 k) + 1\<rparr>)\<rparr>"
  have "free_one_page_zone n z page_no order = Some (n3, ?z)"
    using m n2(1) n3(1) by (simp add: free_one_page_zone_def set_page_order_def Let_def)
  moreover have "zone_lists ?z = zone_lists z" using s(2) by (auto simp: fun_eq_iff)
  moreover have "descr_step n n3" using s(1) n2(2) n3(2) by (blast intro: descr_step_trans)
  ultimately show ?thesis using s(3) by auto
qed

subsection \<open>Properties\<close>

text \<open>
  A small instance for the examples: one normal zone, one free block of two pages at page 4.
\<close>
definition pair_lists :: "nat \<Rightarrow> nat list" where
  "pair_lists = (\<lambda>_. [])(1 := [4])"

definition pair_zone :: Zone where
  "pair_zone = sample_zone\<lparr>free_area := (\<lambda>_. \<lparr>block_list = FlexiList, nr_free = 0\<rparr>)
     (1 := \<lparr>block_list = \<lparr>fl_head = Some 4, fl_tail = Some 4, fl_size = 1\<rparr>, nr_free = 1\<rparr>)\<rparr>"

definition pair_node :: MemoryNode where
  "pair_node = sample_node\<lparr>node_mem_map := [4 \<mapsto> Page sample_page 4],
     node_zones := [None, None, Some pair_zone, None]\<rparr>"

definition pair_allocator :: BuddyAllocator where
  "pair_allocator = \<lparr>total_memsize = 0x9000, ba_mode = LongMode_Normal, free_page_num = 9,
     mem_node = Some pair_node\<rparr>"

lemma free_ms_pair: "free_ms pair_lists = blk 4 1"
  using free_ms_push [of 1 "\<lambda>_. []" 4]
  by (simp add: pair_lists_def free_ms_empty MAXORDER_def)

lemma zone_rep_pair: "zone_rep pair_zone pair_node pair_lists"
proof -
  have "fq.rep_array (\<lambda>_. None) (Suc MAXORDER) (zone_lists pair_zone) pair_lists"
    unfolding fq.rep_array_def
    by (auto simp: pair_zone_def pair_lists_def flexi_rep_def FlexiList_def)
  then show ?thesis
    unfolding zone_rep_def lists_rep_def free_ms_pair
    by (auto simp: pair_lists_def pair_node_def pair_zone_def sample_node_def sample_zone_def
        count_blk)
qed

lemma node_inv_pair: "node_inv pair_node [\<lambda>_. [], \<lambda>_. [], pair_lists, \<lambda>_. []]"
proof -
  have zones: "node_zones pair_node = [None, None, Some pair_zone, None]"
    and wf: "node_wf pair_node"
    by (auto simp: pair_node_def node_wf_def Page_def)
  have "node_free [\<lambda>_. [], \<lambda>_. [], pair_lists, \<lambda>_. []] = blk 4 1"
    by (simp add: node_free_def free_ms_pair free_ms_empty)
  then show ?thesis
    using zone_rep_pair wf
    by (auto simp: node_inv_def zones count_blk nth_Cons' less_Suc_eq_0_disj)
qed

lemma node_free_pair: "node_free [\<lambda>_. [], \<lambda>_. [], pair_lists, \<lambda>_. []] = blk 4 1"
  by (simp add: node_free_def free_ms_pair free_ms_empty)

lemma pair_allocator_simps:
  "mem_node pair_allocator = Some pair_node" "free_page_num pair_allocator = 9"
  "zone_present pair_node 2"
  by (simp_all add: pair_allocator_def zone_present_def pair_node_def)

text \<open>
  C11. Allocating pages conserves them and never fails an assertion: when the node's lists are well
  formed and it has a normal zone, a call returns either no page, and then nothing has changed,
  or the first page of a block of \<open>2 ^ order\<close> pages that were all free and none of which is free
  afterwards, while every other page stays free; the invariant holds again, over all zones.
\<close>
theorem allocate_pages_conserves:
  assumes "mem_node a = Some n" and "node_inv n Xs" and "zone_present n 2"
  shows "\<exists>page a' n' Xs'. allocate_pages a gfp_mask order = Some (page, a') \<and>
           mem_node a' = Some n' \<and> node_inv n' Xs' \<and>
           (case page of
              None \<Rightarrow> node_free Xs' = node_free Xs \<and> free_page_num a' = free_page_num a
            | Some p \<Rightarrow> order < MAXORDER \<and> node_free Xs = node_free Xs' + blk p order \<and>
                free_page_num a' = free_page_num a - push_bit order 1)"
  using allocate_pages_ok [OF assms, of gfp_mask order] by blast

theorem allocate_pages_conserves_witness:
  "\<exists>page a' n' Xs'. allocate_pages pair_allocator 0 0 = Some (page, a') \<and>
     mem_node a' = Some n' \<and> node_inv n' Xs' \<and>
     (case page of None \<Rightarrow> node_free Xs' = blk 4 1 \<and> free_page_num a' = 9
      | Some p \<Rightarrow> 0 < MAXORDER \<and> blk 4 1 = node_free Xs' + blk p 0 \<and> free_page_num a' = 9 - push_bit 0 1)"
  using allocate_pages_conserves [OF pair_allocator_simps(1) node_inv_pair pair_allocator_simps(3), of 0 0]
  unfolding pair_allocator_simps node_free_pair .

text \<open>A client that makes a sequence of requests and keeps the blocks it gets.\<close>
primrec alloc_seq ::
  "(32 word \<times> nat) list \<Rightarrow> BuddyAllocator \<Rightarrow> ((nat \<times> nat) list \<times> BuddyAllocator) option" where
  "alloc_seq [] a = Some ([], a)"
| "alloc_seq (r # rs) a = do {
     (page, a1) \<leftarrow> allocate_pages a (fst r) (snd r);
     (bs, a2) \<leftarrow> alloc_seq rs a1;
     Some (case page of None \<Rightarrow> bs | Some p \<Rightarrow> (p, snd r) # bs, a2)
   }"

lemma alloc_seq_ok:
  assumes "mem_node a = Some n" and "node_inv n Xs" and "zone_present n 2"
  shows "\<exists>bs a' n' Xs'. alloc_seq rs a = Some (bs, a') \<and> mem_node a' = Some n' \<and> node_inv n' Xs' \<and>
           node_free Xs = node_free Xs' + sum_list (map (\<lambda>(p, order). blk p order) bs)"
  using assms
proof (induction rs arbitrary: a n Xs)
  case (Cons r rs)
  from allocate_pages_ok [OF Cons.prems, of "fst r" "snd r"] obtain page a1 n1 Xs1
    where 1: "allocate_pages a (fst r) (snd r) = Some (page, a1)" "mem_node a1 = Some n1"
      "node_inv n1 Xs1" "zone_present n1 2"
      and c: "case page of
          None \<Rightarrow> node_free Xs1 = node_free Xs \<and> free_page_num a1 = free_page_num a
        | Some p \<Rightarrow> snd r < MAXORDER \<and> node_free Xs = node_free Xs1 + blk p (snd r) \<and>
            free_page_num a1 = free_page_num a - push_bit (snd r) 1"
    by blast
  from c have f: "node_free Xs = node_free Xs1 + (case page of None \<Rightarrow> {#} | Some p \<Rightarrow> blk p (snd r))"
    by (cases page) auto
  from Cons.IH [OF 1(2-4)] obtain bs a2 n2 Xs2
    where 2: "alloc_seq rs a1 = Some (bs, a2)" "mem_node a2 = Some n2" "node_inv n2 Xs2"
      and g: "node_free Xs1 = node_free Xs2 + sum_list (map (\<lambda>(p, order). blk p order) bs)" by blast
  let ?bs = "case page of None \<Rightarrow> bs | Some p \<Rightarrow> (p, snd r) # bs"
  have "alloc_seq (r # rs) a = Some (?bs, a2)" using 1(1) 2(1) by simp
  moreover have "node_free Xs = node_free Xs2 + sum_list (map (\<lambda>(p, order). blk p order) ?bs)"
    unfolding f g by (cases page) (simp_all add: ac_simps)
  ultimately show ?case using 2(2,3) by blast
qed auto

text \<open>
  C15. No page is handed out twice: for every sequence of allocation requests on a well-formed node,
  no page lies in two of the returned blocks, and no page of a returned block is still free.
\<close>
theorem alloc_seq_no_double_allocation:
  assumes "mem_node a = Some n" and "node_inv n Xs" and "zone_present n 2"
  shows "\<exists>bs a' n' Xs'. alloc_seq rs a = Some (bs, a') \<and> mem_node a' = Some n' \<and> node_inv n' Xs' \<and>
           (\<forall>q. count (sum_list (map (\<lambda>(p, order). blk p order) bs)) q + count (node_free Xs') q \<le> 1)"
proof -
  from alloc_seq_ok [OF assms, of rs] obtain bs a' n' Xs'
    where r: "alloc_seq rs a = Some (bs, a')" "mem_node a' = Some n'" "node_inv n' Xs'"
      and f: "node_free Xs = node_free Xs' + sum_list (map (\<lambda>(p, order). blk p order) bs)" by blast
  have "count (sum_list (map (\<lambda>(p, order). blk p order) bs)) q + count (node_free Xs') q \<le> 1" for q
  proof -
    have "count (node_free Xs) q \<le> 1" using assms(2) by (simp add: node_inv_def)
    then show ?thesis unfolding f by (simp add: add.commute)
  qed
  with r show ?thesis by blast
qed

theorem alloc_seq_no_double_allocation_witness:
  "\<exists>bs a' n' Xs'. alloc_seq [(0, 0), (0, 0), (0, 0)] pair_allocator = Some (bs, a') \<and>
     mem_node a' = Some n' \<and> node_inv n' Xs' \<and>
     (\<forall>q. count (sum_list (map (\<lambda>(p, order). blk p order) bs)) q + count (node_free Xs') q \<le> 1)"
  using alloc_seq_no_double_allocation [OF pair_allocator_simps(1) node_inv_pair pair_allocator_simps(3)] .

text \<open>
  Allocation from a zone is best fit: it takes the first block of the smallest order, from the
  requested one up, that has a block at all, splits it down to the requested order putting the
  upper half of each order at the end of its list, and returns no page only if none of these
  lists has a block.
\<close>
theorem rmqueue_takes_smallest_order:
  assumes "zone_rep z n X" and "node_wf n"
  shows "case List.find (\<lambda>k. X k \<noteq> []) [order..<Suc MAXORDER] of
           None \<Rightarrow> rmqueue_page_smallest fpn n z order = Some (None, fpn, n, z)
         | Some k \<Rightarrow> \<exists>fpn' n' z' X'.
             rmqueue_page_smallest fpn n z order = Some (Some (hd (X k)), fpn', n', z') \<and>
             zone_rep z' n' X' \<and>
             (\<forall>j. X' j = (if order \<le> j \<and> j < k then X j @ [hd (X k) + 2 ^ j]
                          else if j = k then tl (X k) else X j))"
  using rmqueue_smallest_ok [OF assms, of fpn order]
  by (cases "List.find (\<lambda>k. X k \<noteq> []) [order..<Suc MAXORDER]") (simp_all only: option.case, blast)

lemma find_pair: "List.find (\<lambda>k. pair_lists k \<noteq> []) [0..<Suc MAXORDER] = Some 1"
  by (simp add: pair_lists_def MAXORDER_def upt_rec)

lemma pair_lists_at: "pair_lists 0 = []" "pair_lists 1 = [4]"
  by (simp_all add: pair_lists_def)

theorem rmqueue_takes_smallest_order_witness:
  "\<exists>fpn' n' z' X'. rmqueue_page_smallest 9 pair_node pair_zone 0 = Some (Some 4, fpn', n', z') \<and>
     zone_rep z' n' X' \<and> X' 0 = [5] \<and> X' 1 = []"
proof -
  have "node_wf pair_node" using node_inv_pair by (simp add: node_inv_def)
  from rmqueue_takes_smallest_order [OF zone_rep_pair this, of 9 0]
  obtain fpn' n' z' X' where "rmqueue_page_smallest 9 pair_node pair_zone 0 = Some (Some 4, fpn', n', z')"
    and "zone_rep z' n' X'" and X': "\<forall>j. X' j = (if 0 \<le> j \<and> j < 1 then pair_lists j @ [4 + 2 ^ j]
        else if j = 1 then [] else pair_lists j)"
    unfolding find_pair option.case pair_lists_at list.sel by blast
  moreover have "X' 0 = [5]" "X' 1 = []" using X' by (simp_all add: pair_lists_at)
  ultimately show ?thesis by blast
qed

text \<open>
  C26. The zone's own count of free pages does not follow the allocations: the code subtracts one
  shifted right by the order, so a block of two or more pages leaves the count unchanged although
  \<open>2 ^ order\<close> pages have left the free lists.
\<close>
theorem zone_free_pages_not_reduced:
  assumes "zone_rep z n X" and "node_wf n" and "0 < order"
    and "rmqueue_page_smallest fpn n z order = Some (Some p, fpn', n', z')"
  shows "free_pages z' = free_pages z \<and> fpn' = fpn - 2 ^ order \<and>
         (\<exists>X'. zone_rep z' n' X' \<and> size (free_ms X) = size (free_ms X') + 2 ^ order)"
proof -
  note ok = rmqueue_smallest_ok [OF assms(1,2), of fpn order]
  obtain k where k: "List.find (\<lambda>k. X k \<noteq> []) [order..<Suc MAXORDER] = Some k"
    using ok assms(4) by (cases "List.find (\<lambda>k. X k \<noteq> []) [order..<Suc MAXORDER]") auto
  have "size (blk q order) = 2 ^ order" for q by (simp add: blk_def)
  then show ?thesis
    using ok assms(3,4) unfolding k option.case by (auto simp: push_bit_eq_mult)
qed

theorem zone_free_pages_not_reduced_witness:
  "\<exists>fpn' n' z'. rmqueue_page_smallest 9 pair_node pair_zone 1 = Some (Some 4, fpn', n', z') \<and>
     free_pages z' = 5 \<and> fpn' = 7"
proof -
  have wf: "node_wf pair_node" using node_inv_pair by (simp add: node_inv_def)
  have "List.find (\<lambda>k. pair_lists k \<noteq> []) [1..<Suc MAXORDER] = Some 1"
    by (simp add: pair_lists_def MAXORDER_def upt_rec)
  then obtain fpn' n' z' where r: "rmqueue_page_smallest 9 pair_node pair_zone 1 = Some (Some 4, fpn', n', z')"
    using rmqueue_smallest_ok [OF zone_rep_pair wf, of 9 1] by (auto simp: pair_lists_def)
  from zone_free_pages_not_reduced [OF zone_rep_pair wf _ r] r show ?thesis
    by (auto simp: pair_zone_def sample_zone_def)
qed



lemma nat_xor_1: "(m :: nat) XOR 1 = 2 * (m div 2) + of_bool (even m)"
  by (subst xor_nat_rec) simp

lemma nat_and_xor_1: "(m :: nat) AND (m XOR 1) = 2 * (m div 2)"
  unfolding nat_xor_1 by (subst and_nat_rec) simp

text \<open>
  C20. Buddies come in pairs: the buddy of the buddy of a page is the page; for a page aligned to
  the order the two blocks are adjacent, and together they form the aligned block of the next
  order that starts at the bitwise conjunction of the two page numbers.
\<close>
theorem buddy_pairs:
  assumes "2 ^ order dvd p"
  shows "find_buddy_index (find_buddy_index p order) order = p \<and>
         find_buddy_index p order = (if even (p div 2 ^ order) then p + 2 ^ order else p - 2 ^ order) \<and>
         blk p order + blk (find_buddy_index p order) order =
           blk (find_buddy_index p order AND p) (Suc order)"
proof -
  let ?b = "p XOR 2 ^ order"
  obtain m where m: "p = 2 ^ order * m" using assms by (rule dvdE)
  have p: "p = push_bit order m" by (simp add: m push_bit_eq_mult)
  have flip: "?b = push_bit order (m XOR 1)"
    unfolding p push_bit_xor by (simp add: push_bit_eq_mult)
  have eq: "?b = (if even (p div 2 ^ order) then p + 2 ^ order else p - 2 ^ order)"
    unfolding flip nat_xor_1 push_bit_eq_mult by (auto simp: m algebra_simps elim!: oddE)
  have "?b AND p = push_bit order (m AND (m XOR 1))"
    unfolding flip by (simp add: p push_bit_and and.commute)
  also have "\<dots> = (if even m then p else p - 2 ^ order)"
    unfolding nat_and_xor_1 push_bit_eq_mult m by (auto simp: algebra_simps elim!: oddE)
  finally have low: "?b AND p = (if even m then p else p - 2 ^ order)" .
  have "blk p order + blk ?b order = blk (?b AND p) (Suc order)"
    unfolding low unfolding blk_halves eq by (auto simp: m algebra_simps elim!: oddE)
  moreover have "?b XOR 2 ^ order = p" by (simp add: xor.assoc)
  ultimately show ?thesis using eq by (simp only: find_buddy_index_def)
qed

theorem buddy_pairs_witness:
  "find_buddy_index (find_buddy_index 12 2) 2 = 12 \<and>
   blk 12 2 + blk (find_buddy_index 12 2) 2 = blk (find_buddy_index 12 2 AND 12) (Suc 2)"
proof -
  have "(2 :: nat) ^ 2 dvd 12" by simp
  from buddy_pairs [OF this] show ?thesis by blast
qed

text \<open>
  C27. The per-CPU cache hands out the same page again and again: with a cached page and no refill
  due, \<^verbatim>\<open>buffered_rmqueue\<close> returns the first page of the cache and decrements its count but leaves the page in the
  list, so the next call of the same kind returns that page a second time.
\<close>
theorem buffered_rmqueue_repeats_page:
  assumes "get_cpu_pages z cpu (gfp_mask AND GFP_COLD \<noteq> 0) = Some pps" and "page_list pps = p # ps"
    and "pcp_low pps + 1 < pcp_count pps" and "pcp_low pps < pcp_low pps + 1"
  shows "\<exists>z1 z2. buffered_rmqueue fpn n gfp_mask z 0 cpu = Some (Some p, fpn, n, z1) \<and>
           buffered_rmqueue fpn n gfp_mask z1 0 cpu = Some (Some p, fpn, n, z2)"
proof -
  let ?cold = "gfp_mask AND GFP_COLD \<noteq> 0"
  let ?pps1 = "pps\<lparr>pcp_count := pcp_count pps - 1\<rparr>"
  let ?z1 = "put_cpu_pages z cpu ?cold ?pps1"
  have gt: "pcp_low pps < pcp_count pps" "pcp_low pps < pcp_count pps - 1"
    using assms(3,4) by unat_arith+
  then have le: "\<not> pcp_count pps \<le> pcp_low pps" "\<not> pcp_count pps - 1 \<le> pcp_low pps" by simp_all
  have 1: "buffered_rmqueue fpn n gfp_mask z 0 cpu = Some (Some p, fpn, n, ?z1)"
    using assms(1,2) le by (simp add: buffered_rmqueue_def refill_cpu_pages_def Let_def)
  have "get_cpu_pages ?z1 cpu ?cold = Some ?pps1"
    using assms(1) by (auto simp: get_cpu_pages_def put_cpu_pages_def split: if_splits)
  then have "buffered_rmqueue fpn n gfp_mask ?z1 0 cpu =
      Some (Some p, fpn, n, put_cpu_pages ?z1 cpu ?cold (?pps1\<lparr>pcp_count := pcp_count ?pps1 - 1\<rparr>))"
    using assms(2) le by (simp add: buffered_rmqueue_def refill_cpu_pages_def Let_def)
  with 1 show ?thesis by blast
qed

theorem buffered_rmqueue_repeats_page_witness:
  "\<exists>z1 z2. buffered_rmqueue 9 sample_node 0
       (sample_zone\<lparr>page_set := [(sample_pcp\<lparr>pcp_count := 3, page_list := [6, 7, 8]\<rparr>, sample_pcp)]\<rparr>) 0 0 =
       Some (Some 6, 9, sample_node, z1) \<and>
     buffered_rmqueue 9 sample_node 0 z1 0 0 = Some (Some 6, 9, sample_node, z2)"
  by (rule buffered_rmqueue_repeats_page [where pps = "sample_pcp\<lparr>pcp_count := 3, page_list := [6, 7, 8]\<rparr>"])
    (simp_all add: get_cpu_pages_def sample_pcp_def)

end
