(* ===== verification/Page_Table.thy ===== *)
theory Page_Table
  imports Buddy_Allocator Memory_Types
begin

text \<open>
  Page-table entries and tables (\<^verbatim>\<open>src/src/page-table/page_table_entry.h\<close>), and the helper
  functions on them (\<^verbatim>\<open>src/src/page-table/comm_page_table_op.h\<close>).

  The tables live in a heap from table pointers to tables; an entry points to nothing, to a page
  (by its page number, see \<open>Memory_Zone\<close>) or to a table.  The record \<open>paging\<close> is the
  state of a paging object together with what it shares with the rest of the simulator: the heap
  and the page allocator.
\<close>

subsection \<open>Entries\<close>

datatype next_level = Null | ToPage nat | ToTable nat

record BasePDTEntry =
  next_level_ptr :: next_level
  entry_bits :: "32 word"
  last_requester :: "32 word"
  page_assigned :: bool
  remapped_times :: nat

definition PTE_P :: "32 word" where "PTE_P = 0x1"
definition PTE_RW :: "32 word" where "PTE_RW = 0x2"
definition PTE_PERMISSION :: "32 word" where "PTE_PERMISSION = 0x4"
definition PTE_PWT :: "32 word" where "PTE_PWT = 0x8"
definition PTE_PCD :: "32 word" where "PTE_PCD = 0x10"
definition PTE_A :: "32 word" where "PTE_A = 0x20"
definition PTE_D :: "32 word" where "PTE_D = 0x40"
definition PTE_PS :: "32 word" where "PTE_PS = 0x80"
definition PTE_G :: "32 word" where "PTE_G = 0x100"
definition PTE_SHAR :: "32 word" where "PTE_SHAR = 0x200"
definition PTE_DC :: "32 word" where "PTE_DC = 0x400"

lemmas PTE_bits = PTE_P_def PTE_RW_def PTE_PERMISSION_def PTE_PWT_def PTE_PCD_def PTE_A_def
  PTE_D_def PTE_PS_def PTE_G_def PTE_SHAR_def PTE_DC_def

definition set_bits_e :: "32 word \<Rightarrow> BasePDTEntry \<Rightarrow> BasePDTEntry" where
  "set_bits_e b e = e\<lparr>entry_bits := entry_bits e OR b\<rparr>"

definition clear_bits_e :: "32 word \<Rightarrow> BasePDTEntry \<Rightarrow> BasePDTEntry" where
  "clear_bits_e b e = e\<lparr>entry_bits := entry_bits e AND NOT b\<rparr>"

definition test_bits_e :: "32 word \<Rightarrow> BasePDTEntry \<Rightarrow> bool" where
  "test_bits_e b e \<longleftrightarrow> entry_bits e AND b \<noteq> 0"

definition is_present :: "BasePDTEntry \<Rightarrow> bool" where "is_present = test_bits_e PTE_P"
definition read_only :: "BasePDTEntry \<Rightarrow> bool" where "read_only e = (\<not> test_bits_e PTE_RW e)"
definition can_write :: "BasePDTEntry \<Rightarrow> bool" where "can_write e = (\<not> test_bits_e PTE_RW e)"
definition user_can_access :: "BasePDTEntry \<Rightarrow> bool" where "user_can_access = test_bits_e PTE_PERMISSION"
definition page_write_through :: "BasePDTEntry \<Rightarrow> bool" where "page_write_through = test_bits_e PTE_PWT"
definition page_cache_disable :: "BasePDTEntry \<Rightarrow> bool" where "page_cache_disable = test_bits_e PTE_PCD"
definition is_accessed :: "BasePDTEntry \<Rightarrow> bool" where "is_accessed = test_bits_e PTE_A"
definition is_dirty :: "BasePDTEntry \<Rightarrow> bool" where "is_dirty = test_bits_e PTE_D"
definition is_4KB :: "BasePDTEntry \<Rightarrow> bool" where "is_4KB e = (\<not> test_bits_e PTE_PS e)"
definition is_largepage :: "BasePDTEntry \<Rightarrow> bool" where "is_largepage = test_bits_e PTE_PS"
definition is_global :: "BasePDTEntry \<Rightarrow> bool" where "is_global = test_bits_e PTE_G"
definition is_shared :: "BasePDTEntry \<Rightarrow> bool" where "is_shared = test_bits_e PTE_SHAR"
definition is_dramcached :: "BasePDTEntry \<Rightarrow> bool" where "is_dramcached = test_bits_e PTE_DC"

definition set_read_only :: "BasePDTEntry \<Rightarrow> BasePDTEntry" where "set_read_only = clear_bits_e PTE_RW"
definition set_read_write :: "BasePDTEntry \<Rightarrow> BasePDTEntry" where "set_read_write = set_bits_e PTE_RW"
definition set_supervisor :: "BasePDTEntry \<Rightarrow> BasePDTEntry" where "set_supervisor = clear_bits_e PTE_PERMISSION"
definition set_user :: "BasePDTEntry \<Rightarrow> BasePDTEntry" where "set_user = set_bits_e PTE_PERMISSION"
definition set_pwt :: "BasePDTEntry \<Rightarrow> BasePDTEntry" where "set_pwt = set_bits_e PTE_PWT"
definition set_cache_writeback :: "BasePDTEntry \<Rightarrow> BasePDTEntry" where "set_cache_writeback = clear_bits_e PTE_PWT"
definition set_uncacheable :: "BasePDTEntry \<Rightarrow> BasePDTEntry" where "set_uncacheable = set_bits_e PTE_PCD"
definition set_cacheable :: "BasePDTEntry \<Rightarrow> BasePDTEntry" where "set_cacheable = clear_bits_e PTE_PCD"
definition set_accessed :: "BasePDTEntry \<Rightarrow> BasePDTEntry" where "set_accessed = set_bits_e PTE_A"
definition set_unaccessed :: "BasePDTEntry \<Rightarrow> BasePDTEntry" where "set_unaccessed = clear_bits_e PTE_A"
definition set_dirty :: "BasePDTEntry \<Rightarrow> BasePDTEntry" where "set_dirty = set_bits_e PTE_D"
definition clear_dirty :: "BasePDTEntry \<Rightarrow> BasePDTEntry" where "clear_dirty = clear_bits_e PTE_D"
definition enable_4KB :: "BasePDTEntry \<Rightarrow> BasePDTEntry" where "enable_4KB = clear_bits_e PTE_PS"
definition enable_large_page :: "BasePDTEntry \<Rightarrow> BasePDTEntry" where "enable_large_page = set_bits_e PTE_PS"
definition set_page_global :: "BasePDTEntry \<Rightarrow> BasePDTEntry" where "set_page_global = set_bits_e PTE_G"
definition set_page_local :: "BasePDTEntry \<Rightarrow> BasePDTEntry" where "set_page_local = clear_bits_e PTE_G"
definition set_shared :: "BasePDTEntry \<Rightarrow> BasePDTEntry" where "set_shared = set_bits_e PTE_SHAR"
definition set_private :: "BasePDTEntry \<Rightarrow> BasePDTEntry" where "set_private = clear_bits_e PTE_SHAR"
definition set_dramcached :: "BasePDTEntry \<Rightarrow> BasePDTEntry" where "set_dramcached = set_bits_e PTE_DC"

lemmas entry_defs = is_present_def read_only_def can_write_def user_can_access_def
  page_write_through_def page_cache_disable_def is_accessed_def is_dirty_def is_4KB_def
  is_largepage_def is_global_def is_shared_def is_dramcached_def set_read_only_def
  set_read_write_def set_supervisor_def set_user_def set_pwt_def set_cache_writeback_def
  set_uncacheable_def set_cacheable_def set_accessed_def set_unaccessed_def set_dirty_def
  clear_dirty_def enable_4KB_def enable_large_page_def set_page_global_def set_page_local_def
  set_shared_def set_private_def set_dramcached_def
  set_bits_e_def clear_bits_e_def test_bits_e_def

text \<open>Setting and clearing bits act on the tested bits only.\<close>
lemma test_set_bits [simp]:
  "test_bits_e m (set_bits_e b e) \<longleftrightarrow> test_bits_e m e \<or> b AND m \<noteq> 0"
  by (auto simp: test_bits_e_def set_bits_e_def bit.conj_disj_distrib2 or_eq_0_iff)

lemma test_clear_bits [simp]: "b AND m = 0 \<Longrightarrow> test_bits_e m (clear_bits_e b e) \<longleftrightarrow> test_bits_e m e"
proof -
  assume a: "b AND m = 0"
  have "\<not> (bit b n \<and> bit m n)" for n using arg_cong [OF a, of "\<lambda>w. bit w n"] by (simp add: bit_and_iff)
  then have "NOT b AND m = m" by (auto intro!: bit_word_eqI simp: bit_and_iff bit_not_iff)
  then show ?thesis by (simp add: test_bits_e_def clear_bits_e_def and.assoc)
qed

lemma test_cleared [simp]: "\<not> test_bits_e b (clear_bits_e b e)"
  by (simp add: test_bits_e_def clear_bits_e_def and.assoc)

lemma set_clear_ptr [simp]:
  "next_level_ptr (set_bits_e b e) = next_level_ptr e" "next_level_ptr (clear_bits_e b e) = next_level_ptr e"
  "last_requester (set_bits_e b e) = last_requester e" "remapped_times (set_bits_e b e) = remapped_times e"
  by (simp_all add: set_bits_e_def clear_bits_e_def)

lemma test_bits_upd [simp]:
  "test_bits_e m (e\<lparr>last_requester := x\<rparr>) = test_bits_e m e"
  "test_bits_e m (e\<lparr>next_level_ptr := y\<rparr>) = test_bits_e m e"
  "test_bits_e m (e\<lparr>page_assigned := z\<rparr>) = test_bits_e m e"
  by (simp_all add: test_bits_e_def)

definition BasePDTEntry :: BasePDTEntry where
  "BasePDTEntry = set_user (set_read_write
     \<lparr>next_level_ptr = Null, entry_bits = 0, last_requester = - 1, page_assigned = False,
      remapped_times = 0\<rparr>)"

definition validate_page_entry :: "nat \<Rightarrow> BasePDTEntry \<Rightarrow> BasePDTEntry" where
  "validate_page_entry page e =
     set_private (e\<lparr>entry_bits := entry_bits e OR PTE_P, next_level_ptr := ToPage page,
                    page_assigned := True\<rparr>)"

definition validate_page_table :: "nat \<Rightarrow> BasePDTEntry \<Rightarrow> BasePDTEntry" where
  "validate_page_table t e =
     e\<lparr>entry_bits := entry_bits e OR PTE_P, next_level_ptr := ToTable t, page_assigned := True\<rparr>"

text \<open>The state of an entry after \<^verbatim>\<open>invalidate_page\<close> and after \<^verbatim>\<open>invalidate_page_table\<close>.\<close>
definition invalidated_page :: "BasePDTEntry \<Rightarrow> BasePDTEntry" where
  "invalidated_page e =
     set_private ((set_read_write (set_user (e\<lparr>entry_bits := 0\<rparr>)))
       \<lparr>next_level_ptr := Null, page_assigned := False, last_requester := - 1\<rparr>)"

definition invalidated_table :: "BasePDTEntry \<Rightarrow> BasePDTEntry" where
  "invalidated_table e =
     (set_read_write (set_user (e\<lparr>next_level_ptr := Null, entry_bits := 0\<rparr>)))\<lparr>page_assigned := False\<rparr>"

definition set_lrequester :: "32 word \<Rightarrow> BasePDTEntry \<Rightarrow> BasePDTEntry" where
  "set_lrequester req_id e =
     (let e1 = (if last_requester e \<noteq> - 1 \<and> last_requester e \<noteq> req_id
                then set_bits_e PTE_SHAR e else e)
      in e1\<lparr>last_requester := req_id\<rparr>)"

text \<open>The overload that also reports whether the page has just become shared.\<close>
definition set_lrequester_report :: "32 word \<Rightarrow> bool \<Rightarrow> BasePDTEntry \<Rightarrow> bool \<times> BasePDTEntry" where
  "set_lrequester_report req_id changed e =
     (if last_requester e \<noteq> - 1 \<and> last_requester e \<noteq> req_id
      then (if \<not> is_shared e then True else changed,
            (set_bits_e PTE_SHAR e)\<lparr>last_requester := req_id\<rparr>)
      else (changed, e\<lparr>last_requester := req_id\<rparr>))"

subsection \<open>Tables and the state of a paging object\<close>

record PageTable =
  entry_array :: "BasePDTEntry list"
  pt_page :: "nat option"

definition PageTable :: "nat \<Rightarrow> nat option \<Rightarrow> PageTable" where
  "PageTable sz page = \<lparr>entry_array = replicate sz BasePDTEntry, pt_page = page\<rparr>"

definition ENTRY_1024 :: nat where "ENTRY_1024 = 1024"
definition ENTRY_512 :: nat where "ENTRY_512 = 512"
definition ENTRY_4 :: nat where "ENTRY_4 = 4"
definition ENTRY_SIZE_512 :: "64 word" where "ENTRY_SIZE_512 = 8"

record paging =
  pt_heap :: "nat \<rightharpoonup> PageTable"
  pt_brk :: nat
  buddy_allocator :: "BuddyAllocator option"
  root :: "nat option"
  pg_mode :: PagingStyle
  cur_pdp_num :: "32 word"
  cur_pd_num :: "32 word"
  cur_pt_num :: "32 word"
  error_migrated_pages :: nat
  mem_access_time :: nat

text \<open>\<^verbatim>\<open>(*table)[entry_id]\<close> asserts that the index is in range.\<close>
definition get_entry :: "paging \<Rightarrow> nat \<Rightarrow> nat \<Rightarrow> BasePDTEntry option" where
  "get_entry st t i = do {
     tab \<leftarrow> pt_heap st t;
     _ \<leftarrow> assert_that (i < length (entry_array tab));
     Some (entry_array tab ! i)
   }"

definition upd_entry :: "(BasePDTEntry \<Rightarrow> BasePDTEntry) \<Rightarrow> paging \<Rightarrow> nat \<Rightarrow> nat \<Rightarrow> paging option" where
  "upd_entry f st t i = do {
     tab \<leftarrow> pt_heap st t;
     _ \<leftarrow> assert_that (i < length (entry_array tab));
     Some (st\<lparr>pt_heap := (pt_heap st)
       (t \<mapsto> tab\<lparr>entry_array := (entry_array tab)[i := f (entry_array tab ! i)]\<rparr>)\<rparr>)
   }"

definition new_table :: "paging \<Rightarrow> PageTable \<Rightarrow> nat \<times> paging" where
  "new_table st tab =
     (pt_brk st, st\<lparr>pt_heap := (pt_heap st)(pt_brk st \<mapsto> tab), pt_brk := Suc (pt_brk st)\<rparr>)"

definition get_next_level_address :: "paging \<Rightarrow> nat \<Rightarrow> nat \<Rightarrow> next_level option" where
  "get_next_level_address st t i = map_option next_level_ptr (get_entry st t i)"

text \<open>The pointer as a table: null, or the table; a page there is a type confusion and an abort.\<close>
definition next_table :: "paging \<Rightarrow> nat \<Rightarrow> nat \<Rightarrow> nat option option" where
  "next_table st t i = do {
     p \<leftarrow> get_next_level_address st t i;
     (case p of Null \<Rightarrow> Some None | ToTable u \<Rightarrow> Some (Some u) | ToPage _ \<Rightarrow> None)
   }"

definition next_page :: "paging \<Rightarrow> nat \<Rightarrow> nat \<Rightarrow> nat option option" where
  "next_page st t i = do {
     p \<leftarrow> get_next_level_address st t i;
     (case p of Null \<Rightarrow> Some None | ToPage pg \<Rightarrow> Some (Some pg) | ToTable _ \<Rightarrow> None)
   }"

text \<open>The page number of a table; a table without a page is an assertion failure.\<close>
definition get_page_no :: "paging \<Rightarrow> nat \<Rightarrow> nat option" where
  "get_page_no st t = do { tab \<leftarrow> pt_heap st t; pt_page tab }"

definition entry_present :: "paging \<Rightarrow> nat \<Rightarrow> nat \<Rightarrow> bool option" where
  "entry_present st t i = map_option is_present (get_entry st t i)"

definition validate_page :: "paging \<Rightarrow> nat \<Rightarrow> nat \<Rightarrow> nat \<Rightarrow> paging option" where
  "validate_page st t i page = upd_entry (validate_page_entry page) st t i"

definition validate_entry :: "paging \<Rightarrow> nat \<Rightarrow> nat \<Rightarrow> nat \<Rightarrow> paging option" where
  "validate_entry st t i u = do {
     tab \<leftarrow> pt_heap st u;
     _ \<leftarrow> assert_that (pt_page tab \<noteq> None);
     upd_entry (validate_page_table u) st t i
   }"

definition reclaim_page :: "paging \<Rightarrow> nat \<Rightarrow> paging option" where
  "reclaim_page st page = do {
     a \<leftarrow> buddy_allocator st;
     a' \<leftarrow> free_one_page a page;
     Some (st\<lparr>buddy_allocator := Some a'\<rparr>)
   }"

definition invalidate_page :: "paging \<Rightarrow> nat \<Rightarrow> nat \<Rightarrow> paging option" where
  "invalidate_page st t i = do {
     e \<leftarrow> get_entry st t i;
     if is_present e then do {
       page \<leftarrow> (case next_level_ptr e of ToPage p \<Rightarrow> Some p | _ \<Rightarrow> None);
       st1 \<leftarrow> reclaim_page st page;
       upd_entry invalidated_page st1 t i
     }
     else Some st
   }"

text \<open>The destructor gives the table's own page back; a table without a page needs no allocator.\<close>
definition delete_table :: "paging \<Rightarrow> nat \<Rightarrow> paging option" where
  "delete_table st t = do {
     tab \<leftarrow> pt_heap st t;
     st1 \<leftarrow> (case pt_page tab of None \<Rightarrow> Some st | Some p \<Rightarrow> reclaim_page st p);
     Some (st1\<lparr>pt_heap := (pt_heap st1)(t := None)\<rparr>)
   }"

definition invalidate_entry :: "paging \<Rightarrow> nat \<Rightarrow> nat \<Rightarrow> paging option" where
  "invalidate_entry st t i = do {
     e \<leftarrow> get_entry st t i;
     _ \<leftarrow> assert_that (is_present e);
     u \<leftarrow> (case next_level_ptr e of ToTable u \<Rightarrow> Some u | _ \<Rightarrow> None);
     st1 \<leftarrow> delete_table st u;
     upd_entry invalidated_table st1 t i
   }"

subsection \<open>Table indices of an address\<close>

definition no_index :: nat where "no_index = 4294967295"

definition get_pagetable_off :: "Address \<Rightarrow> PagingStyle \<Rightarrow> nat" where
  "get_pagetable_off addr mode =
     (case mode of
        Legacy_Normal \<Rightarrow> unat (get_bit_value addr 12 21)
      | PAE_Normal \<Rightarrow> unat (get_bit_value addr 21 20)
      | LongMode_Normal \<Rightarrow> unat (get_bit_value addr 12 20)
      | _ \<Rightarrow> no_index)"

definition get_page_directory_off :: "Address \<Rightarrow> PagingStyle \<Rightarrow> nat" where
  "get_page_directory_off addr mode =
     (if mode = Legacy_Normal \<or> mode = Legacy_Huge then unat (get_bit_value addr 22 31)
      else if mode = PAE_Normal \<or> mode = PAE_Huge \<or> mode = LongMode_Normal \<or> mode = LongMode_Middle
        then unat (get_bit_value addr 21 29)
      else no_index)"

definition get_page_directory_pointer_off :: "Address \<Rightarrow> PagingStyle \<Rightarrow> nat" where
  "get_page_directory_pointer_off addr mode =
     (if mode = PAE_Normal \<or> mode = PAE_Huge then unat (get_bit_value addr 30 31)
      else if mode = LongMode_Normal \<or> mode = LongMode_Middle \<or> mode = LongMode_Huge
        then unat (get_bit_value addr 30 38)
      else no_index)"

definition get_pml4_off :: "Address \<Rightarrow> PagingStyle \<Rightarrow> nat" where
  "get_pml4_off addr mode =
     (if mode = LongMode_Normal \<or> mode = LongMode_Middle \<or> mode = LongMode_Huge
      then unat (get_bit_value addr 39 47) else no_index)"

text \<open>The four indices in the order pml4, pdp, pd, pt.\<close>
definition get_domains :: "Address \<Rightarrow> PagingStyle \<Rightarrow> nat \<times> nat \<times> nat \<times> nat" where
  "get_domains addr mode =
     (case mode of
        Legacy_Normal \<Rightarrow>
          (no_index, no_index, unat (get_bit_value addr 22 31), unat (get_bit_value addr 12 21))
      | Legacy_Huge \<Rightarrow> (no_index, no_index, unat (get_bit_value addr 22 31), no_index)
      | PAE_Normal \<Rightarrow>
          (no_index, unat (get_bit_value addr 30 31), unat (get_bit_value addr 21 29),
           unat (get_bit_value addr 12 20))
      | PAE_Huge \<Rightarrow>
          (no_index, unat (get_bit_value addr 30 31), unat (get_bit_value addr 21 29), no_index)
      | LongMode_Normal \<Rightarrow>
          (unat (get_bit_value addr 39 47), unat (get_bit_value addr 30 38),
           unat (get_bit_value addr 21 29), unat (get_bit_value addr 12 20))
      | LongMode_Middle \<Rightarrow>
          (unat (get_bit_value addr 39 47), unat (get_bit_value addr 30 38),
           unat (get_bit_value addr 21 29), no_index)
      | LongMode_Huge \<Rightarrow>
          (unat (get_bit_value addr 39 47), unat (get_bit_value addr 30 38), no_index, no_index))"

text \<open>Choosing one of several parents: the four 16-bit quarters of the line address, folded.\<close>
definition getParentId :: "Address \<Rightarrow> 32 word \<Rightarrow> 32 word" where
  "getParentId la parentsSize =
     fst (foldl (\<lambda>(res, tmp) _. (res XOR ucast (0xffff AND tmp), drop_bit 16 tmp)) (0, la) [0..<4])
       mod parentsSize"


subsection \<open>Properties\<close>

lemma set_lrequester_simps:
  "last_requester (set_lrequester q e) = q"
  "is_shared (set_lrequester q e) \<longleftrightarrow> is_shared e \<or> last_requester e \<noteq> - 1 \<and> last_requester e \<noteq> q"
  by (auto simp: set_lrequester_def Let_def is_shared_def PTE_bits)

lemma shared_fold:
  "last_requester e \<noteq> - 1 \<Longrightarrow> - 1 \<notin> set rs \<Longrightarrow>
   is_shared (fold set_lrequester rs e) \<longleftrightarrow> is_shared e \<or> (\<exists>q \<in> set rs. q \<noteq> last_requester e)"
  by (induction rs arbitrary: e) (auto simp: set_lrequester_simps)

text \<open>
  C24. The shared flag of a freshly mapped page is set exactly by accesses of two different requesters:
  after any sequence of accesses, none of them by the reserved requester number, the page is shared
  if and only if two of the requesters differ.
\<close>
theorem shared_iff_two_requesters:
  assumes "- 1 \<notin> set rs"
  shows "is_shared (fold set_lrequester rs (validate_page_entry pg (invalidated_page e))) \<longleftrightarrow>
           (\<exists>q \<in> set rs. \<exists>q' \<in> set rs. q \<noteq> q')"
proof (cases rs)
  case Nil
  then show ?thesis by (simp add: validate_page_entry_def set_private_def is_shared_def)
next
  case (Cons q qs)
  have "\<not> is_shared (validate_page_entry pg (invalidated_page e))"
    "last_requester (validate_page_entry pg (invalidated_page e)) = - 1"
    by (simp_all add: validate_page_entry_def invalidated_page_def set_private_def is_shared_def clear_bits_e_def
        test_bits_e_def and.assoc)
  then show ?thesis using assms shared_fold [of "set_lrequester q (validate_page_entry pg (invalidated_page e))" qs]
    by (auto simp: Cons set_lrequester_simps)
qed

theorem shared_iff_two_requesters_witness:
  "is_shared (fold set_lrequester [3, 3, 7] (validate_page_entry 9 (invalidated_page BasePDTEntry))) \<and>
   \<not> is_shared (fold set_lrequester [3, 3] (validate_page_entry 9 (invalidated_page BasePDTEntry)))"
  using shared_iff_two_requesters [of "[3, 3, 7]" 9 BasePDTEntry]
    shared_iff_two_requesters [of "[3, 3]" 9 BasePDTEntry] by auto

end
