(* ===== verification/Paging_LongMode.thy ===== *)
theory Paging_LongMode
  imports Page_Table
begin

text \<open>
  Four-level paging with pages of 4 KB, 2 MB and 1 GB: the class \<^verbatim>\<open>LongModePaging\<close> of
  \<^verbatim>\<open>src/src/page-table/page_table.cpp\<close>.  The root table is the PML4.  Its operations are
  shown to implement a map from table indices to pages.
\<close>

subsection \<open>Constructing tables\<close>

text \<open>A page for a table, when there is an allocator; running out of pages is a panic.\<close>
definition table_page :: "paging \<Rightarrow> (nat option \<times> paging) option" where
  "table_page st =
     (case buddy_allocator st of
        None \<Rightarrow> Some (None, st)
      | Some a \<Rightarrow> do {
          (page, a') \<leftarrow> allocate_pages a 0 0;
          p \<leftarrow> page;
          Some (Some p, st\<lparr>buddy_allocator := Some a'\<rparr>)
        })"

definition make_table :: "paging \<Rightarrow> (nat \<times> paging) option" where
  "make_table st = do {
     (pg, st1) \<leftarrow> table_page st;
     Some (new_table st1 (PageTable ENTRY_512 pg))
   }"

definition LongModePaging :: "paging \<Rightarrow> PagingStyle \<Rightarrow> paging option" where
  "LongModePaging st select = do {
     (t, st1) \<leftarrow> make_table st;
     Some (st1\<lparr>root := Some t, pg_mode := select, cur_pdp_num := 0, cur_pd_num := 0, cur_pt_num := 0,
              error_migrated_pages := 0\<rparr>)
   }"

subsection \<open>Allocating tables\<close>

type_synonym alloc_table = "nat option \<times> nat \<times> paging"

definition allocate_page_directory_pointer :: "paging \<Rightarrow> nat \<Rightarrow> nat \<Rightarrow> alloc_table option" where
  "allocate_page_directory_pointer st pml4_entry_id allocate_time = do {
     pml4 \<leftarrow> root st;
     _ \<leftarrow> assert_that (pml4_entry_id < 512 \<and> unat (cur_pdp_num st) < ENTRY_512);
     present \<leftarrow> entry_present st pml4 pml4_entry_id;
     if \<not> present then do {
       (table, st1) \<leftarrow> make_table st;
       st2 \<leftarrow> validate_entry st1 pml4 pml4_entry_id table;
       Some (Some table, allocate_time + 1, st2\<lparr>cur_pdp_num := cur_pdp_num st2 + 1\<rparr>)
     }
     else do {
       t \<leftarrow> next_table st pml4 pml4_entry_id;
       Some (t, allocate_time, st)
     }
   }"

definition allocate_page_directory :: "paging \<Rightarrow> nat \<Rightarrow> nat \<Rightarrow> nat \<Rightarrow> alloc_table option" where
  "allocate_page_directory st pml4_entry_id pdpt_entry_id allocate_time = do {
     pml4 \<leftarrow> root st;
     pdp_table \<leftarrow> next_table st pml4 pml4_entry_id;
     (case pdp_table of
        Some pdp \<Rightarrow> do {
          present \<leftarrow> entry_present st pdp pdpt_entry_id;
          if \<not> present then do {
            (pd_table, st1) \<leftarrow> make_table st;
            st2 \<leftarrow> validate_entry st1 pdp pdpt_entry_id pd_table;
            Some (Some pd_table, allocate_time + 1, st2\<lparr>cur_pd_num := cur_pd_num st2 + 1\<rparr>)
          }
          else do {
            t \<leftarrow> next_table st pdp pdpt_entry_id;
            Some (t, allocate_time, st)
          }
        }
      | None \<Rightarrow> do {
          (new, time1, st1) \<leftarrow> allocate_page_directory_pointer st pml4_entry_id allocate_time;
          if new \<noteq> None then do {
            pdpt_table \<leftarrow> next_table st1 pml4 pml4_entry_id;
            (pd_table, st2) \<leftarrow> make_table st1;
            pdpt \<leftarrow> pdpt_table;
            st3 \<leftarrow> validate_entry st2 pdpt pdpt_entry_id pd_table;
            Some (Some pd_table, time1 + 1, st3\<lparr>cur_pd_num := cur_pd_num st3 + 1\<rparr>)
          }
          else Some (None, time1, st1)
        })
   }"

definition allocate_page_table :: "paging \<Rightarrow> nat \<Rightarrow> nat \<Rightarrow> nat \<Rightarrow> alloc_table option" where
  "allocate_page_table st pml4_entry_id pdpt_entry_id pdt_entry_id = do {
     _ \<leftarrow> assert_that (pg_mode st = LongMode_Normal);
     pml4 \<leftarrow> root st;
     pdp_table \<leftarrow> next_table st pml4 pml4_entry_id;
     (case pdp_table of
        Some pdp \<Rightarrow> do {
          pd_table \<leftarrow> next_table st pdp pdpt_entry_id;
          (case pd_table of
             Some pd \<Rightarrow> do {
               present \<leftarrow> entry_present st pd pdt_entry_id;
               if present then do {
                 t \<leftarrow> next_table st pd pdt_entry_id;
                 Some (t, 0, st)
               }
               else do {
                 (table, st1) \<leftarrow> make_table st;
                 st2 \<leftarrow> validate_entry st1 pd pdt_entry_id table;
                 Some (Some table, 1, st2\<lparr>cur_pt_num := cur_pt_num st2 + 1\<rparr>)
               }
             }
           | None \<Rightarrow> do {
               (new, time1, st1) \<leftarrow> allocate_page_directory st pml4_entry_id pdpt_entry_id 0;
               if new \<noteq> None then do {
                 page_dir \<leftarrow> next_table st1 pdp pdpt_entry_id;
                 (pg_table, st2) \<leftarrow> make_table st1;
                 dir \<leftarrow> page_dir;
                 st3 \<leftarrow> validate_entry st2 dir pdt_entry_id pg_table;
                 Some (Some pg_table, time1 + 1, st3\<lparr>cur_pt_num := cur_pt_num st3 + 1\<rparr>)
               }
               else Some (None, time1, st1)
             })
        }
      | None \<Rightarrow> do {
          (pdp, st1) \<leftarrow> make_table st;
          (pd, st2) \<leftarrow> make_table st1;
          (pt, st3) \<leftarrow> make_table st2;
          st4 \<leftarrow> validate_entry st3 pml4 pml4_entry_id pdp;
          st5 \<leftarrow> validate_entry (st4\<lparr>cur_pdp_num := cur_pdp_num st4 + 1\<rparr>) pdp pdpt_entry_id pd;
          st6 \<leftarrow> validate_entry (st5\<lparr>cur_pd_num := cur_pd_num st5 + 1\<rparr>) pd pdt_entry_id pt;
          Some (Some pt, 3, st6\<lparr>cur_pt_num := cur_pt_num st6 + 1\<rparr>)
        })
   }"

text \<open>Ranges: one page table per 2 MB, from the directory entry of the address on.\<close>
primrec allocate_tables_loop :: "nat list \<Rightarrow> paging \<Rightarrow> nat \<Rightarrow> nat \<Rightarrow> nat \<Rightarrow> bool \<Rightarrow> (bool \<times> paging) option" where
  "allocate_tables_loop [] st pml4_entry pdp_entry pd_entry succeed = Some (succeed, st)"
| "allocate_tables_loop (i # is) st pml4_entry pdp_entry pd_entry succeed = do {
     (t, time, st1) \<leftarrow> allocate_page_table st pml4_entry pdp_entry (pd_entry + i);
     allocate_tables_loop is st1 pml4_entry pdp_entry pd_entry (if t = None then False else succeed)
   }"

definition allocate_page_table_range :: "paging \<Rightarrow> Address \<Rightarrow> Address \<Rightarrow> (bool \<times> paging) option" where
  "allocate_page_table_range st addr sz = do {
     _ \<leftarrow> assert_that (pg_mode st = LongMode_Normal);
     let succeed = (addr AND 0x1fffff = 0);
     let page_table_num = unat (ucast (drop_bit 21 (sz + 0x1fffff)) :: 32 word);
     allocate_tables_loop [0..<page_table_num] st (get_pml4_off addr (pg_mode st))
       (get_page_directory_pointer_off addr (pg_mode st)) (get_page_directory_off addr (pg_mode st)) succeed
   }"

subsection \<open>Mapping and unmapping\<close>

text \<open>The result is the latency, the entry that was mapped and the new state.\<close>
definition map_page_table :: "paging \<Rightarrow> Address \<Rightarrow> nat \<Rightarrow> (nat \<times> (nat \<times> nat) \<times> paging) option" where
  "map_page_table st addr pg =
     (case get_domains addr (pg_mode st) of (pml4, pdp, pd, pt) \<Rightarrow> do {
        _ \<leftarrow> assert_that (pml4 \<noteq> no_index \<and> pdp \<noteq> no_index);
        (table, i, alloc_time, st1) \<leftarrow>
          (case pg_mode st of
             LongMode_Normal \<Rightarrow> do {
               _ \<leftarrow> assert_that (pd \<noteq> no_index \<and> pt \<noteq> no_index);
               (t, time, st1) \<leftarrow> allocate_page_table st pml4 pdp pd;
               Some (t, pt, time, st1)
             }
           | LongMode_Middle \<Rightarrow> do {
               (t, time, st1) \<leftarrow> allocate_page_directory st pml4 pdp 0;
               Some (t, pd, time, st1)
             }
           | LongMode_Huge \<Rightarrow> do {
               (t, time, st1) \<leftarrow> allocate_page_directory_pointer st pml4 0;
               Some (t, pdp, time, st1)
             }
           | _ \<Rightarrow> None);
        t \<leftarrow> table;
        st2 \<leftarrow> validate_page st1 t i pg;
        valid \<leftarrow> entry_present st2 t i;
        _ \<leftarrow> assert_that valid;
        Some (mem_access_time st2 * (1 + alloc_time), (t, i), st2)
      })"

definition map_page_table_req ::
  "paging \<Rightarrow> 32 word \<Rightarrow> Address \<Rightarrow> nat \<Rightarrow> bool \<Rightarrow> (nat \<times> paging) option" where
  "map_page_table_req st req_id addr pg is_write = do {
     (latency, (t, i), st1) \<leftarrow> map_page_table st addr pg;
     st2 \<leftarrow> upd_entry (\<lambda>e. let e1 = set_accessed (set_lrequester req_id e)
                           in if is_write then set_dirty e1 else e1) st1 t i;
     Some (latency, st2)
   }"

text \<open>
  Following the directories.  The pointer the first step reads is not tested before the second
  step dereferences it, the later ones are.
\<close>
primrec get_tables_loop :: "nat list \<Rightarrow> paging \<Rightarrow> nat option \<Rightarrow> nat option option" where
  "get_tables_loop [] st table = Some table"
| "get_tables_loop (i # is) st table = do {
     t \<leftarrow> table;
     u \<leftarrow> next_table st t i;
     (case u of None \<Rightarrow> Some None | Some _ \<Rightarrow> get_tables_loop is st u)
   }"

definition get_tables :: "paging \<Rightarrow> nat \<Rightarrow> nat list \<Rightarrow> nat option option" where
  "get_tables st level entry_ids = do {
     _ \<leftarrow> assert_that (level \<ge> 1);
     pml4 \<leftarrow> root st;
     table \<leftarrow> next_table st pml4 (entry_ids ! 0);
     get_tables_loop (take (level - 1) (tl entry_ids)) st table
   }"

definition unmap_page_table :: "paging \<Rightarrow> Address \<Rightarrow> (bool \<times> paging) option" where
  "unmap_page_table st addr =
     (case get_domains addr (pg_mode st) of (pml4_id, pdp_id, pd_id, pt_id) \<Rightarrow>
        (let ids = [pml4_id, pdp_id, pd_id, 0];
             unmap = (\<lambda>level i. do {
               table \<leftarrow> get_tables st level ids;
               (case table of
                  None \<Rightarrow> Some (False, st)
                | Some t \<Rightarrow> do {
                    st1 \<leftarrow> invalidate_page st t i;
                    Some (False, st1)
                  })
             })
         in (case pg_mode st of
               LongMode_Normal \<Rightarrow> unmap 3 pt_id
             | LongMode_Middle \<Rightarrow> unmap 2 pd_id
             | LongMode_Huge \<Rightarrow> unmap 1 pdp_id
             | _ \<Rightarrow> Some (False, st))))"

subsection \<open>Access\<close>

text \<open>The result is the page number or the fault signal, and the cycles added to the request.\<close>
definition access_walk :: "paging \<Rightarrow> Address \<Rightarrow> (Address \<times> nat) option" where
  "access_walk st addr =
     (case get_domains addr (pg_mode st) of (pml4_id, pdp_id, pd_id, pt_id) \<Rightarrow> do {
        pml4 \<leftarrow> root st;
        pdp_ptr \<leftarrow> next_table st pml4 pml4_id;
        (case pdp_ptr of
           None \<Rightarrow> Some (PAGE_FAULT_SIG, 0)
         | Some pdp \<Rightarrow>
             (case pg_mode st of
                LongMode_Middle \<Rightarrow> do {
                  ptr \<leftarrow> next_table st pdp pdp_id;
                  (case ptr of
                     None \<Rightarrow> Some (PAGE_FAULT_SIG, 0)
                   | Some pd \<Rightarrow> do {
                       page \<leftarrow> next_page st pd pd_id;
                       Some (case page of None \<Rightarrow> PAGE_FAULT_SIG | Some p \<Rightarrow> of_nat p,
                             mem_access_time st * 3)
                     })
                }
              | LongMode_Normal \<Rightarrow> do {
                  ptr \<leftarrow> next_table st pdp pdp_id;
                  (case ptr of
                     None \<Rightarrow> Some (PAGE_FAULT_SIG, 0)
                   | Some pd \<Rightarrow> do {
                       ptr2 \<leftarrow> next_table st pd pd_id;
                       (case ptr2 of
                          None \<Rightarrow> Some (PAGE_FAULT_SIG, mem_access_time st * 4)
                        | Some pt \<Rightarrow> do {
                            page \<leftarrow> next_page st pt pt_id;
                            Some (case page of None \<Rightarrow> PAGE_FAULT_SIG | Some p \<Rightarrow> of_nat p,
                                  mem_access_time st * 4)
                          })
                     })
                }
              | _ \<Rightarrow> do {
                  page \<leftarrow> next_page st pdp pdp_id;
                  Some (case page of None \<Rightarrow> PAGE_FAULT_SIG | Some p \<Rightarrow> of_nat p,
                        mem_access_time st * 2)
                }))
      })"

text \<open>
  In the last case the mode is \<open>LongMode_Huge\<close>: for the modes that are not long modes there is no
  pml4 index and the first lookup has aborted.  \<^verbatim>\<open>access(req)\<close> uses the line address of the request as the address.\<close>
definition access :: "paging \<Rightarrow> MemReq \<Rightarrow> (Address \<times> MemReq) option" where
  "access st req = do {
     (a, c) \<leftarrow> access_walk st (lineAddr req);
     Some (a, req\<lparr>rq_cycle := rq_cycle req + of_nat c\<rparr>)
   }"

subsection \<open>The timed page walk\<close>

text \<open>
  The event recorder holds at most one timing record; \<open>ev_edges\<close> collects the parent-child pairs
  that \<^verbatim>\<open>addChild\<close> makes.  The memory below is a parameter: an access to parent \<open>i\<close> of a
  world \<open>'m\<close> returns the response cycle and may leave a timing record.
\<close>

record TimingRecord =
  startEvent :: nat
  endEvent :: "nat option"
  tr_isPTW :: bool

record EventRecorder =
  ev_tr :: "TimingRecord option"
  ev_edges :: "(nat \<times> nat) list"

type_synonym 'm world = "'m \<times> EventRecorder"
type_synonym 'm mem_parent = "nat \<Rightarrow> MemReq \<Rightarrow> 'm world \<Rightarrow> 64 word \<times> 'm world"

definition pushRecord :: "TimingRecord \<Rightarrow> EventRecorder \<Rightarrow> EventRecorder option" where
  "pushRecord r ev = do {
     _ \<leftarrow> assert_that (ev_tr ev = None);
     Some (ev\<lparr>ev_tr := Some r\<rparr>)
   }"

definition popRecord :: "EventRecorder \<Rightarrow> TimingRecord option \<times> EventRecorder" where
  "popRecord ev = (ev_tr ev, ev\<lparr>ev_tr := None\<rparr>)"

text \<open>The records of a walk are chained behind the first one.\<close>
definition link_ptw_record ::
  "TimingRecord option \<Rightarrow> EventRecorder \<Rightarrow> (TimingRecord option \<times> EventRecorder) option" where
  "link_ptw_record first_ptwTR ev =
     (case popRecord ev of
        (None, _) \<Rightarrow> Some (first_ptwTR, ev)
      | (Some c_tr, ev1) \<Rightarrow>
          (case first_ptwTR of
             None \<Rightarrow> do {
               _ \<leftarrow> assert_that (endEvent c_tr \<noteq> None);
               Some (Some c_tr, ev1)
             }
           | Some f \<Rightarrow> do {
               _ \<leftarrow> assert_that (tr_isPTW c_tr);
               e \<leftarrow> endEvent f;
               Some (Some (f\<lparr>endEvent := Some (startEvent c_tr)\<rparr>),
                     ev1\<lparr>ev_edges := ev_edges ev1 @ [(e, startEvent c_tr)]\<rparr>)
             }))"

definition ptw_req :: "MemReq \<Rightarrow> Address \<Rightarrow> 64 word \<Rightarrow> bool \<Rightarrow> bool \<Rightarrow> MemReq" where
  "ptw_req req la startCycle fst_ptw lst_ptw =
     \<lparr>lineAddr = la, rq_type = GETS, childId = childId req, rq_cycle = startCycle,
      initialState = Ist, srcId = srcId req, rq_flags = rq_flags req, threadId = threadId req,
      isPIMInst = isPIMInst req, isFirstPTW = fst_ptw, isLastPTW = lst_ptw, pageShared = False,
      pageDirty = False, triggerPageShared = False, triggerPageDirty = False\<rparr>"

text \<open>
  One load per table address, each starting when the one before has responded; \<open>i\<close> is the
  position of the next one and \<open>startCycle\<close> is \<open>respCycle\<close> at every iteration.
\<close>
fun load_loop ::
  "'m mem_parent \<Rightarrow> 32 word list \<Rightarrow> nat \<Rightarrow> MemReq \<Rightarrow> Address list \<Rightarrow> nat \<Rightarrow> 64 word \<Rightarrow>
   TimingRecord option \<Rightarrow> 'm world \<Rightarrow> (64 word \<times> TimingRecord option \<times> 'm world) option" where
  "load_loop parent parentRTTs line_bits req [] i respCycle tr w = Some (respCycle, tr, w)"
| "load_loop parent parentRTTs line_bits req (a # as) i respCycle tr w = do {
     let la = drop_bit line_bits a;
     _ \<leftarrow> assert_that (parentRTTs \<noteq> []);
     let parentId = unat (getParentId la (of_nat (length parentRTTs)));
     _ \<leftarrow> assert_that (parentId < length parentRTTs);
     let (resp, m, ev) = parent parentId (ptw_req req la respCycle (i = 0) (as = [])) w;
     let respCycle' = respCycle + ((resp - respCycle) + ucast (parentRTTs ! parentId));
     (tr', ev') \<leftarrow> link_ptw_record tr ev;
     load_loop parent parentRTTs line_bits req as (Suc i) respCycle' tr' (m, ev')
   }"

definition loadPageTables ::
  "'m mem_parent \<Rightarrow> 32 word list \<Rightarrow> nat \<Rightarrow> bool \<Rightarrow> MemReq \<Rightarrow> Address list \<Rightarrow> 'm world \<Rightarrow>
   (64 word \<times> 'm world) option" where
  "loadPageTables parent parentRTTs line_bits sendPTW req pgt_addrs w =
     (if \<not> sendPTW then Some (rq_cycle req, w)
      else do {
        (respCycle, tr, m, ev) \<leftarrow> load_loop parent parentRTTs line_bits req pgt_addrs 0 (rq_cycle req) None w;
        ev' \<leftarrow> (case tr of None \<Rightarrow> Some ev | Some r \<Rightarrow> pushRecord r ev);
        Some (respCycle, (m, ev'))
      })"

definition getPGTAddr :: "nat \<Rightarrow> nat \<Rightarrow> nat \<Rightarrow> Address" where
  "getPGTAddr pg_shift page_no entry_id =
     push_bit pg_shift (of_nat page_no) OR (ENTRY_SIZE_512 * of_nat entry_id)"

text \<open>
  The tables a walk reads: the addresses of the entries it loads and, when the walk reaches a
  page, that page with the table and index of its entry.
\<close>
definition ptw_path ::
  "paging \<Rightarrow> nat \<Rightarrow> Address \<Rightarrow> (Address list \<times> (nat \<times> nat \<times> nat) option) option" where
  "ptw_path st pg_shift addr =
     (case get_domains addr (pg_mode st) of (pml4_id, pdp_id, pd_id, pt_id) \<Rightarrow> do {
        pml4 \<leftarrow> root st;
        no0 \<leftarrow> get_page_no st pml4;
        let as0 = [getPGTAddr pg_shift no0 pml4_id];
        pdp_ptr \<leftarrow> next_table st pml4 pml4_id;
        (case pdp_ptr of
           None \<Rightarrow> Some (as0, None)
         | Some pdp \<Rightarrow> do {
             no1 \<leftarrow> get_page_no st pdp;
             let as1 = as0 @ [getPGTAddr pg_shift no1 pdp_id];
             (case pg_mode st of
                LongMode_Middle \<Rightarrow> do {
                  ptr \<leftarrow> next_table st pdp pdp_id;
                  (case ptr of
                     None \<Rightarrow> Some (as1, None)
                   | Some pd \<Rightarrow> do {
                       let as2 = as1 @ [getPGTAddr pg_shift no1 pd_id];
                       page \<leftarrow> next_page st pd pd_id;
                       Some (as2, map_option (\<lambda>p. (p, pd, pd_id)) page)
                     })
                }
              | LongMode_Normal \<Rightarrow> do {
                  ptr \<leftarrow> next_table st pdp pdp_id;
                  (case ptr of
                     None \<Rightarrow> Some (as1, None)
                   | Some pd \<Rightarrow> do {
                       no2 \<leftarrow> get_page_no st pd;
                       let as2 = as1 @ [getPGTAddr pg_shift no2 pd_id];
                       ptr2 \<leftarrow> next_table st pd pd_id;
                       (case ptr2 of
                          None \<Rightarrow> Some (as2, None)
                        | Some pt \<Rightarrow> do {
                            no3 \<leftarrow> get_page_no st pt;
                            let as3 = as2 @ [getPGTAddr pg_shift no3 pt_id];
                            page \<leftarrow> next_page st pt pt_id;
                            Some (as3, map_option (\<lambda>p. (p, pt, pt_id)) page)
                          })
                     })
                }
              | _ \<Rightarrow> do {
                  page \<leftarrow> next_page st pdp pdp_id;
                  Some (as1, map_option (\<lambda>p. (p, pdp, pdp_id)) page)
                })
           })
      })"

text \<open>The flags of the entry and of the request after a walk that reached a page.\<close>
definition touch_entry :: "paging \<Rightarrow> nat \<Rightarrow> nat \<Rightarrow> MemReq \<Rightarrow> (paging \<times> MemReq) option" where
  "touch_entry st t i req = do {
     e \<leftarrow> get_entry st t i;
     let (shared, e1) = set_lrequester_report (srcId req) (triggerPageShared req) e;
     let e2 = set_accessed e1;
     let put = (rq_type req = PUTS);
     let e3 = (if put then set_dirty e2 else e2);
     st1 \<leftarrow> upd_entry (\<lambda>_. e3) st t i;
     Some (st1\<lparr>error_migrated_pages := error_migrated_pages st1 +
                 (if shared \<and> remapped_times e3 \<noteq> 0 then 1 else 0)\<rparr>,
           req\<lparr>triggerPageShared := shared,
               triggerPageDirty := (if put \<and> \<not> is_dirty e2 then True else triggerPageDirty req),
               pageDirty := is_dirty e3, pageShared := is_shared e3\<rparr>)
   }"

definition access_ptw ::
  "'m mem_parent \<Rightarrow> 32 word list \<Rightarrow> nat \<Rightarrow> nat \<Rightarrow> bool \<Rightarrow> paging \<Rightarrow> MemReq \<Rightarrow> 'm world \<Rightarrow>
   (Address \<times> paging \<times> MemReq \<times> 'm world) option" where
  "access_ptw parent parentRTTs line_bits pg_shift sendPTW st req w = do {
     (as, hit) \<leftarrow> ptw_path st pg_shift (push_bit line_bits (lineAddr req));
     (case hit of
        None \<Rightarrow> do {
          (c, w') \<leftarrow> loadPageTables parent parentRTTs line_bits sendPTW req as w;
          Some (PAGE_FAULT_SIG, st, req\<lparr>rq_cycle := c\<rparr>, w')
        }
      | Some (p, t, i) \<Rightarrow> do {
          (st1, req1) \<leftarrow> touch_entry st t i req;
          (c, w') \<leftarrow> loadPageTables parent parentRTTs line_bits sendPTW req1 as w;
          Some (of_nat p, st1, req1\<lparr>rq_cycle := c\<rparr>, w')
        })
   }"

subsection \<open>Lists of tables\<close>

primrec allocate_page_directory_pointer_list :: "nat list \<Rightarrow> paging \<Rightarrow> nat \<Rightarrow> bool \<Rightarrow> (bool \<times> paging) option" where
  "allocate_page_directory_pointer_list [] st time succeed = Some (succeed, st)"
| "allocate_page_directory_pointer_list (e # es) st time succeed = do {
     (t, time1, st1) \<leftarrow> allocate_page_directory_pointer st e time;
     allocate_page_directory_pointer_list es st1 time1 (if t = None then False else succeed)
   }"

primrec allocate_page_directory_list :: "(nat \<times> nat) list \<Rightarrow> paging \<Rightarrow> nat \<Rightarrow> bool \<Rightarrow> (bool \<times> paging) option" where
  "allocate_page_directory_list [] st time succeed = Some (succeed, st)"
| "allocate_page_directory_list (e # es) st time succeed = do {
     (t, time1, st1) \<leftarrow> allocate_page_directory st (fst e) (snd e) time;
     allocate_page_directory_list es st1 time1 (if t = None then False else succeed)
   }"

primrec allocate_page_table_list :: "(nat \<times> nat \<times> nat) list \<Rightarrow> paging \<Rightarrow> bool \<Rightarrow> (bool \<times> paging) option" where
  "allocate_page_table_list [] st succeed = Some (succeed, st)"
| "allocate_page_table_list (e # es) st succeed = do {
     (t, time, st1) \<leftarrow> allocate_page_table st (fst e) (fst (snd e)) (snd (snd e));
     allocate_page_table_list es st1 (if t = None then False else succeed)
   }"

subsection \<open>Removing tables\<close>

definition remove_page_table :: "nat \<Rightarrow> nat \<Rightarrow> nat \<Rightarrow> paging \<Rightarrow> paging option" where
  "remove_page_table pml4_entry_id pdp_entry_id pd_entry_id st = do {
     _ \<leftarrow> assert_that (pg_mode st = LongMode_Normal);
     pml4 \<leftarrow> root st;
     pdp_table \<leftarrow> next_table st pml4 pml4_entry_id;
     (case pdp_table of None \<Rightarrow> Some st | Some pdp \<Rightarrow> do {
        pd_table \<leftarrow> next_table st pdp pdp_entry_id;
        (case pd_table of None \<Rightarrow> Some st | Some pd \<Rightarrow> do {
           pg_table \<leftarrow> next_table st pd pd_entry_id;
           (case pg_table of None \<Rightarrow> Some st | Some pt \<Rightarrow> do {
              st1 \<leftarrow> fold_opt (\<lambda>i s. invalidate_page s pt i) [0..<ENTRY_512] st;
              st2 \<leftarrow> invalidate_entry st1 pd pd_entry_id;
              Some (st2\<lparr>cur_pt_num := cur_pt_num st2 - 1\<rparr>)
            })
         })
      })
   }"

definition remove_if_present ::
  "nat \<Rightarrow> (nat \<Rightarrow> paging \<Rightarrow> paging option) \<Rightarrow> nat \<Rightarrow> paging \<Rightarrow> paging option" where
  "remove_if_present t rm i st = do {
     present \<leftarrow> entry_present st t i;
     if present then rm i st else Some st
   }"

definition remove_page_directory :: "nat \<Rightarrow> nat \<Rightarrow> paging \<Rightarrow> paging option" where
  "remove_page_directory pml4_entry_id pdp_entry_id st = do {
     _ \<leftarrow> assert_that (pg_mode st \<noteq> LongMode_Huge \<and> pml4_entry_id < 512 \<and> pdp_entry_id < 512);
     pml4 \<leftarrow> root st;
     pdp_table \<leftarrow> next_table st pml4 pml4_entry_id;
     (case pdp_table of None \<Rightarrow> Some st | Some pdp \<Rightarrow> do {
        pd_table \<leftarrow> next_table st pdp pdp_entry_id;
        (case pd_table of None \<Rightarrow> Some st | Some pd \<Rightarrow> do {
           st1 \<leftarrow> (if pg_mode st = LongMode_Normal
                    then fold_opt (remove_if_present pd (remove_page_table pml4_entry_id pdp_entry_id))
                           [0..<ENTRY_512] st
                    else Some st);
           st2 \<leftarrow> invalidate_entry st1 pdp pdp_entry_id;
           Some (st2\<lparr>cur_pd_num := cur_pd_num st2 - 1\<rparr>)
         })
      })
   }"

definition remove_page_directory_pointer :: "nat \<Rightarrow> paging \<Rightarrow> paging option" where
  "remove_page_directory_pointer pml4_entry_id st = do {
     pml4 \<leftarrow> root st;
     pdp_table \<leftarrow> next_table st pml4 pml4_entry_id;
     (case pdp_table of None \<Rightarrow> Some st | Some pdp \<Rightarrow> do {
        st1 \<leftarrow> (if pg_mode st \<noteq> LongMode_Huge
                 then fold_opt (remove_if_present pdp (remove_page_directory pml4_entry_id))
                        [0..<ENTRY_512] st
                 else Some st);
        st2 \<leftarrow> invalidate_entry st1 pml4 pml4_entry_id;
        Some (st2\<lparr>cur_pdp_num := cur_pdp_num st2 - 1\<rparr>)
      })
   }"

definition remove_root_directory :: "paging \<Rightarrow> paging option" where
  "remove_root_directory st =
     (case root st of
        None \<Rightarrow> Some st
      | Some pml4 \<Rightarrow> do {
          st1 \<leftarrow> fold_opt (remove_if_present pml4 remove_page_directory_pointer) [0..<ENTRY_512] st;
          st2 \<leftarrow> delete_table st1 pml4;
          Some (st2\<lparr>root := None\<rparr>)
        })"

text \<open>
  Every removal of one table above returns true.  The list version for the page directory pointers
  reports failure for each of them, the range version only for an unaligned address.
\<close>
definition remove_page_directory_pointer_list :: "nat list \<Rightarrow> paging \<Rightarrow> (bool \<times> paging) option" where
  "remove_page_directory_pointer_list pml4_entry st = do {
     st1 \<leftarrow> fold_opt remove_page_directory_pointer pml4_entry st;
     Some (pml4_entry = [], st1)
   }"

definition remove_page_directory_list :: "(nat \<times> nat) list \<Rightarrow> paging \<Rightarrow> paging option" where
  "remove_page_directory_list es = fold_opt (\<lambda>(a, b). remove_page_directory a b) es"

definition remove_page_table_list :: "(nat \<times> nat \<times> nat) list \<Rightarrow> paging \<Rightarrow> paging option" where
  "remove_page_table_list es = fold_opt (\<lambda>(a, b, c). remove_page_table a b c) es"

definition remove_page_table_range :: "Address \<Rightarrow> Address \<Rightarrow> paging \<Rightarrow> (bool \<times> paging) option" where
  "remove_page_table_range addr sz st = do {
     _ \<leftarrow> assert_that (pg_mode st = LongMode_Normal);
     if addr AND 0x1fffff \<noteq> 0 then Some (False, st)
     else (case get_domains addr (pg_mode st) of (pml4_entry, pdp_entry, pd_entry, _) \<Rightarrow> do {
       let page_table_num = unat (ucast (drop_bit 21 (sz + 0x1fffff)) :: 32 word);
       st1 \<leftarrow> fold_opt (\<lambda>i. remove_page_table pml4_entry pdp_entry (pd_entry + i)) [0..<page_table_num] st;
       Some (True, st1)
     })
   }"

end
