(* ===== verification/LongMode_Refinement.thy ===== *)
theory LongMode_Refinement
  imports Paging_LongMode
begin

text \<open>
  The four-level tables as a map.  \<open>walk\<close> follows the table pointers along a list of indices and
  \<open>lookup\<close> reads the page at the end.  The invariant \<open>pg_state\<close> says that the tables form a tree of
  the depth of the paging mode.  The operations of \<open>Paging_LongMode\<close> implement the update and the
  lookup of that map.
\<close>

subsection \<open>Walking a table graph\<close>

type_synonym table_ptrs = "nat \<Rightarrow> nat \<Rightarrow> nat option"

primrec walk :: "table_ptrs \<Rightarrow> nat \<Rightarrow> nat list \<Rightarrow> nat option" where
  "walk T t [] = Some t"
| "walk T t (i # is) = T t i \<bind> (\<lambda>u. walk T u is)"

definition lookup :: "table_ptrs \<Rightarrow> table_ptrs \<Rightarrow> nat \<Rightarrow> nat list \<Rightarrow> nat option" where
  "lookup T P r q = (if q = [] then None else walk T r (butlast q) \<bind> (\<lambda>t. P t (last q)))"

definition upd2 :: "table_ptrs \<Rightarrow> nat \<Rightarrow> nat \<Rightarrow> nat option \<Rightarrow> table_ptrs" where
  "upd2 T t i v = T(t := (T t)(i := v))"

lemma upd2_same [simp]: "upd2 T t i v t i = v"
  by (simp add: upd2_def)

lemma upd2_other [simp]: "x \<noteq> t \<or> y \<noteq> i \<Longrightarrow> upd2 T t i v x y = T x y"
  by (auto simp: upd2_def)

lemma upd2_apply: "upd2 T t i v x y = (if x = t \<and> y = i then v else T x y)"
  by auto

lemma walk_append: "walk T t (p @ q) = walk T t p \<bind> (\<lambda>u. walk T u q)"
  by (induction p arbitrary: t) (auto intro!: bind_option_cong)

lemma walk_link_mono:
  assumes "T t i = None" and "walk T r q = Some x"
  shows "walk (upd2 T t i (Some u)) r q = Some x"
  using assms(2)
proof (induction q arbitrary: r)
  case (Cons j q)
  then obtain y where y: "T r j = Some y" "walk T y q = Some x" by (auto elim!: bind_SomeE)
  then have "(r, j) \<noteq> (t, i)" using assms(1) by auto
  then show ?case using Cons.IH [OF y(2)] y(1) by auto
qed simp

lemma walk_link_cases:
  assumes "walk (upd2 T t i (Some u)) r q = Some x" and "\<And>j. T u j = None" and "t \<noteq> u"
  shows "walk T r q = Some x \<or> x = u"
  using assms(1)
proof (induction q arbitrary: r)
  case (Cons j q)
  show ?case
  proof (cases "(r, j) = (t, i)")
    case True
    then have "walk (upd2 T t i (Some u)) u q = Some x" using Cons.prems by simp
    then have "x = u" using assms(2,3) by (cases q) auto
    then show ?thesis ..
  next
    case False
    then show ?thesis using Cons by (auto elim!: bind_SomeE)
  qed
qed simp

lemma lookup_link:
  assumes "T t i = None" and "\<And>j. T u j = None" and "\<And>j. P u j = None" and "t \<noteq> u"
  shows "lookup (upd2 T t i (Some u)) P r = lookup T P r"
proof
  fix q :: "nat list"
  let ?b = "butlast q"
  show "lookup (upd2 T t i (Some u)) P r q = lookup T P r q"
  proof (cases "walk T r ?b")
    case (Some x)
    then show ?thesis using walk_link_mono [OF assms(1) Some] by (simp add: lookup_def)
  next
    case None
    then have "walk (upd2 T t i (Some u)) r ?b = None \<or> walk (upd2 T t i (Some u)) r ?b = Some u"
      using walk_link_cases [of T t i u r ?b] assms(2,4)
      by (cases "walk (upd2 T t i (Some u)) r ?b") auto
    then show ?thesis using None assms(3) by (auto simp: lookup_def)
  qed
qed

lemma lookup_leaf:
  assumes "walk T r p = Some t" and inj: "\<And>q. walk T r q = Some t \<Longrightarrow> q = p"
  shows "lookup T (upd2 P t i v) r = (lookup T P r)(p @ [i] := v)"
proof
  fix q :: "nat list"
  show "lookup T (upd2 P t i v) r q = ((lookup T P r)(p @ [i] := v)) q"
  proof (cases q rule: rev_cases)
    case (snoc b j)
    have l: "lookup T P' r (b @ [j]) = walk T r b \<bind> (\<lambda>t. P' t j)" for P'
      by (simp add: lookup_def)
    have "walk T r b = Some t \<longleftrightarrow> b = p" using assms(1) inj [of b] by blast
    then show ?thesis 
      by (cases "walk T r b") (auto simp: l snoc upd2_apply [of _ _ _ _ _ j])
  qed (simp add: lookup_def)
qed

subsection \<open>The invariant\<close>

definition tptr :: "paging \<Rightarrow> table_ptrs" where
  "tptr st t i = (case get_entry st t i of
     Some e \<Rightarrow> (case next_level_ptr e of ToTable u \<Rightarrow> Some u | _ \<Rightarrow> None) | None \<Rightarrow> None)"

definition pptr :: "paging \<Rightarrow> table_ptrs" where
  "pptr st t i = (case get_entry st t i of
     Some e \<Rightarrow> (case next_level_ptr e of ToPage p \<Rightarrow> Some p | _ \<Rightarrow> None) | None \<Rightarrow> None)"

definition table_ok :: "paging \<Rightarrow> nat \<Rightarrow> bool" where
  "table_ok st t = (case pt_heap st t of
     None \<Rightarrow> False | Some tab \<Rightarrow> length (entry_array tab) = 512 \<and> pt_page tab \<noteq> None)"

text \<open>
  \<open>lev\<close> is the number of levels below a table, pages included, and \<open>par\<close> its only parent.
\<close>
definition entry_ok ::
  "paging \<Rightarrow> (nat \<Rightarrow> nat) \<Rightarrow> (nat \<Rightarrow> (nat \<times> nat) option) \<Rightarrow> nat \<Rightarrow> nat \<Rightarrow> BasePDTEntry \<Rightarrow> bool" where
  "entry_ok st lev par t i e \<longleftrightarrow>
     (is_present e \<longleftrightarrow> next_level_ptr e \<noteq> Null) \<and>
     (case next_level_ptr e of
        Null \<Rightarrow> True
      | ToPage _ \<Rightarrow> lev t = 1
      | ToTable u \<Rightarrow> table_ok st u \<and> lev t = Suc (lev u) \<and> 1 \<le> lev u \<and> par u = Some (t, i))"

definition tables_inv ::
  "nat \<Rightarrow> paging \<Rightarrow> nat \<Rightarrow> (nat \<Rightarrow> nat) \<Rightarrow> (nat \<Rightarrow> (nat \<times> nat) option) \<Rightarrow> bool" where
  "tables_inv D st r lev par \<longleftrightarrow>
     root st = Some r \<and> table_ok st r \<and> lev r = D \<and> par r = None \<and>
     (\<forall>t. pt_heap st t \<noteq> None \<longrightarrow> t < pt_brk st \<and> table_ok st t) \<and>
     (\<forall>t i e. get_entry st t i = Some e \<longrightarrow> entry_ok st lev par t i e)"

definition pg_state :: "nat \<Rightarrow> nat \<Rightarrow> paging \<Rightarrow> bool" where
  "pg_state D r st \<longleftrightarrow> (\<exists>lev par. tables_inv D st r lev par)"

lemma get_entry_table_ok:
  "table_ok st t \<Longrightarrow> i < 512 \<Longrightarrow> \<exists>e. get_entry st t i = Some e"
  by (auto simp: table_ok_def get_entry_def split: option.splits)

lemma get_entry_bound: "get_entry st t i = Some e \<Longrightarrow> table_ok st t \<Longrightarrow> i < 512"
  by (auto simp: table_ok_def get_entry_def split: option.splits elim!: bind_SomeE)

lemma tables_inv_entry:
  "tables_inv D st r lev par \<Longrightarrow> get_entry st t i = Some e \<Longrightarrow> entry_ok st lev par t i e"
  by (simp add: tables_inv_def)

lemma tptr_SomeD:
  assumes "tables_inv D st r lev par" and "tptr st t i = Some u"
  shows "table_ok st u \<and> lev t = Suc (lev u) \<and> 1 \<le> lev u \<and> par u = Some (t, i)"
proof -
  from assms(2) obtain e where "get_entry st t i = Some e" "next_level_ptr e = ToTable u"
    by (auto simp: tptr_def split: option.splits next_level.splits)
  then show ?thesis using tables_inv_entry [OF assms(1)] by (fastforce simp: entry_ok_def)
qed

lemma walk_lev:
  assumes "tables_inv D st r lev par" and "walk (tptr st) r p = Some t"
  shows "table_ok st t \<and> lev t + length p = D \<and> (p \<noteq> [] \<longrightarrow> 1 \<le> lev t)"
  using assms(2)
proof (induction p arbitrary: t rule: rev_induct)
  case Nil
  then show ?case using assms(1) by (simp add: tables_inv_def)
next
  case (snoc i p)
  then obtain u where "walk (tptr st) r p = Some u" "tptr st u i = Some t"
    by (auto simp: walk_append elim!: bind_SomeE)
  then show ?case using snoc.IH [of u] tptr_SomeD [OF assms(1)] by fastforce
qed

lemma walk_inj:
  assumes inv: "tables_inv D st r lev par"
  shows "walk (tptr st) r p = Some t \<Longrightarrow> walk (tptr st) r q = Some t \<Longrightarrow> q = p"
proof (induction p arbitrary: t q rule: rev_induct)
  case Nil
  then show ?case using walk_lev [OF inv Nil.prems(1)] walk_lev [OF inv Nil.prems(2)] by simp
next
  case (snoc i p)
  then obtain u where u: "walk (tptr st) r p = Some u" "tptr st u i = Some t"
    by (auto simp: walk_append elim!: bind_SomeE)
  have "length q = Suc (length p)"
    using walk_lev [OF inv snoc.prems(1)] walk_lev [OF inv snoc.prems(2)] by simp
  then obtain q' j where q: "q = q' @ [j]" by (cases q rule: rev_cases) auto
  with snoc.prems(2) obtain v where v: "walk (tptr st) r q' = Some v" "tptr st v j = Some t"
    by (auto simp: walk_append elim!: bind_SomeE)
  have "(v, j) = (u, i)" using tptr_SomeD [OF inv u(2)] tptr_SomeD [OF inv v(2)] by simp
  then show ?case using snoc.IH [OF u(1), of q'] v(1) q by simp
qed


text \<open>What the operations read, in terms of the two pointer functions.\<close>
lemma reads_ok:
  assumes inv: "tables_inv D st r lev par" and t: "table_ok st t" and i: "i < 512"
  shows "2 \<le> lev t \<Longrightarrow> next_table st t i = Some (tptr st t i)"
    and "2 \<le> lev t \<Longrightarrow> entry_present st t i = Some (tptr st t i \<noteq> None)"
    and "lev t = 1 \<Longrightarrow> next_page st t i = Some (pptr st t i)"
    and "lev t = 1 \<Longrightarrow> entry_present st t i = Some (pptr st t i \<noteq> None)"
    and "2 \<le> lev t \<Longrightarrow> pptr st t i = None"
    and "lev t = 1 \<Longrightarrow> tptr st t i = None"
proof -
  obtain e where e: "get_entry st t i = Some e" using get_entry_table_ok [OF t i] by blast
  note ok = tables_inv_entry [OF inv e]
  show "2 \<le> lev t \<Longrightarrow> next_table st t i = Some (tptr st t i)"
    "2 \<le> lev t \<Longrightarrow> entry_present st t i = Some (tptr st t i \<noteq> None)"
    "lev t = 1 \<Longrightarrow> next_page st t i = Some (pptr st t i)"
    "lev t = 1 \<Longrightarrow> entry_present st t i = Some (pptr st t i \<noteq> None)"
    "2 \<le> lev t \<Longrightarrow> pptr st t i = None"
    "lev t = 1 \<Longrightarrow> tptr st t i = None"
    using ok e by (auto simp: next_table_def next_page_def entry_present_def entry_ok_def
        get_next_level_address_def tptr_def pptr_def split: next_level.splits)
qed

subsection \<open>Changing one entry\<close>

text \<open>The fields that the table operations leave alone.\<close>
definition same_rest :: "paging \<Rightarrow> paging \<Rightarrow> bool" where
  "same_rest st st' \<longleftrightarrow> root st' = root st \<and> pg_mode st' = pg_mode st \<and>
     mem_access_time st' = mem_access_time st \<and> cur_pdp_num st' = cur_pdp_num st \<and>
     cur_pd_num st' = cur_pd_num st \<and> cur_pt_num st' = cur_pt_num st"

lemma upd_entry_ok:
  assumes "get_entry st t i = Some e"
  obtains st' where "upd_entry f st t i = Some st'"
    and "\<And>x y. get_entry st' x y = (if x = t \<and> y = i then Some (f e) else get_entry st x y)"
    and "\<And>x. table_ok st' x = table_ok st x" and "\<And>x. (pt_heap st' x = None) = (pt_heap st x = None)"
    and "pt_brk st' = pt_brk st" and "buddy_allocator st' = buddy_allocator st" and "same_rest st st'"
proof -
  from assms obtain tab where tab: "pt_heap st t = Some tab" "i < length (entry_array tab)"
      "e = entry_array tab ! i"
    by (auto simp: get_entry_def elim!: bind_SomeE)
  let ?st = "st\<lparr>pt_heap := (pt_heap st)
       (t \<mapsto> tab\<lparr>entry_array := (entry_array tab)[i := f (entry_array tab ! i)]\<rparr>)\<rparr>"
  show ?thesis
  proof
    show "upd_entry f st t i = Some ?st" using tab by (simp add: upd_entry_def)
    show "get_entry ?st x y = (if x = t \<and> y = i then Some (f e) else get_entry st x y)" for x y
      using tab by (auto simp: get_entry_def nth_list_update assert_that_def)
  qed (use tab in \<open>auto simp: table_ok_def same_rest_def\<close>)
qed

lemma tptr_upd:
  assumes "\<And>x y. get_entry st' x y = (if x = t \<and> y = i then Some e else get_entry st x y)"
  shows "tptr st' = upd2 (tptr st) t i (case next_level_ptr e of ToTable u \<Rightarrow> Some u | _ \<Rightarrow> None)"
    and "pptr st' = upd2 (pptr st) t i (case next_level_ptr e of ToPage p \<Rightarrow> Some p | _ \<Rightarrow> None)"
  by (rule ext, rule ext, subst upd2_apply, simp add: tptr_def pptr_def assms)+

lemma upd2_id: "T t i = v \<Longrightarrow> upd2 T t i v = T"
  by (auto simp: upd2_def)

lemma entry_ok_cong: "(\<And>x. table_ok st' x = table_ok st x) \<Longrightarrow> entry_ok st' = entry_ok st"
  by (intro ext) (simp add: entry_ok_def split: next_level.splits)

lemma tables_inv_upd:
  assumes inv: "tables_inv D st r lev par"
    and g: "\<And>x y. get_entry st' x y = (if x = t \<and> y = i then Some e else get_entry st x y)"
    and tab: "\<And>x. table_ok st' x = table_ok st x"
    and dom: "\<And>x. (pt_heap st' x = None) = (pt_heap st x = None)"
    and rest: "pt_brk st' = pt_brk st" "same_rest st st'" and e: "entry_ok st lev par t i e"
  shows "tables_inv D st' r lev par"
proof -
  have "entry_ok st' lev par x y e'" if "get_entry st' x y = Some e'" for x y e'
    using that e tables_inv_entry [OF inv, of x y] by (auto simp: g entry_ok_cong [OF tab] split: if_splits)
  then show ?thesis using inv rest unfolding tables_inv_def same_rest_def tab by (simp add: dom)
qed


text \<open>Writing a leaf entry updates the map at one path.\<close>
lemma leaf_write:
  assumes inv: "tables_inv D st r lev par" and w: "walk (tptr st) r p = Some t"
    and len: "Suc (length p) = D" and i: "i < 512"
    and f: "\<And>e. (is_present (f e) \<longleftrightarrow> next_level_ptr (f e) \<noteq> Null) \<and>
              next_level_ptr (f e) = (case v of None \<Rightarrow> Null | Some pg \<Rightarrow> ToPage pg)"
  obtains st' where "upd_entry f st t i = Some st'" and "tables_inv D st' r lev par"
    and "tptr st' = tptr st" and "pptr st' = upd2 (pptr st) t i v"
    and "lookup (tptr st') (pptr st') r = (lookup (tptr st) (pptr st) r)(p @ [i] := v)"
    and "buddy_allocator st' = buddy_allocator st" and "same_rest st st'"
    and "get_entry st' t i = map_option f (get_entry st t i)"
proof -
  have t: "table_ok st t" "lev t = 1" using walk_lev [OF inv w] len by auto
  obtain e where e: "get_entry st t i = Some e" using get_entry_table_ok [OF t(1) i] by blast
  obtain st' where u: "upd_entry f st t i = Some st'"
    and g: "\<And>x y. get_entry st' x y = (if x = t \<and> y = i then Some (f e) else get_entry st x y)"
    and st': "\<And>x. table_ok st' x = table_ok st x" "\<And>x. (pt_heap st' x = None) = (pt_heap st x = None)"
      "pt_brk st' = pt_brk st" "same_rest st st'" and b: "buddy_allocator st' = buddy_allocator st"
    by (rule upd_entry_ok [OF e, of f]) blast
  have ok: "entry_ok st lev par t i (f e)"
    using f [of e] t by (auto simp: entry_ok_def split: option.splits)
  have "tptr st t i = None" using reads_ok(6) [OF inv t(1) i t(2)] .
  then have T: "tptr st' = tptr st" and P: "pptr st' = upd2 (pptr st) t i v"
    using f [of e] by (simp_all add: tptr_upd [OF g] upd2_id split: option.splits)
  show ?thesis
  proof
    show "tables_inv D st' r lev par" by (rule tables_inv_upd [OF inv g st' ok])
    show "lookup (tptr st') (pptr st') r = (lookup (tptr st) (pptr st) r)(p @ [i] := v)"
      unfolding T P by (rule lookup_leaf [OF w walk_inj [OF inv w]])
    show "get_entry st' t i = map_option f (get_entry st t i)" by (simp add: g e)
  qed (rule u T P b st'(4))+
qed

subsection \<open>Creating and linking tables\<close>

text \<open>At least \<open>k\<close> single pages can be allocated, none of them with the number of the fault signal.\<close>
primrec pages_left :: "nat \<Rightarrow> BuddyAllocator \<Rightarrow> bool" where
  "pages_left 0 a = True"
| "pages_left (Suc k) a = (case allocate_pages a 0 0 of Some (Some p, a') \<Rightarrow> (of_nat p :: Address) \<noteq> PAGE_FAULT_SIG \<and> pages_left k a' | _ \<Rightarrow> False)"

definition has_pages :: "nat \<Rightarrow> paging \<Rightarrow> bool" where
  "has_pages k st = (case buddy_allocator st of None \<Rightarrow> False | Some a \<Rightarrow> pages_left k a)"

text \<open>A table that is in the heap but not linked yet.\<close>
definition fresh :: "paging \<Rightarrow> nat \<Rightarrow> bool" where
  "fresh st u \<longleftrightarrow> table_ok st u \<and> root st \<noteq> Some u \<and> (\<forall>t i. tptr st t i \<noteq> Some u) \<and>
     (\<forall>i e. get_entry st u i = Some e \<longrightarrow> e = BasePDTEntry)"

lemma BasePDTEntry_fields [simp]:
  "next_level_ptr BasePDTEntry = Null" "\<not> is_present BasePDTEntry"
  by (simp_all add: BasePDTEntry_def entry_defs PTE_bits)

lemma fresh_ptrs:
  assumes "fresh st u"
  shows "tptr st u i = None" and "pptr st u i = None"
proof -
  have "get_entry st u i = None \<or> get_entry st u i = Some BasePDTEntry"
    using assms by (cases "get_entry st u i") (auto simp: fresh_def)
  then show "tptr st u i = None" "pptr st u i = None" by (auto simp: tptr_def pptr_def)
qed

lemma entry_ok_mono:
  "entry_ok st lev par t i e \<Longrightarrow> (\<And>x. table_ok st x \<Longrightarrow> table_ok st' x) \<Longrightarrow> entry_ok st' lev par t i e"
  by (auto simp: entry_ok_def split: next_level.splits)

lemma make_table_ok:
  assumes inv: "tables_inv D st r lev par" and pages: "has_pages (Suc k) st"
  obtains u st' where "make_table st = Some (u, st')" and "tables_inv D st' r lev par"
    and "fresh st' u" and "\<And>v. fresh st v \<Longrightarrow> fresh st' v \<and> v \<noteq> u"
    and "tptr st' = tptr st" and "pptr st' = pptr st" and "has_pages k st'" and "same_rest st st'"
proof -
  from pages obtain a p a' where a: "buddy_allocator st = Some a" "allocate_pages a 0 0 = Some (Some p, a')"
      "pages_left k a'"
    by (auto simp: has_pages_def split: option.splits)
  let ?u = "pt_brk st"
  let ?st = "st\<lparr>buddy_allocator := Some a', pt_heap := (pt_heap st)(?u \<mapsto> PageTable 512 (Some p)),
               pt_brk := Suc ?u\<rparr>"
  have new: "pt_heap st ?u = None" using inv by (auto simp: tables_inv_def)
  have g: "get_entry ?st x y = (if x = ?u then (if y < 512 then Some BasePDTEntry else None)
      else get_entry st x y)" for x y
    by (simp add: get_entry_def PageTable_def assert_that_def)
  have gu: "get_entry st ?u y = None" for y by (simp add: get_entry_def new)
  have T: "tptr ?st = tptr st" and P: "pptr ?st = pptr st"
    by (rule ext, rule ext, simp add: tptr_def pptr_def g gu)+
  have ok: "table_ok ?st x = (x = ?u \<or> table_ok st x)" for x
    using new by (auto simp: table_ok_def PageTable_def)
  have nt: "\<not> table_ok st ?u" by (simp add: table_ok_def new)
  have "entry_ok ?st lev par x y e" if "get_entry ?st x y = Some e" for x y e
  proof (cases "x = ?u")
    case True
    then show ?thesis using that by (auto simp: g entry_ok_def split: if_splits)
  next
    case False
    then have "entry_ok st lev par x y e" using that tables_inv_entry [OF inv] by (simp add: g)
    then show ?thesis by (rule entry_ok_mono) (simp add: ok)
  qed
  then have "tables_inv D ?st r lev par"
    using inv unfolding tables_inv_def ok by (auto simp: less_Suc_eq)
  moreover have "fresh ?st ?u"
    unfolding fresh_def ok T using nt inv tptr_SomeD [OF inv] by (auto simp: g tables_inv_def split: if_splits)
  moreover have "fresh ?st v \<and> v \<noteq> ?u" if "fresh st v" for v
    using that nt unfolding fresh_def ok T by (auto simp: g split: if_splits)
  ultimately show ?thesis
    by (intro that [of ?u ?st])
       (auto simp: make_table_def table_page_def a new_table_def ENTRY_512_def T P has_pages_def same_rest_def)
qed


lemma reach_not_fresh:
  assumes "tables_inv D st r lev par" and "walk (tptr st) r p = Some t" and "fresh st u"
  shows "t \<noteq> u"
proof (cases p rule: rev_cases)
  case Nil
  then show ?thesis using assms by (auto simp: fresh_def tables_inv_def)
next
  case (snoc q i)
  with assms(2) obtain x where "tptr st x i = Some t" by (auto simp: walk_append elim!: bind_SomeE)
  then show ?thesis using assms(3) by (auto simp: fresh_def)
qed

text \<open>Level and parent of a fresh table can still be chosen.\<close>
lemma relabel_fresh:
  assumes inv: "tables_inv D st r lev par" and u: "fresh st u"
  shows "tables_inv D st r (lev(u := l)) (par(u := x))"
proof -
  have "entry_ok st (lev(u := l)) (par(u := x)) y j d" if d: "get_entry st y j = Some d" for y j d
  proof (cases "y = u")
    case True
    then have "d = BasePDTEntry" using u d by (auto simp: fresh_def)
    then show ?thesis by (simp add: entry_ok_def)
  next
    case False
    have "tptr st y j \<noteq> Some u" using u by (simp add: fresh_def)
    then have "next_level_ptr d \<noteq> ToTable u" using d by (auto simp: tptr_def)
    then show ?thesis using False tables_inv_entry [OF inv d] by (auto simp: entry_ok_def split: next_level.splits)
  qed
  then show ?thesis using inv u by (auto simp: tables_inv_def fresh_def)
qed

text \<open>Linking a fresh table makes it reachable and changes no mapping.\<close>
lemma link_ok:
  assumes inv: "tables_inv D st r lev par" and u: "fresh st u" and w: "walk (tptr st) r p = Some t"
    and len: "length p + 2 \<le> D" and i: "i < 512" and none: "tptr st t i = None"
  obtains st' lev' par' where "validate_entry st t i u = Some st'" and "tables_inv D st' r lev' par'"
    and "walk (tptr st') r (p @ [i]) = Some u" and "\<And>j. tptr st' u j = None"
    and "\<And>q x. walk (tptr st) r q = Some x \<Longrightarrow> walk (tptr st') r q = Some x"
    and "lookup (tptr st') (pptr st') r = lookup (tptr st) (pptr st) r"
    and "\<And>v. fresh st v \<Longrightarrow> v \<noteq> u \<Longrightarrow> fresh st' v"
    and "buddy_allocator st' = buddy_allocator st" and "same_rest st st'"
proof -
  have tu: "t \<noteq> u" by (rule reach_not_fresh [OF inv w u])
  have t: "table_ok st t" "lev t + length p = D" using walk_lev [OF inv w] by auto
  obtain e where e: "get_entry st t i = Some e" using get_entry_table_ok [OF t(1) i] by blast
  let ?e = "validate_page_table u e"
  obtain st' where up: "upd_entry (validate_page_table u) st t i = Some st'"
    and g: "\<And>x y. get_entry st' x y = (if x = t \<and> y = i then Some ?e else get_entry st x y)"
    and st': "\<And>x. table_ok st' x = table_ok st x" "\<And>x. (pt_heap st' x = None) = (pt_heap st x = None)"
      "pt_brk st' = pt_brk st" "same_rest st st'" and b: "buddy_allocator st' = buddy_allocator st"
    by (rule upd_entry_ok [OF e, of "validate_page_table u"]) blast
  let ?lev = "lev(u := lev t - 1)" and ?par = "par(u := Some (t, i))"
  have ur: "table_ok st u" using u by (simp add: fresh_def)
  have "entry_ok st ?lev ?par t i ?e"
    using ur tu t len by (auto simp: entry_ok_def validate_page_table_def is_present_def test_bits_e_def PTE_bits
        bit.conj_disj_distrib2 and.commute)
  from tables_inv_upd [OF relabel_fresh [OF inv u] g st' this] have inv': "tables_inv D st' r ?lev ?par" .
  have pn: "pptr st t i = None" using reads_ok(5) [OF inv t(1) i] t len by simp
  have T: "tptr st' = upd2 (tptr st) t i (Some u)" and P: "pptr st' = pptr st"
    by (simp_all add: tptr_upd [OF g] validate_page_table_def upd2_id pn)
  show ?thesis
  proof
    show "validate_entry st t i u = Some st'"
      using up ur by (auto simp: validate_entry_def table_ok_def split: option.splits)
    show "tables_inv D st' r ?lev ?par" by (rule inv')
    show mono: "walk (tptr st') r q = Some x" if "walk (tptr st) r q = Some x" for q x
      using that unfolding T by (rule walk_link_mono [of "tptr st", OF none])
    show "walk (tptr st') r (p @ [i]) = Some u" using mono [OF w] by (simp add: walk_append T)
    show "tptr st' u j = None" for j using tu fresh_ptrs [OF u] by (simp add: T)
    show "lookup (tptr st') (pptr st') r = lookup (tptr st) (pptr st) r"
      unfolding T P by (rule lookup_link) (use none tu fresh_ptrs [OF u] in auto)
    show "fresh st' v" if "fresh st v" "v \<noteq> u" for v
      using that reach_not_fresh [OF inv w that(1)] st' unfolding fresh_def T
      by (auto simp: g upd2_apply [of _ _ _ _ _ y for y] same_rest_def)
  qed (rule b st'(4))+
qed


subsection \<open>Allocating the tables of a path\<close>

lemma counter_frame [simp]:
  "get_entry (st\<lparr>cur_pdp_num := x\<rparr>) = get_entry st" "get_entry (st\<lparr>cur_pd_num := x\<rparr>) = get_entry st"
  "get_entry (st\<lparr>cur_pt_num := x\<rparr>) = get_entry st"
  "table_ok (st\<lparr>cur_pdp_num := x\<rparr>) = table_ok st" "table_ok (st\<lparr>cur_pd_num := x\<rparr>) = table_ok st"
  "table_ok (st\<lparr>cur_pt_num := x\<rparr>) = table_ok st"
  by (intro ext; simp add: get_entry_def table_ok_def)+

lemma counter_frame_ptrs [simp]:
  "tptr (st\<lparr>cur_pdp_num := x\<rparr>) = tptr st" "tptr (st\<lparr>cur_pd_num := x\<rparr>) = tptr st"
  "tptr (st\<lparr>cur_pt_num := x\<rparr>) = tptr st"
  "pptr (st\<lparr>cur_pdp_num := x\<rparr>) = pptr st" "pptr (st\<lparr>cur_pd_num := x\<rparr>) = pptr st"
  "pptr (st\<lparr>cur_pt_num := x\<rparr>) = pptr st"
  by (intro ext; simp add: tptr_def pptr_def)+

lemma counter_frame_entry [simp]:
  "entry_ok (st\<lparr>cur_pdp_num := x\<rparr>) = entry_ok st" "entry_ok (st\<lparr>cur_pd_num := x\<rparr>) = entry_ok st"
  "entry_ok (st\<lparr>cur_pt_num := x\<rparr>) = entry_ok st"
  by (rule entry_ok_cong, simp)+

lemma counter_frame_inv [simp]:
  "tables_inv D (st\<lparr>cur_pdp_num := x\<rparr>) r lev par = tables_inv D st r lev par"
  "tables_inv D (st\<lparr>cur_pd_num := x\<rparr>) r lev par = tables_inv D st r lev par"
  "tables_inv D (st\<lparr>cur_pt_num := x\<rparr>) r lev par = tables_inv D st r lev par"
  "has_pages k (st\<lparr>cur_pdp_num := x\<rparr>) = has_pages k st"
  "has_pages k (st\<lparr>cur_pd_num := x\<rparr>) = has_pages k st"
  "has_pages k (st\<lparr>cur_pt_num := x\<rparr>) = has_pages k st"
  "fresh (st\<lparr>cur_pdp_num := x\<rparr>) = fresh st" "fresh (st\<lparr>cur_pd_num := x\<rparr>) = fresh st"
  by (simp_all add: tables_inv_def has_pages_def fun_eq_iff fresh_def)

text \<open>The new state has more tables, the same mappings and the same parameters.\<close>
definition extends :: "nat \<Rightarrow> nat \<Rightarrow> paging \<Rightarrow> paging \<Rightarrow> bool" where
  "extends D r st st' \<longleftrightarrow> pg_state D r st' \<and>
     (\<forall>q x. walk (tptr st) r q = Some x \<longrightarrow> walk (tptr st') r q = Some x) \<and>
     lookup (tptr st') (pptr st') r = lookup (tptr st) (pptr st) r \<and>
     pg_mode st' = pg_mode st \<and> mem_access_time st' = mem_access_time st"

lemma extends_refl: "pg_state D r st \<Longrightarrow> extends D r st st"
  by (simp add: extends_def)

lemma extends_trans: "extends D r st st1 \<Longrightarrow> extends D r st1 st2 \<Longrightarrow> extends D r st st2"
  by (auto simp: extends_def)

lemma extends_walk: "extends D r st st' \<Longrightarrow> walk (tptr st) r q = Some x \<Longrightarrow> walk (tptr st') r q = Some x"
  by (simp add: extends_def)

lemma extends_counter:
  "extends D r st (st'\<lparr>cur_pdp_num := x\<rparr>) = extends D r st st'"
  "extends D r st (st'\<lparr>cur_pd_num := x\<rparr>) = extends D r st st'"
  "extends D r st (st'\<lparr>cur_pt_num := x\<rparr>) = extends D r st st'"
  by (simp_all add: extends_def pg_state_def)

lemma make_table_extends:
  assumes "pg_state D r st" and "has_pages (Suc k) st"
  obtains u st' where "make_table st = Some (u, st')" and "extends D r st st'" and "fresh st' u"
    and "\<And>v. fresh st v \<Longrightarrow> fresh st' v \<and> v \<noteq> u" and "tptr st' = tptr st"
    and "has_pages k st'" and "cur_pdp_num st' = cur_pdp_num st"
proof -
  from assms(1) obtain lev par where inv: "tables_inv D st r lev par" by (auto simp: pg_state_def)
  show ?thesis
    by (rule make_table_ok [OF inv assms(2)])
       (rule that, assumption, auto simp: extends_def pg_state_def same_rest_def)
qed

lemma link_extends:
  assumes "pg_state D r st" and "fresh st u" and "walk (tptr st) r p = Some t"
    and "length p + 2 \<le> D" and "i < 512" and "tptr st t i = None"
  obtains st' where "validate_entry st t i u = Some st'" and "extends D r st st'"
    and "walk (tptr st') r (p @ [i]) = Some u" and "\<And>j. tptr st' u j = None"
    and "\<And>v. fresh st v \<Longrightarrow> v \<noteq> u \<Longrightarrow> fresh st' v" and "\<And>k. has_pages k st' = has_pages k st"
proof -
  from assms(1) obtain lev par where inv: "tables_inv D st r lev par" by (auto simp: pg_state_def)
  show ?thesis
    by (rule link_ok [OF inv assms(2-6)])
       (rule that, assumption, auto simp: extends_def pg_state_def same_rest_def has_pages_def)
qed

lemma grow_ok:
  assumes st: "pg_state D r st" and k: "has_pages (Suc k) st" and w: "walk (tptr st) r p = Some t"
    and "length p + 2 \<le> D" and "i < 512" and "tptr st t i = None"
  shows "\<exists>u st1 st2. make_table st = Some (u, st1) \<and> validate_entry st1 t i u = Some st2 \<and>
           extends D r st st2 \<and> walk (tptr st2) r (p @ [i]) = Some u \<and> (\<forall>j. tptr st2 u j = None) \<and>
           has_pages k st2"
proof -
  obtain u st1 where 1: "make_table st = Some (u, st1)" "extends D r st st1" "fresh st1 u"
      "tptr st1 = tptr st" "has_pages k st1"
    using make_table_extends [OF st k] by metis
  have "pg_state D r st1" using 1(2) by (simp add: extends_def)
  from link_extends [OF this 1(3), of p t i] obtain st2 where 2: "validate_entry st1 t i u = Some st2"
      "extends D r st1 st2" "walk (tptr st2) r (p @ [i]) = Some u" "\<And>j. tptr st2 u j = None"
      "\<And>k. has_pages k st2 = has_pages k st1"
    using assms 1(4) by metis
  then show ?thesis using 1 extends_trans [OF 1(2) 2(2)] by auto
qed


lemma pages_left_Suc: "pages_left (Suc k) a \<Longrightarrow> pages_left k a"
proof (induction k arbitrary: a)
  case (Suc k)
  then obtain p a' where "allocate_pages a 0 0 = Some (Some p, a')" "pages_left (Suc k) a'"
      "(of_nat p :: Address) \<noteq> PAGE_FAULT_SIG"
    by (fastforce split: option.splits simp del: pages_left.simps(2) simp: pages_left.simps(2) [of _ a])
  then show ?case using Suc.IH [of a'] by simp
qed simp

lemma has_pages_Suc: "has_pages (Suc k) st \<Longrightarrow> has_pages k st"
  unfolding has_pages_def by (cases "buddy_allocator st") (auto simp only: option.case pages_left_Suc)

lemma pg_state_root: "pg_state D r st \<Longrightarrow> root st = Some r"
  by (auto simp: pg_state_def tables_inv_def)

text \<open>Reading above the leaves.\<close>
lemma inner_reads:
  assumes "pg_state D r st" and "walk (tptr st) r p = Some t" and "length p + 2 \<le> D" and "i < 512"
  shows "next_table st t i = Some (tptr st t i)" and "entry_present st t i = Some (tptr st t i \<noteq> None)"
proof -
  from assms(1) obtain lev par where inv: "tables_inv D st r lev par" by (auto simp: pg_state_def)
  have "table_ok st t" "2 \<le> lev t" using walk_lev [OF inv assms(2)] assms(3) by auto
  from reads_ok(1,2) [OF inv this(1) assms(4) this(2)]
  show "next_table st t i = Some (tptr st t i)" "entry_present st t i = Some (tptr st t i \<noteq> None)" .
qed

text \<open>The result of an allocation that finds or makes the table of a path.\<close>
definition allocated :: "nat \<Rightarrow> nat \<Rightarrow> nat list \<Rightarrow> nat \<Rightarrow> nat \<Rightarrow> paging \<Rightarrow> alloc_table option \<Rightarrow> bool" where
  "allocated D r p k tm st res \<longleftrightarrow> (\<exists>u n st'. res = Some (Some u, n, st') \<and> extends D r st st' \<and>
     walk (tptr st') r p = Some u \<and> has_pages k st' \<and> n \<le> tm + length p \<and>
     (walk (tptr st) r p = None \<longrightarrow> (\<forall>j. tptr st' u j = None)))"

lemma allocate_pdp_ok:
  assumes st: "pg_state D r st" and k: "has_pages (Suc k) st" and D: "2 \<le> D" and i: "i < 512"
    and num: "unat (cur_pdp_num st) < 512"
  shows "allocated D r [i] k time st (allocate_page_directory_pointer st i time)"
proof (cases "tptr st r i")
  case (Some u)
  then show ?thesis
    using inner_reads [OF st, of "[]" r i] D i num has_pages_Suc [OF k] extends_refl [OF st]
    by (simp add: allocated_def allocate_page_directory_pointer_def pg_state_root [OF st] ENTRY_512_def)
next
  case None
  obtain u st1 st2 where "make_table st = Some (u, st1)" "validate_entry st1 r i u = Some st2"
      "extends D r st st2" "walk (tptr st2) r ([] @ [i]) = Some u" "has_pages k st2"
      "\<forall>j. tptr st2 u j = None"
    using grow_ok [OF st k, of "[]" r i] D i None by auto
  then show ?thesis
    using inner_reads [OF st, of "[]" r i] D i num None
    by (simp add: allocated_def allocate_page_directory_pointer_def pg_state_root [OF st]
        extends_counter ENTRY_512_def)
qed

lemma allocate_pd_ok:
  assumes st: "pg_state D r st" and k: "has_pages (Suc (Suc k)) st" and D: "3 \<le> D" and i: "i < 512" "j < 512"
    and num: "tptr st r i = None \<longrightarrow> unat (cur_pdp_num st) < 512"
  shows "allocated D r [i, j] k time st (allocate_page_directory st i j time)"
proof (cases "tptr st r i")
  case (Some u)
  then have w: "walk (tptr st) r [i] = Some u" by simp
  note rd = inner_reads [OF st, of "[]" r i] inner_reads [OF st w, of j]
  show ?thesis
  proof (cases "tptr st u j")
    case (Some v)
    then show ?thesis using rd D i w has_pages_Suc [OF has_pages_Suc [OF k]] extends_refl [OF st]
      by (simp add: allocated_def allocate_page_directory_def pg_state_root [OF st])
  next
    case None
    obtain v st1 st2 where "make_table st = Some (v, st1)" "validate_entry st1 u j v = Some st2"
        "extends D r st st2" "walk (tptr st2) r ([i] @ [j]) = Some v" "has_pages k st2"
        "\<forall>l. tptr st2 v l = None"
      using grow_ok [OF st has_pages_Suc [OF k] w, of j] D i None by auto
    then show ?thesis using rd D i w None
      by (simp add: allocated_def allocate_page_directory_def pg_state_root [OF st] extends_counter)
  qed
next
  case None
  have "allocated D r [i] (Suc k) time st (allocate_page_directory_pointer st i time)"
    using allocate_pdp_ok [OF st k] D i None num by simp
  then obtain u n st1 where 1: "allocate_page_directory_pointer st i time = Some (Some u, n, st1)"
      "extends D r st st1" "walk (tptr st1) r [i] = Some u" "has_pages (Suc k) st1" "tptr st1 u j = None" "n \<le> time + 1"
    using None by (auto simp: allocated_def)
  have st1: "pg_state D r st1" using 1(2) by (simp add: extends_def)
  obtain v st2 st3 where "make_table st1 = Some (v, st2)" "validate_entry st2 u j v = Some st3"
        "extends D r st1 st3" "walk (tptr st3) r ([i] @ [j]) = Some v" "has_pages k st3"
        "\<forall>l. tptr st3 v l = None"
    using grow_ok [OF st1 1(4,3), of j] D i 1(5) by auto
  then show ?thesis
    using inner_reads [OF st, of "[]" r i] inner_reads [OF st1, of "[]" r i] D i None 1
    by (simp add: allocated_def allocate_page_directory_def pg_state_root [OF st] pg_state_root [OF st1]
        extends_counter) (meson extends_trans)
qed


lemma extends_pg_state: "extends D r st st' \<Longrightarrow> pg_state D r st'"
  by (simp add: extends_def)

lemma make_three_tables:
  assumes "pg_state D r st" and "has_pages (Suc (Suc (Suc k))) st"
  obtains a b c st1 st2 st3 where "make_table st = Some (a, st1)" and "make_table st1 = Some (b, st2)"
    and "make_table st2 = Some (c, st3)" and "extends D r st st3" and "tptr st3 = tptr st"
    and "fresh st3 a" "fresh st3 b" "fresh st3 c" and "a \<noteq> b" "a \<noteq> c" "b \<noteq> c" and "has_pages k st3"
proof -
  obtain a st1 where 1: "make_table st = Some (a, st1)" "extends D r st st1" "fresh st1 a"
      "tptr st1 = tptr st" "has_pages (Suc (Suc k)) st1"
    using make_table_extends [OF assms] by metis
  obtain b st2 where 2: "make_table st1 = Some (b, st2)" "extends D r st1 st2" "fresh st2 b"
      "\<And>v. fresh st1 v \<Longrightarrow> fresh st2 v \<and> v \<noteq> b" "tptr st2 = tptr st1" "has_pages (Suc k) st2"
    using make_table_extends [OF extends_pg_state [OF 1(2)] 1(5)] by metis
  obtain c st3 where 3: "make_table st2 = Some (c, st3)" "extends D r st2 st3" "fresh st3 c"
      "\<And>v. fresh st2 v \<Longrightarrow> fresh st3 v \<and> v \<noteq> c" "tptr st3 = tptr st2" "has_pages k st3"
    using make_table_extends [OF extends_pg_state [OF 2(2)] 2(6)] by metis
  show ?thesis
    by (rule that [OF 1(1) 2(1) 3(1) extends_trans [OF 1(2) extends_trans [OF 2(2) 3(2)]]])
       (use 1 2 3 in auto)
qed

text \<open>The three tables of a path that has none yet.\<close>
lemma link_three_tables:
  assumes st: "pg_state D r st" and D: "4 \<le> D" and i: "i < 512" "j < 512" "l < 512"
    and abc: "fresh st a" "fresh st b" "fresh st c" "a \<noteq> b" "a \<noteq> c" "b \<noteq> c" and none: "tptr st r i = None"
  shows "\<exists>st1 st2 st3. validate_entry st r i a = Some st1 \<and>
           validate_entry (st1\<lparr>cur_pdp_num := cur_pdp_num st1 + 1\<rparr>) a j b = Some st2 \<and>
           validate_entry (st2\<lparr>cur_pd_num := cur_pd_num st2 + 1\<rparr>) b l c = Some st3 \<and>
           extends D r st st3 \<and> walk (tptr st3) r [i, j, l] = Some c \<and> (\<forall>m. tptr st3 c m = None) \<and>
           has_pages k st3 = has_pages k st"
proof -
  obtain st1 where 1: "validate_entry st r i a = Some st1" "extends D r st st1"
      "walk (tptr st1) r ([] @ [i]) = Some a" "\<And>j. tptr st1 a j = None"
      "\<And>v. fresh st v \<Longrightarrow> v \<noteq> a \<Longrightarrow> fresh st1 v" "\<And>k. has_pages k st1 = has_pages k st"
    by (rule link_extends [OF st abc(1), of "[]" r i]) (use D i none in auto)
  let ?st1 = "st1\<lparr>cur_pdp_num := cur_pdp_num st1 + 1\<rparr>"
  have e1: "extends D r st ?st1" using 1(2) by (simp add: extends_counter)
  obtain st2 where 2: "validate_entry ?st1 a j b = Some st2" "extends D r ?st1 st2"
      "walk (tptr st2) r ([i] @ [j]) = Some b" "\<And>j. tptr st2 b j = None"
      "\<And>v. fresh ?st1 v \<Longrightarrow> v \<noteq> b \<Longrightarrow> fresh st2 v" "\<And>k. has_pages k st2 = has_pages k ?st1"
    by (rule link_extends [OF extends_pg_state [OF e1], of b "[i]" a j]) (use D i abc 1 in auto)
  let ?st2 = "st2\<lparr>cur_pd_num := cur_pd_num st2 + 1\<rparr>"
  have e2: "extends D r ?st1 ?st2" using 2(2) by (simp add: extends_counter)
  obtain st3 where 3: "validate_entry ?st2 b l c = Some st3" "extends D r ?st2 st3"
      "walk (tptr st3) r ([i, j] @ [l]) = Some c" "\<And>j. tptr st3 c j = None"
      "\<And>k. has_pages k st3 = has_pages k ?st2"
    by (rule link_extends [OF extends_pg_state [OF e2], of c "[i, j]" b l]) (use D i abc 1 2 in auto)
  show ?thesis
    using 1 2 3 extends_trans [OF e1 extends_trans [OF e2 3(2)]] by auto
qed

lemma allocate_pt_ok:
  assumes st: "pg_state D r st" and k: "has_pages (Suc (Suc (Suc k))) st" and D: "4 \<le> D"
    and i: "i < 512" "j < 512" "l < 512" and mode: "pg_mode st = LongMode_Normal"
  shows "allocated D r [i, j, l] k 0 st (allocate_page_table st i j l)"
proof (cases "tptr st r i")
  case None
  obtain a b c st1 st2 st3 where m: "make_table st = Some (a, st1)" "make_table st1 = Some (b, st2)"
      "make_table st2 = Some (c, st3)" "extends D r st st3" "tptr st3 = tptr st"
      "fresh st3 a" "fresh st3 b" "fresh st3 c" "a \<noteq> b" "a \<noteq> c" "b \<noteq> c" "has_pages k st3"
    using make_three_tables [OF st k] by metis
  obtain st4 st5 st6 where n: "validate_entry st3 r i a = Some st4"
      "validate_entry (st4\<lparr>cur_pdp_num := cur_pdp_num st4 + 1\<rparr>) a j b = Some st5"
      "validate_entry (st5\<lparr>cur_pd_num := cur_pd_num st5 + 1\<rparr>) b l c = Some st6"
      "extends D r st3 st6" "walk (tptr st6) r [i, j, l] = Some c" "\<forall>m. tptr st6 c m = None"
      "has_pages k st6 = has_pages k st3"
    using link_three_tables [OF extends_pg_state [OF m(4)] D i m(6-11)] None m(5) by metis
  show ?thesis
    using inner_reads [OF st, of "[]" r i] D i None mode m n extends_trans [OF m(4) n(4)]
    by (simp add: allocated_def allocate_page_table_def pg_state_root [OF st] extends_counter)
next
  case (Some u)
  then have w: "walk (tptr st) r [i] = Some u" by simp
  note rd = inner_reads [OF st, of "[]" r i] inner_reads [OF st w, of j]
  show ?thesis
  proof (cases "tptr st u j")
    case (Some v)
    then have w2: "walk (tptr st) r [i, j] = Some v" using w by simp
    note rd2 = inner_reads [OF st w2, of l]
    show ?thesis
    proof (cases "tptr st v l")
      case (Some x)
      then show ?thesis
        using rd rd2 D i mode w w2 has_pages_Suc [OF has_pages_Suc [OF has_pages_Suc [OF k]]] extends_refl [OF st]
        by (simp add: allocated_def allocate_page_table_def pg_state_root [OF st])
    next
      case None
      obtain x st1 st2 where "make_table st = Some (x, st1)" "validate_entry st1 v l x = Some st2"
          "extends D r st st2" "walk (tptr st2) r ([i, j] @ [l]) = Some x" "has_pages k st2"
          "\<forall>m. tptr st2 x m = None"
        using grow_ok [OF st has_pages_Suc [OF has_pages_Suc [OF k]] w2, of l] D i None by auto
      then show ?thesis using rd rd2 D i mode w w2 None
        by (simp add: allocated_def allocate_page_table_def pg_state_root [OF st] extends_counter)
    qed
  next
    case None
    have "allocated D r [i, j] (Suc k) 0 st (allocate_page_directory st i j 0)"
      using allocate_pd_ok [OF st k, of i j] D i Some by simp
    then obtain v n st1 where 1: "allocate_page_directory st i j 0 = Some (Some v, n, st1)"
        "extends D r st st1" "walk (tptr st1) r [i, j] = Some v" "has_pages (Suc k) st1" "tptr st1 v l = None" "n \<le> 2"
      using None w by (auto simp: allocated_def)
    note st1 = extends_pg_state [OF 1(2)]
    obtain x st2 st3 where "make_table st1 = Some (x, st2)" "validate_entry st2 v l x = Some st3"
        "extends D r st1 st3" "walk (tptr st3) r ([i, j] @ [l]) = Some x" "has_pages k st3"
        "\<forall>m. tptr st3 x m = None"
      using grow_ok [OF st1 1(4,3), of l] D i 1(5) by auto
    then show ?thesis
      using rd inner_reads [OF st1 extends_walk [OF 1(2) w], of j] D i None 1 w mode
        extends_walk [OF 1(2) w]
      by (simp add: allocated_def allocate_page_table_def pg_state_root [OF st] extends_counter)
        (meson extends_trans)
  qed
qed


subsection \<open>The map of a paging state\<close>

text \<open>The number of indices of a path in a mode.\<close>
definition depth :: "PagingStyle \<Rightarrow> nat" where
  "depth mode = (case mode of LongMode_Normal \<Rightarrow> 4 | LongMode_Middle \<Rightarrow> 3 | LongMode_Huge \<Rightarrow> 2 | _ \<Rightarrow> 0)"

definition index_path :: "PagingStyle \<Rightarrow> Address \<Rightarrow> nat list" where
  "index_path mode addr =
     (case get_domains addr mode of (pml4, pdp, pd, pt) \<Rightarrow> take (depth mode) [pml4, pdp, pd, pt])"

definition page_map :: "paging \<Rightarrow> nat list \<Rightarrow> nat option" where
  "page_map st q = (case root st of None \<Rightarrow> None | Some r \<Rightarrow> lookup (tptr st) (pptr st) r q)"

definition paging_inv :: "paging \<Rightarrow> bool" where
  "paging_inv st \<longleftrightarrow> depth (pg_mode st) \<noteq> 0 \<and> (\<exists>r. pg_state (depth (pg_mode st)) r st)"

lemma page_map_eq: "pg_state D r st \<Longrightarrow> page_map st = lookup (tptr st) (pptr st) r"
  by (rule ext) (simp add: page_map_def pg_state_root)

lemma long_mode_cases:
  assumes "depth mode \<noteq> 0"
  obtains "mode = LongMode_Normal" | "mode = LongMode_Middle" | "mode = LongMode_Huge"
  using assms by (cases mode) (auto simp: depth_def)

text \<open>The table of a leaf entry and the index in it: the last index is at most 511.\<close>
lemma indices_less:
  "unat (get_bit_value addr 39 47) < 512" "unat (get_bit_value addr 30 38) < 512"
  "unat (get_bit_value addr 21 29) < 512" "unat (get_bit_value addr 12 20) < 512"
  using get_bit_value_less [of 39 47 addr] get_bit_value_less [of 30 38 addr]
    get_bit_value_less [of 21 29 addr] get_bit_value_less [of 12 20 addr] by simp_all

lemma index_less_no_index: "i < 512 \<Longrightarrow> i \<noteq> no_index"
  by (simp add: no_index_def)

lemma validate_page_entry_fields [simp]:
  "is_present (validate_page_entry pg e)" "next_level_ptr (validate_page_entry pg e) = ToPage pg"
  by (simp_all add: validate_page_entry_def entry_defs PTE_bits bit.conj_disj_distrib2 and.assoc)

lemma validate_page_ok:
  assumes "pg_state D r st" and "walk (tptr st) r p = Some t" and "Suc (length p) = D" and "i < 512"
  shows "\<exists>st'. validate_page st t i pg = Some st' \<and> entry_present st' t i = Some True \<and>
           pg_state D r st' \<and> pg_mode st' = pg_mode st \<and> mem_access_time st' = mem_access_time st \<and>
           page_map st' = (page_map st)(p @ [i] \<mapsto> pg) \<and>
           get_entry st' t i = map_option (validate_page_entry pg) (get_entry st t i) \<and>
           (\<forall>k. has_pages k st' = has_pages k st) \<and> tptr st' = tptr st"
proof -
  from assms(1) obtain lev par where inv: "tables_inv D st r lev par" by (auto simp: pg_state_def)
  obtain st' where u: "upd_entry (validate_page_entry pg) st t i = Some st'" and inv': "tables_inv D st' r lev par"
    and P: "pptr st' = upd2 (pptr st) t i (Some pg)" and T: "tptr st' = tptr st"
    and l: "lookup (tptr st') (pptr st') r = (lookup (tptr st) (pptr st) r)(p @ [i] := Some pg)"
    and b: "buddy_allocator st' = buddy_allocator st" and rest: "same_rest st st'"
    and g: "get_entry st' t i = map_option (validate_page_entry pg) (get_entry st t i)"
    by (rule leaf_write [OF inv assms(2-4), of "validate_page_entry pg" "Some pg"]) auto
  have t: "table_ok st' t" "lev t = 1" using walk_lev [OF inv', of p t] assms(2,3) T by auto
  from inv' have st': "pg_state D r st'" by (auto simp: pg_state_def)
  show ?thesis
    using u st' l rest g b reads_ok(4) [OF inv' t(1) assms(4) t(2)]
    by (simp add: validate_page_def page_map_eq [OF st'] page_map_eq [OF assms(1)] same_rest_def P T has_pages_def)
qed

text \<open>The allocation that \<^verbatim>\<open>map_page_table\<close> makes in each mode.\<close>
definition leaf_alloc :: "paging \<Rightarrow> Address \<Rightarrow> alloc_table option" where
  "leaf_alloc st addr = (case get_domains addr (pg_mode st) of (pml4, pdp, pd, pt) \<Rightarrow>
     (case pg_mode st of
        LongMode_Normal \<Rightarrow> allocate_page_table st pml4 pdp pd
      | LongMode_Middle \<Rightarrow> allocate_page_directory st pml4 pdp 0
      | _ \<Rightarrow> allocate_page_directory_pointer st pml4 0))"

lemma leaf_alloc_ok:
  assumes mode: "depth (pg_mode st) \<noteq> 0" and st: "pg_state (depth (pg_mode st)) r st"
    and k: "has_pages (3 + k) st" and num: "pg_mode st \<noteq> LongMode_Normal \<Longrightarrow> unat (cur_pdp_num st) < 512"
  shows "allocated (depth (pg_mode st)) r (butlast (index_path (pg_mode st) addr)) k 0 st (leaf_alloc st addr)"
proof -
  note ks = k [unfolded numeral_3_eq_3 add_Suc add_0]
  from mode show ?thesis
  proof (cases rule: long_mode_cases)
    case 1
    then show ?thesis using allocate_pt_ok [OF st ks, of _ _ _] indices_less [of addr]
      by (simp add: leaf_alloc_def index_path_def get_domains_def depth_def)
  next
    case 2
    then show ?thesis using allocate_pd_ok [OF st has_pages_Suc [OF ks]] indices_less [of addr] num
      by (simp add: leaf_alloc_def index_path_def get_domains_def depth_def)
  next
    case 3
    then show ?thesis using allocate_pdp_ok [OF st has_pages_Suc [OF has_pages_Suc [OF ks]]]
        indices_less [of addr] num
      by (simp add: leaf_alloc_def index_path_def get_domains_def depth_def)
  qed
qed

lemma index_path_facts:
  assumes "depth mode \<noteq> 0"
  shows "length (index_path mode addr) = depth mode" and "index_path mode addr \<noteq> []"
    and "last (index_path mode addr) < 512" and "set (index_path mode addr) \<subseteq> {..<512}"
  using assms indices_less [of addr]
  by (cases rule: long_mode_cases; simp add: index_path_def get_domains_def depth_def)+

lemma map_page_table_eq:
  assumes "depth (pg_mode st) \<noteq> 0"
  shows "map_page_table st addr pg = do {
     (table, alloc_time, st1) \<leftarrow> leaf_alloc st addr;
     t \<leftarrow> table;
     st2 \<leftarrow> validate_page st1 t (last (index_path (pg_mode st) addr)) pg;
     valid \<leftarrow> entry_present st2 t (last (index_path (pg_mode st) addr));
     _ \<leftarrow> assert_that valid;
     Some (mem_access_time st2 * (1 + alloc_time), (t, last (index_path (pg_mode st) addr)), st2) }"
  using assms indices_less [of addr, THEN index_less_no_index]
  by (cases rule: long_mode_cases)
     (auto simp: map_page_table_def leaf_alloc_def index_path_def get_domains_def depth_def
        intro!: bind_option_cong)

text \<open>Mapping, in every long mode.\<close>
lemma map_page_table_ok:
  assumes inv: "paging_inv st" and k: "has_pages (3 + k) st"
    and num: "pg_mode st \<noteq> LongMode_Normal \<Longrightarrow> unat (cur_pdp_num st) < 512"
  shows "\<exists>lat t i st'. map_page_table st addr pg = Some (lat, (t, i), st') \<and> paging_inv st' \<and>
           lat \<le> mem_access_time st * 4 \<and> mem_access_time st' = mem_access_time st \<and>
           pg_mode st' = pg_mode st \<and>
           page_map st' = (page_map st)(index_path (pg_mode st) addr \<mapsto> pg) \<and> has_pages k st' \<and>
           walk (tptr st') (the (root st')) (butlast (index_path (pg_mode st) addr)) = Some t \<and>
           i = last (index_path (pg_mode st) addr)"
proof -
  let ?D = "depth (pg_mode st)" and ?p = "index_path (pg_mode st) addr"
  from inv obtain r where mode: "?D \<noteq> 0" and st: "pg_state ?D r st" by (auto simp: paging_inv_def)
  note ip = index_path_facts [OF mode, of addr]
  from leaf_alloc_ok [OF mode st k num, of addr] obtain t n st1 where 1: "leaf_alloc st addr = Some (Some t, n, st1)"
      "extends ?D r st st1" "walk (tptr st1) r (butlast ?p) = Some t" "has_pages k st1" "n \<le> length (butlast ?p)"
    by (auto simp: allocated_def)
  note st1 = extends_pg_state [OF 1(2)]
  have len: "Suc (length (butlast ?p)) = ?D" using ip mode by simp
  obtain st2 where 2: "validate_page st1 t (last ?p) pg = Some st2" "entry_present st2 t (last ?p) = Some True"
      "pg_state ?D r st2" "pg_mode st2 = pg_mode st1" "page_map st2 = (page_map st1)(butlast ?p @ [last ?p] \<mapsto> pg)"
      "has_pages k st2 = has_pages k st1" "tptr st2 = tptr st1" "mem_access_time st2 = mem_access_time st1"
    using validate_page_ok [OF st1 1(3) len ip(3), of pg] by auto
  have "n \<le> 3" using 1(5) ip(1) by (rule_tac long_mode_cases [OF mode]) (simp_all add: depth_def)
  then have "mem_access_time st * (1 + n) \<le> mem_access_time st * 4" by (intro mult_le_mono2) simp
  moreover have "pg_mode st1 = pg_mode st" "page_map st1 = page_map st" "mem_access_time st1 = mem_access_time st"
    using 1(2) by (simp_all add: extends_def page_map_eq [OF st1] page_map_eq [OF st])
  ultimately show ?thesis
    using 1 2 ip mode by (auto simp: map_page_table_eq paging_inv_def pg_state_root)
qed


subsection \<open>Access\<close>

lemma leaf_reads:
  assumes "pg_state D r st" and "walk (tptr st) r p = Some t" and "Suc (length p) = D" and "i < 512"
  shows "next_page st t i = Some (pptr st t i)" and "entry_present st t i = Some (pptr st t i \<noteq> None)"
proof -
  from assms(1) obtain lev par where inv: "tables_inv D st r lev par" by (auto simp: pg_state_def)
  have "table_ok st t" "lev t = 1" using walk_lev [OF inv assms(2)] assms(3) by auto
  from reads_ok(3,4) [OF inv this(1) assms(4) this(2)]
  show "next_page st t i = Some (pptr st t i)" "entry_present st t i = Some (pptr st t i \<noteq> None)" .
qed

lemma page_no_ok:
  assumes "pg_state D r st" and "walk (tptr st) r p = Some t"
  obtains n where "get_page_no st t = Some n"
proof -
  from assms(1) obtain lev par where "tables_inv D st r lev par" by (auto simp: pg_state_def)
  from walk_lev [OF this assms(2)] that show thesis
    by (auto simp: table_ok_def get_page_no_def split: option.splits)
qed

lemma walked_entry:
  assumes "pg_state D r st" and "walk (tptr st) r p = Some t" and "i < 512"
  shows "\<exists>e. get_entry st t i = Some e"
proof -
  from assms(1) obtain lev par where "tables_inv D st r lev par" by (auto simp: pg_state_def)
  from walk_lev [OF this assms(2)] show ?thesis using get_entry_table_ok assms(3) by blast
qed

text \<open>The walk of both access functions, one level at a time.\<close>
lemma descend:
  assumes "pg_state D r st" and "walk (tptr st) r p = Some t" and "length p + 2 \<le> D" and "i < 512"
  shows "next_table st t i = Some None \<and> walk (tptr st) r (p @ [i]) = None \<or>
         (\<exists>u. next_table st t i = Some (Some u) \<and> walk (tptr st) r (p @ [i]) = Some u)"
  using inner_reads(1) [OF assms] assms(2) by (cases "tptr st t i") (simp_all add: walk_append)

lemma page_map_walk:
  assumes "pg_state D r st"
  shows "page_map st (p @ [i]) = walk (tptr st) r p \<bind> (\<lambda>t. pptr st t i)"
  by (simp add: page_map_eq [OF assms] lookup_def)

lemma walk_None_append: "walk T r p = None \<Longrightarrow> walk T r (p @ q) = None"
  by (simp add: walk_append)


text \<open>What a walk returns: the page of the map, and the entry it is in.\<close>
definition walk_result :: "paging \<Rightarrow> nat \<Rightarrow> nat list \<Rightarrow> (nat \<times> nat \<times> nat) option \<Rightarrow> bool" where
  "walk_result st r q hit = (case hit of
     None \<Rightarrow> page_map st q = None
   | Some (p, t, i) \<Rightarrow> page_map st q = Some p \<and> walk (tptr st) r (butlast q) = Some t \<and> i = last q)"

lemma walk_result_leaf:
  assumes "pg_state D r st" and "walk (tptr st) r p = Some t"
  shows "walk_result st r (p @ [i]) (map_option (\<lambda>pg. (pg, t, i)) (pptr st t i))"
  using page_map_walk [OF assms(1), of p i] assms(2)
  by (cases "pptr st t i") (simp_all add: walk_result_def)

lemma walk_result_fault:
  assumes "pg_state D r st" and "walk (tptr st) r p = None"
  shows "walk_result st r (p @ q @ [i]) None"
  using page_map_walk [OF assms(1), of "p @ q" i] walk_None_append [OF assms(2)]
  by (simp add: walk_result_def)

lemma ptw_path_huge:
  assumes st: "pg_state 2 r st" and mode: "pg_mode st = LongMode_Huge"
  shows "\<exists>as hit. ptw_path st s addr = Some (as, hit) \<and> walk_result st r (index_path LongMode_Huge addr) hit"
proof -
  note ix = indices_less [of addr]
  let ?a = "unat (get_bit_value addr 39 47)" and ?b = "unat (get_bit_value addr 30 38)"
  obtain n0 where n0: "get_page_no st r = Some n0" using page_no_ok [OF st, of "[]"] by auto
  from descend [OF st, of "[]" r ?a] ix consider
      "next_table st r ?a = Some None" "walk (tptr st) r [?a] = None"
    | u where "next_table st r ?a = Some (Some u)" "walk (tptr st) r [?a] = Some u" by auto
  then show ?thesis
  proof cases
    case 1
    then show ?thesis using n0 mode walk_result_fault [OF st 1(2), of "[]" ?b]
      by (simp add: ptw_path_def index_path_def get_domains_def depth_def pg_state_root [OF st])
  next
    case (2 u)
    obtain n1 where "get_page_no st u = Some n1" using page_no_ok [OF st 2(2)] .
    then show ?thesis using n0 mode 2 leaf_reads(1) [OF st 2(2), of ?b] ix walk_result_leaf [OF st 2(2), of ?b]
      by (simp add: ptw_path_def index_path_def get_domains_def depth_def pg_state_root [OF st])
  qed
qed

lemma ptw_path_middle:
  assumes st: "pg_state 3 r st" and mode: "pg_mode st = LongMode_Middle"
  shows "\<exists>as hit. ptw_path st s addr = Some (as, hit) \<and> walk_result st r (index_path LongMode_Middle addr) hit"
proof -
  note ix = indices_less [of addr]
  note defs = ptw_path_def index_path_def get_domains_def depth_def pg_state_root [OF st]
  let ?a = "unat (get_bit_value addr 39 47)" and ?b = "unat (get_bit_value addr 30 38)"
    and ?c = "unat (get_bit_value addr 21 29)"
  obtain n0 where n0: "get_page_no st r = Some n0" using page_no_ok [OF st, of "[]"] by auto
  from descend [OF st, of "[]" r ?a] ix consider
      "next_table st r ?a = Some None" "walk (tptr st) r [?a] = None"
    | u where "next_table st r ?a = Some (Some u)" "walk (tptr st) r [?a] = Some u" by auto
  then show ?thesis
  proof cases
    case 1
    then show ?thesis using n0 mode walk_result_fault [OF st 1(2), of "[?b]" ?c] by (simp add: defs)
  next
    case (2 u)
    obtain n1 where n1: "get_page_no st u = Some n1" using page_no_ok [OF st 2(2)] .
    from descend [OF st 2(2), of ?b] ix consider
        "next_table st u ?b = Some None" "walk (tptr st) r [?a, ?b] = None"
      | v where "next_table st u ?b = Some (Some v)" "walk (tptr st) r [?a, ?b] = Some v" by auto
    then show ?thesis
    proof cases
      case 1
      then show ?thesis using n0 n1 mode 2 walk_result_fault [OF st 1(2), of "[]" ?c] by (simp add: defs)
    next
      case (2 v)
      then show ?thesis
        using n0 n1 mode \<open>next_table st r ?a = Some (Some u)\<close> leaf_reads(1) [OF st 2(2), of ?c] ix
          walk_result_leaf [OF st 2(2), of ?c]
        by (simp add: defs)
    qed
  qed
qed

lemma ptw_path_normal:
  assumes st: "pg_state 4 r st" and mode: "pg_mode st = LongMode_Normal"
  shows "\<exists>as hit. ptw_path st s addr = Some (as, hit) \<and> walk_result st r (index_path LongMode_Normal addr) hit"
proof -
  note ix = indices_less [of addr]
  note defs = ptw_path_def index_path_def get_domains_def depth_def pg_state_root [OF st]
  let ?a = "unat (get_bit_value addr 39 47)" and ?b = "unat (get_bit_value addr 30 38)"
    and ?c = "unat (get_bit_value addr 21 29)" and ?d = "unat (get_bit_value addr 12 20)"
  obtain n0 where n0: "get_page_no st r = Some n0" using page_no_ok [OF st, of "[]"] by auto
  from descend [OF st, of "[]" r ?a] ix consider
      "next_table st r ?a = Some None" "walk (tptr st) r [?a] = None"
    | u where "next_table st r ?a = Some (Some u)" "walk (tptr st) r [?a] = Some u" by auto
  then show ?thesis
  proof cases
    case 1
    then show ?thesis using n0 mode walk_result_fault [OF st 1(2), of "[?b, ?c]" ?d] by (simp add: defs)
  next
    case (2 u)
    note u = 2
    obtain n1 where n1: "get_page_no st u = Some n1" using page_no_ok [OF st u(2)] .
    from descend [OF st u(2), of ?b] ix consider
        "next_table st u ?b = Some None" "walk (tptr st) r [?a, ?b] = None"
      | v where "next_table st u ?b = Some (Some v)" "walk (tptr st) r [?a, ?b] = Some v" by auto
    then show ?thesis
    proof cases
      case 1
      then show ?thesis using n0 n1 mode u walk_result_fault [OF st 1(2), of "[?c]" ?d] by (simp add: defs)
    next
      case (2 v)
      note v = 2
      obtain n2 where n2: "get_page_no st v = Some n2" using page_no_ok [OF st v(2)] .
      from descend [OF st v(2), of ?c] ix consider
          "next_table st v ?c = Some None" "walk (tptr st) r [?a, ?b, ?c] = None"
        | x where "next_table st v ?c = Some (Some x)" "walk (tptr st) r [?a, ?b, ?c] = Some x" by auto
      then show ?thesis
      proof cases
        case 1
        then show ?thesis
          using n0 n1 n2 mode u v walk_result_fault [OF st 1(2), of "[]" ?d] by (simp add: defs)
      next
        case (2 x)
        obtain n3 where "get_page_no st x = Some n3" using page_no_ok [OF st 2(2)] .
        then show ?thesis
          using n0 n1 n2 mode u v 2 leaf_reads(1) [OF st 2(2), of ?d] ix walk_result_leaf [OF st 2(2), of ?d]
          by (simp add: defs)
      qed
    qed
  qed
qed


lemma ptw_path_ok:
  assumes mode: "depth (pg_mode st) \<noteq> 0" and st: "pg_state (depth (pg_mode st)) r st"
  shows "\<exists>as hit. ptw_path st s addr = Some (as, hit) \<and> walk_result st r (index_path (pg_mode st) addr) hit"
  using mode
proof (cases rule: long_mode_cases)
  case 1
  then show ?thesis using ptw_path_normal [of r st s addr] st by (simp add: depth_def)
next
  case 2
  then show ?thesis using ptw_path_middle [of r st s addr] st by (simp add: depth_def)
next
  case 3
  then show ?thesis using ptw_path_huge [of r st s addr] st by (simp add: depth_def)
qed

text \<open>The untimed access walks the same tables.\<close>
lemma access_walk_ptw:
  assumes "ptw_path st s addr = Some (as, hit)" and "depth (pg_mode st) \<noteq> 0"
  shows "\<exists>c. access_walk st addr = Some (case hit of None \<Rightarrow> PAGE_FAULT_SIG | Some (p, _) \<Rightarrow> of_nat p, c)"
  using assms(2,1)
  by (cases rule: long_mode_cases)
     (auto simp: ptw_path_def access_walk_def Let_def elim!: bind_SomeE split: option.splits prod.splits)

text \<open>Rewriting the flags of an entry changes no pointer.\<close>
lemma flag_write:
  assumes st: "pg_state D r st" and e: "get_entry st t i = Some e"
    and f: "next_level_ptr (f e) = next_level_ptr e" "is_present (f e) = is_present e"
  shows "\<exists>st'. upd_entry f st t i = Some st' \<and> pg_state D r st' \<and> tptr st' = tptr st \<and> pptr st' = pptr st \<and>
           same_rest st st' \<and> buddy_allocator st' = buddy_allocator st \<and> get_entry st' t i = Some (f e)"
proof -
  from st obtain lev par where inv: "tables_inv D st r lev par" by (auto simp: pg_state_def)
  obtain st' where u: "upd_entry f st t i = Some st'"
    and g: "\<And>x y. get_entry st' x y = (if x = t \<and> y = i then Some (f e) else get_entry st x y)"
    and st': "\<And>x. table_ok st' x = table_ok st x" "\<And>x. (pt_heap st' x = None) = (pt_heap st x = None)"
      "pt_brk st' = pt_brk st" "same_rest st st'" and b: "buddy_allocator st' = buddy_allocator st"
    by (rule upd_entry_ok [OF e, of f]) blast
  have "entry_ok st lev par t i (f e)" using tables_inv_entry [OF inv e] f by (simp add: entry_ok_def)
  from tables_inv_upd [OF inv g st' this] have "pg_state D r st'" by (auto simp: pg_state_def)
  moreover have "tptr st' = tptr st" "pptr st' = pptr st"
    unfolding tptr_upd [OF g] f by (rule upd2_id, simp add: tptr_def pptr_def e)+
  ultimately show ?thesis using u st' b by (auto simp: g)
qed

lemma touch_flags:
  "next_level_ptr (snd (set_lrequester_report q c e)) = next_level_ptr e"
  "is_present (snd (set_lrequester_report q c e)) = is_present e"
  "next_level_ptr (set_lrequester q e) = next_level_ptr e" "is_present (set_lrequester q e) = is_present e"
  "next_level_ptr (set_accessed e) = next_level_ptr e" "is_present (set_accessed e) = is_present e"
  "next_level_ptr (set_dirty e) = next_level_ptr e" "is_present (set_dirty e) = is_present e"
  by (simp_all add: set_lrequester_report_def set_lrequester_def Let_def set_accessed_def set_dirty_def
      is_present_def PTE_bits)

lemma error_migrated_frame [simp]:
  "get_entry (st\<lparr>error_migrated_pages := x\<rparr>) = get_entry st"
  "table_ok (st\<lparr>error_migrated_pages := x\<rparr>) = table_ok st"
  by (intro ext; simp add: get_entry_def table_ok_def)+

lemma error_migrated_frame2 [simp]:
  "tptr (st\<lparr>error_migrated_pages := x\<rparr>) = tptr st" "pptr (st\<lparr>error_migrated_pages := x\<rparr>) = pptr st"
  "entry_ok (st\<lparr>error_migrated_pages := x\<rparr>) = entry_ok st"
  by (intro ext, simp add: tptr_def pptr_def)+ (rule entry_ok_cong, simp)

lemma error_migrated_frame3 [simp]:
  "pg_state D r (st\<lparr>error_migrated_pages := x\<rparr>) = pg_state D r st"
  by (simp add: pg_state_def tables_inv_def)

lemma touch_entry_ok:
  assumes st: "pg_state D r st" and e: "get_entry st t i = Some e"
  shows "\<exists>st' req'. touch_entry st t i req = Some (st', req') \<and> pg_state D r st' \<and>
           page_map st' = page_map st \<and> pg_mode st' = pg_mode st \<and> rq_cycle req' = rq_cycle req \<and>
           lineAddr req' = lineAddr req \<and> mem_access_time st' = mem_access_time st \<and>
           buddy_allocator st' = buddy_allocator st"
proof -
  obtain shared e1 where s: "set_lrequester_report (srcId req) (triggerPageShared req) e = (shared, e1)"
    by (cases "set_lrequester_report (srcId req) (triggerPageShared req) e")
  let ?e3 = "if rq_type req = PUTS then set_dirty (set_accessed e1) else set_accessed e1"
  have f: "next_level_ptr ?e3 = next_level_ptr e" "is_present ?e3 = is_present e"
    using touch_flags(1,2) [of "srcId req" "triggerPageShared req" e] s by (simp_all add: touch_flags)
  obtain st' where u: "upd_entry (\<lambda>_. ?e3) st t i = Some st'" "pg_state D r st'" "tptr st' = tptr st"
      "pptr st' = pptr st" "same_rest st st'" "buddy_allocator st' = buddy_allocator st"
    using flag_write [OF st e, of "\<lambda>_. ?e3"] f by blast
  then have "page_map st' = page_map st" 
    by (intro ext) (simp add: page_map_def same_rest_def cong: option.case_cong)
  moreover have "page_map (st'\<lparr>error_migrated_pages := x\<rparr>) = page_map st'" for x
    by (simp add: page_map_def fun_eq_iff cong: option.case_cong)
  ultimately show ?thesis using u by (simp add: touch_entry_def e s Let_def same_rest_def)
qed


subsection \<open>Unmapping\<close>

lemma get_tables_loop_walk:
  assumes "pg_state D r st" and "walk (tptr st) r p = Some t" and "length p + length is + 1 \<le> D"
    and "set is \<subseteq> {..<512}"
  shows "get_tables_loop is st (Some t) = Some (walk (tptr st) r (p @ is))"
  using assms(2-)
proof (induction "is" arbitrary: p t)
  case (Cons i "is")
  have i: "i < 512" "length p + 2 \<le> D" using Cons.prems by auto
  from descend [OF assms(1) Cons.prems(1) i(2,1)] show ?case
  proof
    assume "next_table st t i = Some None \<and> walk (tptr st) r (p @ [i]) = None"
    then show ?thesis using walk_None_append [of "tptr st" r "p @ [i]" "is"] by simp
  next
    assume "\<exists>u. next_table st t i = Some (Some u) \<and> walk (tptr st) r (p @ [i]) = Some u"
    then obtain u where u: "next_table st t i = Some (Some u)" "walk (tptr st) r (p @ [i]) = Some u" by blast
    from Cons.IH [OF u(2)] Cons.prems u show ?thesis by simp
  qed
qed simp

text \<open>
  Below the first level the tables are found as the walk finds them.  When there is no table below
  the root and more than one level is asked for, the null pointer is dereferenced.
\<close>
lemma get_tables_walk:
  assumes st: "pg_state D r st" and i: "i < 512" "set is \<subseteq> {..<512}" and D: "length is + 2 \<le> D"
  shows "get_tables st (Suc (length is)) (i # is @ js) =
    (if walk (tptr st) r [i] = None \<and> is \<noteq> [] then None else Some (walk (tptr st) r (i # is)))"
proof -
  from descend [OF st, of "[]" r i] i D consider
      "next_table st r i = Some None" "walk (tptr st) r [i] = None"
    | u where "next_table st r i = Some (Some u)" "walk (tptr st) r [i] = Some u" by auto
  then show ?thesis
  proof cases
    case 1
    then show ?thesis by (cases "is") (simp_all add: get_tables_def pg_state_root [OF st])
  next
    case (2 u)
    then show ?thesis using get_tables_loop_walk [OF st 2(2), of "is"] i D
      by (simp add: get_tables_def pg_state_root [OF st])
  qed
qed

definition unmap_at :: "paging \<Rightarrow> nat list \<Rightarrow> (bool \<times> paging) option" where
  "unmap_at st q = do {
     table \<leftarrow> get_tables st (length q - 1) (butlast q);
     (case table of
        None \<Rightarrow> Some (False, st)
      | Some t \<Rightarrow> do { st1 \<leftarrow> invalidate_page st t (last q); Some (False, st1) }) }"

lemma get_tables_take: "level \<ge> 1 \<Longrightarrow> level \<le> length ids \<Longrightarrow> get_tables st level ids = get_tables st level (take level ids)"
  by (cases ids; cases level) (auto simp: get_tables_def)

lemma unmap_page_table_eq:
  assumes "depth (pg_mode st) \<noteq> 0"
  shows "unmap_page_table st addr = unmap_at st (index_path (pg_mode st) addr)"
  using assms
  by (cases rule: long_mode_cases)
     (simp_all add: unmap_page_table_def unmap_at_def index_path_def get_domains_def depth_def Let_def
        get_tables_take [of _ "[_, _, _, _]"] numeral_2_eq_2 numeral_3_eq_3 cong: option.case_cong)


lemma buddy_frame [simp]:
  "get_entry (st\<lparr>buddy_allocator := x\<rparr>) = get_entry st"
  "table_ok (st\<lparr>buddy_allocator := x\<rparr>) = table_ok st"
  by (intro ext; simp add: get_entry_def table_ok_def)+

lemma buddy_frame2 [simp]:
  "tptr (st\<lparr>buddy_allocator := x\<rparr>) = tptr st" "pptr (st\<lparr>buddy_allocator := x\<rparr>) = pptr st"
  "entry_ok (st\<lparr>buddy_allocator := x\<rparr>) = entry_ok st"
  by (intro ext, simp add: tptr_def pptr_def)+ (rule entry_ok_cong, simp)

lemma buddy_frame3 [simp]:
  "tables_inv D (st\<lparr>buddy_allocator := x\<rparr>) = tables_inv D st"
  by (simp add: tables_inv_def fun_eq_iff)

lemma invalidated_page_fields [simp]:
  "next_level_ptr (invalidated_page e) = Null" "\<not> is_present (invalidated_page e)"
  by (simp_all add: invalidated_page_def entry_defs PTE_bits)

lemma invalidate_page_ok:
  assumes st: "pg_state D r st" and w: "walk (tptr st) r p = Some t" and len: "Suc (length p) = D" and i: "i < 512"
    and pg: "pptr st t i = Some pg" and a: "buddy_allocator st = Some a" "free_one_page a pg = Some a'"
  shows "\<exists>st'. invalidate_page st t i = Some st' \<and> pg_state D r st' \<and> pg_mode st' = pg_mode st \<and>
           page_map st' = (page_map st)(p @ [i] := None) \<and> buddy_allocator st' = Some a'"
proof -
  from st obtain lev par where inv: "tables_inv D st r lev par" by (auto simp: pg_state_def)
  let ?st = "st\<lparr>buddy_allocator := Some a'\<rparr>"
  have inv1: "tables_inv D ?st r lev par" using inv by simp
  obtain st' where 1: "upd_entry invalidated_page ?st t i = Some st'" "tables_inv D st' r lev par"
      "lookup (tptr st') (pptr st') r = (lookup (tptr ?st) (pptr ?st) r)(p @ [i] := None)"
      "buddy_allocator st' = buddy_allocator ?st" "same_rest ?st st'"
    by (rule leaf_write [OF inv1, of p t i invalidated_page None]) (use w len i in auto)
  from 1(2) have st': "pg_state D r st'" by (auto simp: pg_state_def)
  from pg obtain e where e: "get_entry st t i = Some e" "next_level_ptr e = ToPage pg"
    by (auto simp: pptr_def split: option.splits next_level.splits)
  then have "is_present e" using tables_inv_entry [OF inv e(1)] by (simp add: entry_ok_def)
  then have "invalidate_page st t i = Some st'"
    using 1(1) a e by (simp add: invalidate_page_def reclaim_page_def)
  then show ?thesis using 1 st' by (simp add: page_map_eq [OF st] page_map_eq [OF st'] same_rest_def)
qed

lemma invalidate_page_none:
  assumes "pg_state D r st" and "walk (tptr st) r p = Some t" and "Suc (length p) = D" and "i < 512"
    and "pptr st t i = None"
  shows "invalidate_page st t i = Some st"
  using leaf_reads(2) [OF assms(1-4)] assms(5) by (auto simp: invalidate_page_def entry_present_def)

text \<open>Unmapping an address, from its index path.\<close>
lemma unmap_at_ok:
  assumes inv: "paging_inv st" and q: "q = index_path (pg_mode st) addr"
  shows "page_map st q = Some pg \<Longrightarrow> buddy_allocator st = Some a \<Longrightarrow> free_one_page a pg = Some a' \<Longrightarrow>
           \<exists>st'. unmap_at st q = Some (False, st') \<and> paging_inv st' \<and> pg_mode st' = pg_mode st \<and>
             page_map st' = (page_map st)(q := None) \<and> buddy_allocator st' = Some a'"
    and "page_map st q = None \<Longrightarrow> unmap_at st q =
           (if tptr st (the (root st)) (hd q) = None \<and> 2 < length q then None else Some (False, st))"
proof -
  from inv obtain r where mode: "depth (pg_mode st) \<noteq> 0" and st: "pg_state (depth (pg_mode st)) r st"
    by (auto simp: paging_inv_def)
  note ip = index_path_facts [OF mode, of addr, folded q]
  have "2 \<le> depth (pg_mode st)" by (rule long_mode_cases [OF mode]) (auto simp: depth_def)
  then have "2 \<le> length q" using ip(1) by simp
  then obtain i "is" l where qs: "q = i # is @ [l]" by (cases q; cases "tl q" rule: rev_cases) auto
  let ?p = "i # is"
  have L: "length q - 1 = Suc (length is)" "butlast q = i # is" and D: "length is + 2 \<le> depth (pg_mode st)"
    using ip(1) by (simp_all add: qs butlast_append)
  have gt: "get_tables st (length q - 1) (butlast q) =
      (if walk (tptr st) r [i] = None \<and> is \<noteq> [] then None else Some (walk (tptr st) r ?p))"
    using get_tables_walk [OF st _ _ D, of i "[]"] ip(4) unfolding L by (simp add: qs del: walk.simps)
  have pm: "page_map st q = walk (tptr st) r ?p \<bind> (\<lambda>t. pptr st t l)"
    using page_map_walk [OF st, of ?p l] by (simp add: qs)
  have len: "Suc (length ?p) = depth (pg_mode st)" and l: "l < 512" using ip qs by auto
  show "\<exists>st'. unmap_at st q = Some (False, st') \<and> paging_inv st' \<and> pg_mode st' = pg_mode st \<and>
      page_map st' = (page_map st)(q := None) \<and> buddy_allocator st' = Some a'"
    if "page_map st q = Some pg" "buddy_allocator st = Some a" "free_one_page a pg = Some a'"
  proof -
    from that(1) obtain t where t: "walk (tptr st) r ?p = Some t" "pptr st t l = Some pg"
      by (auto simp: pm elim!: bind_SomeE)
    then have "walk (tptr st) r [i] \<noteq> None" by (auto elim!: bind_SomeE)
    then show ?thesis
      using invalidate_page_ok [OF st t(1) len l t(2) that(2,3)] gt t mode qs
      by (auto simp: unmap_at_def paging_inv_def)
  qed
  show "unmap_at st q = (if tptr st (the (root st)) (hd q) = None \<and> 2 < length q then None else Some (False, st))"
    if none: "page_map st q = None"
  proof (cases "walk (tptr st) r ?p")
    case None
    then show ?thesis using gt qs by (cases "is") (auto simp: unmap_at_def pg_state_root [OF st])
  next
    case (Some t)
    then have "tptr st r i \<noteq> None" by (auto elim!: bind_SomeE)
    then show ?thesis using gt qs Some none pm invalidate_page_none [OF st Some len l]
      by (auto simp: unmap_at_def pg_state_root [OF st])
  qed
qed


subsection \<open>The interface of a page mapping\<close>

text \<open>
  What the page-table walker relies on: mapping updates a view, keyed by what of the address counts,
  and reading returns the encoded value of the view.
\<close>
locale page_mapping =
  fixes ok :: "'s \<Rightarrow> bool" and room :: "nat \<Rightarrow> 's \<Rightarrow> bool" and key :: "'a \<Rightarrow> 'k"
    and view :: "'s \<Rightarrow> 'k \<Rightarrow> 'p option" and enc :: "'p option \<Rightarrow> 'r"
    and map_op :: "'s \<Rightarrow> 'a \<Rightarrow> 'p \<Rightarrow> 's option" and read_op :: "'s \<Rightarrow> 'a \<Rightarrow> 'r option"
  assumes map_law: "ok s \<Longrightarrow> room (Suc n) s \<Longrightarrow>
      \<exists>s'. map_op s a p = Some s' \<and> ok s' \<and> room n s' \<and> view s' = (view s)(key a \<mapsto> p)"
    and read_law: "ok s \<Longrightarrow> read_op s a = Some (enc (view s (key a)))"
begin

lemma map_seq:
  "ok s \<Longrightarrow> room (length aps) s \<Longrightarrow>
     \<exists>s'. fold_opt (\<lambda>(a, p) s. map_op s a p) aps s = Some s' \<and> ok s' \<and>
       view s' = view s ++ map_of (rev (map (\<lambda>(a, p). (key a, p)) aps))"
proof (induction aps arbitrary: s)
  case (Cons ap aps)
  obtain a p where ap: "ap = (a, p)" by (cases ap)
  obtain s1 where 1: "map_op s a p = Some s1" "ok s1" "room (length aps) s1"
      "view s1 = (view s)(key a \<mapsto> p)"
    using map_law [OF Cons.prems(1), of "length aps" a p] Cons.prems(2) by auto
  from Cons.IH [OF 1(2,3)] obtain s2 where
    "fold_opt (\<lambda>(a, p) s. map_op s a p) aps s1 = Some s2" "ok s2"
    "view s2 = view s1 ++ map_of (rev (map (\<lambda>(a, p). (key a, p)) aps))" by blast
  then show ?case by (intro exI [of _ s2]) (simp add: ap 1(1,4) map_add_assoc del: fun_upd_apply)
qed simp

lemma read_after_map:
  assumes "ok s" and "room 1 s"
  obtains s' where "map_op s a p = Some s'" and "ok s'"
    and "read_op s' b = (if key b = key a then Some (enc (Some p)) else read_op s b)"
  using map_law [OF assms(1), of 0 a p] assms read_law by auto

lemma read_after_seq:
  assumes "ok s" and "room (length aps) s"
  shows "\<exists>s'. fold_opt (\<lambda>(a, p) s. map_op s a p) aps s = Some s' \<and>
     read_op s' b = Some (enc ((view s ++ map_of (rev (map (\<lambda>(a, p). (key a, p)) aps))) (key b)))"
  using map_seq [OF assms] read_law by force

end

definition enc_page :: "nat option \<Rightarrow> Address" where
  "enc_page v = (case v of None \<Rightarrow> PAGE_FAULT_SIG | Some p \<Rightarrow> of_nat p)"

lemma access_walk_ok:
  assumes "paging_inv st"
  shows "\<exists>c. access_walk st addr = Some (enc_page (page_map st (index_path (pg_mode st) addr)), c)"
proof -
  from assms obtain r where mode: "depth (pg_mode st) \<noteq> 0" and st: "pg_state (depth (pg_mode st)) r st"
    by (auto simp: paging_inv_def)
  from ptw_path_ok [OF this, of 0 addr] obtain as hit where h: "ptw_path st 0 addr = Some (as, hit)"
      "walk_result st r (index_path (pg_mode st) addr) hit" by blast
  then show ?thesis using access_walk_ptw [OF h(1) mode]
    by (auto simp: walk_result_def enc_page_def split: option.splits)
qed

lemma access_ptw_ok:
  assumes "paging_inv st"
  shows "\<exists>st' req' w'. access_ptw parent rtts line_bits pg_shift False st req w =
             Some (enc_page (page_map st (index_path (pg_mode st) (push_bit line_bits (lineAddr req)))), st', req', w') \<and>
           paging_inv st' \<and> page_map st' = page_map st \<and> rq_cycle req' = rq_cycle req \<and>
           pg_mode st' = pg_mode st \<and> lineAddr req' = lineAddr req \<and> mem_access_time st' = mem_access_time st \<and>
           buddy_allocator st' = buddy_allocator st \<and>
           (page_map st (index_path (pg_mode st) (push_bit line_bits (lineAddr req))) = None \<longrightarrow> st' = st)"
proof -
  let ?a = "push_bit line_bits (lineAddr req)"
  from assms obtain r where mode: "depth (pg_mode st) \<noteq> 0" and st: "pg_state (depth (pg_mode st)) r st"
    by (auto simp: paging_inv_def)
  obtain as hit where h: "ptw_path st pg_shift ?a = Some (as, hit)"
      "walk_result st r (index_path (pg_mode st) ?a) hit"
    using ptw_path_ok [OF mode st] by blast
  show ?thesis
  proof (cases hit)
    case None
    then show ?thesis using h assms
      by (auto simp: access_ptw_def loadPageTables_def walk_result_def enc_page_def)
  next
    case (Some x)
    then obtain p t i where x: "hit = Some (p, t, i)" by (cases x) auto
    have pm: "page_map st (index_path (pg_mode st) ?a) = Some p"
      "walk (tptr st) r (butlast (index_path (pg_mode st) ?a)) = Some t" and i: "i < 512"
      using h(2) x index_path_facts(3) [OF mode, of ?a] by (auto simp: walk_result_def)
    obtain e where e: "get_entry st t i = Some e" using walked_entry [OF st pm(2) i] ..
    obtain st' req' where t: "touch_entry st t i req = Some (st', req')" "pg_state (depth (pg_mode st)) r st'"
        "page_map st' = page_map st" "pg_mode st' = pg_mode st" "rq_cycle req' = rq_cycle req"
        "lineAddr req' = lineAddr req" "mem_access_time st' = mem_access_time st"
        "buddy_allocator st' = buddy_allocator st"
      using touch_entry_ok [OF st e, of req] by blast
    show ?thesis using h(1) x t pm mode
      by (auto simp: access_ptw_def loadPageTables_def paging_inv_def enc_page_def)
  qed
qed

definition lm_ok :: "PagingStyle \<Rightarrow> paging \<Rightarrow> bool" where
  "lm_ok mode st \<longleftrightarrow> paging_inv st \<and> pg_mode st = mode"

definition lm_map :: "paging \<Rightarrow> Address \<Rightarrow> nat \<Rightarrow> paging option" where
  "lm_map st addr pg = map_option (snd \<circ> snd) (map_page_table st addr pg)"

definition lm_read :: "paging \<Rightarrow> Address \<Rightarrow> Address option" where
  "lm_read st addr = map_option fst (access_walk st addr)"

interpretation lm: page_mapping "lm_ok LongMode_Normal" "\<lambda>n. has_pages (3 * n)" "index_path LongMode_Normal"
  page_map enc_page lm_map lm_read
proof
  fix st n a p
  assume "lm_ok LongMode_Normal st" "has_pages (3 * Suc n) st"
  then show "\<exists>s'. lm_map st a p = Some s' \<and> lm_ok LongMode_Normal s' \<and> has_pages (3 * n) s' \<and>
      page_map s' = (page_map st)(index_path LongMode_Normal a \<mapsto> p)"
    using map_page_table_ok [of st "3 * n" a p] by (auto simp: lm_ok_def lm_map_def)
next
  fix st a
  assume "lm_ok LongMode_Normal st"
  then show "lm_read st a = Some (enc_page (page_map st (index_path LongMode_Normal a)))"
    using access_walk_ok [of st a] by (auto simp: lm_ok_def lm_read_def)
qed

subsection \<open>The constructor\<close>

lemma LongModePaging_ok:
  assumes "pt_heap st = Map.empty" and "has_pages (Suc k) st" and "depth mode \<noteq> 0"
  shows "\<exists>st'. LongModePaging st mode = Some st' \<and> paging_inv st' \<and> pg_mode st' = mode \<and>
           page_map st' = Map.empty \<and> has_pages k st' \<and> cur_pdp_num st' = 0 \<and>
           mem_access_time st' = mem_access_time st \<and> (\<forall>t i. tptr st' t i = None)"
proof -
  from assms(2) obtain a p a' where a: "buddy_allocator st = Some a" "allocate_pages a 0 0 = Some (Some p, a')"
      "pages_left k a'"
    by (auto simp: has_pages_def split: option.splits)
  let ?r = "pt_brk st"
  let ?st = "st\<lparr>buddy_allocator := Some a', pt_heap := [?r \<mapsto> PageTable 512 (Some p)], pt_brk := Suc ?r,
    root := Some ?r, pg_mode := mode, cur_pdp_num := 0, cur_pd_num := 0, cur_pt_num := 0,
    error_migrated_pages := 0\<rparr>"
  have eq: "LongModePaging st mode = Some ?st"
    by (simp add: LongModePaging_def make_table_def table_page_def a new_table_def assms(1) ENTRY_512_def)
  have e: "get_entry ?st t i = Some e \<Longrightarrow> e = BasePDTEntry" for t i e
    by (auto simp: get_entry_def PageTable_def split: if_splits elim!: bind_SomeE)
  have "entry_ok ?st lev par t i e" if "get_entry ?st t i = Some e" for t i e lev par
    unfolding e [OF that] by (simp add: entry_ok_def)
  then have "tables_inv (depth mode) ?st ?r (\<lambda>_. depth mode) (\<lambda>_. None)"
    unfolding tables_inv_def by (simp add: table_ok_def PageTable_def)
  then have st: "pg_state (depth mode) ?r ?st" by (auto simp: pg_state_def)
  have T: "tptr ?st t i = None" and "pptr ?st t i = None" for t i
    using e [of t i] by (cases "get_entry ?st t i"; auto simp: tptr_def pptr_def)+
  then have "page_map ?st = Map.empty"
    by (auto simp: page_map_eq [OF st] lookup_def fun_eq_iff)
  then show ?thesis using eq st assms(3) a T by (auto simp: paging_inv_def has_pages_def)
qed

end
