(* ===== verification/Page_Table_Walker.thy ===== *)
theory Page_Table_Walker
  imports Tlb_Lru LongMode_Refinement
begin

text \<open>
  The page-table walker (\<^verbatim>\<open>src/src/tlb/page_table_walker.h\<close>) and the access function of the
  TLB, which calls it.  The state \<open>sim\<close> holds what both share: the TLBs of all cores, the paging objects
  of all processes, the page allocator they all use, the shared regions, and the memory below.
\<close>

subsection \<open>Shared state\<close>

record Section =
  sec_start :: Address
  sec_end :: Address

record core_tlbs =
  ins_tlb :: "CommonTlb option"
  data_tlb :: "CommonTlb option"

record 'm sim =
  cores :: "core_tlbs list"
  paging_array :: "paging option list"
  sim_buddy :: "BuddyAllocator option"
  shared_region :: "Section list list"
  enable_shared_memory :: bool
  sim_page_shift :: nat
  sim_line_bits :: nat
  sim_world :: "'m world"

record walker =
  pw_timing :: bool
  pw_paging :: "nat option"
  procIdx :: nat
  line_shift :: nat
  selfId :: nat
  pw_parentRTTs :: "32 word list"
  period :: nat
  mmap_cached :: int
  allocated_page :: nat
  tlb_shootdown_overhead :: "64 word"
  dram_map_overhead :: "64 word"
  tlb_miss_exclude_shootdown :: "64 word"
  tlb_miss_overhead :: "64 word"

definition PageTableWalker :: "nat \<Rightarrow> bool \<Rightarrow> walker" where
  "PageTableWalker line_sh timing =
     \<lparr>pw_timing = timing, pw_paging = None, procIdx = 4294967295, line_shift = line_sh, selfId = 0,
      pw_parentRTTs = [], period = 0, mmap_cached = 0, allocated_page = 0, tlb_shootdown_overhead = 0,
      dram_map_overhead = 0, tlb_miss_exclude_shootdown = 0, tlb_miss_overhead = 0\<rparr>"

definition SetPaging :: "nat \<Rightarrow> nat option \<Rightarrow> walker \<Rightarrow> walker" where
  "SetPaging proc_id copied_paging w = w\<lparr>procIdx := proc_id, pw_paging := copied_paging\<rparr>"

text \<open>The round-trip times come from the network, or are zero when there is none.\<close>
definition setParents :: "nat \<Rightarrow> string list \<Rightarrow> (string \<Rightarrow> 32 word) option \<Rightarrow> walker \<Rightarrow> walker" where
  "setParents child_id parents network w =
     w\<lparr>selfId := child_id,
       pw_parentRTTs := map (\<lambda>p. case network of None \<Rightarrow> 0 | Some getRTT \<Rightarrow> getRTT p) parents\<rparr>"

text \<open>An operation on a paging object works with the allocator that all objects share.\<close>
definition with_paging :: "nat \<Rightarrow> (paging \<Rightarrow> ('r \<times> paging) option) \<Rightarrow> 'm sim \<Rightarrow> ('r \<times> 'm sim) option" where
  "with_paging i f s = do {
     _ \<leftarrow> assert_that (i < length (paging_array s));
     p \<leftarrow> paging_array s ! i;
     (r, p') \<leftarrow> f (p\<lparr>buddy_allocator := sim_buddy s\<rparr>);
     Some (r, s\<lparr>paging_array := (paging_array s)[i := Some p'], sim_buddy := buddy_allocator p'\<rparr>)
   }"

subsection \<open>Operations on all TLBs\<close>

definition one_tlb ::
  "(CommonTlb \<Rightarrow> 32 word \<times> CommonTlb) \<Rightarrow> CommonTlb option \<Rightarrow> 32 word \<Rightarrow> 32 word \<times> CommonTlb option" where
  "one_tlb f tlb_ptr overhead =
     (case tlb_ptr of
        None \<Rightarrow> (overhead, None)
      | Some t \<Rightarrow> (case f t of (s_overhead, t') \<Rightarrow> (max overhead s_overhead, Some t')))"

primrec each_tlb ::
  "(CommonTlb \<Rightarrow> 32 word \<times> CommonTlb) \<Rightarrow> core_tlbs list \<Rightarrow> 32 word \<Rightarrow> 32 word \<times> core_tlbs list" where
  "each_tlb f [] overhead = (overhead, [])"
| "each_tlb f (c # cs) overhead =
     (let (o1, it) = one_tlb f (ins_tlb c) overhead;
          (o2, dt) = one_tlb f (data_tlb c) o1;
          (o3, cs') = each_tlb f cs o2
      in (o3, c\<lparr>ins_tlb := it, data_tlb := dt\<rparr> # cs'))"

definition tlb_shootdown_req :: "MemReq \<Rightarrow> Address \<Rightarrow> walker \<Rightarrow> 'm sim \<Rightarrow> MemReq \<times> walker \<times> 'm sim" where
  "tlb_shootdown_req req vpn w s =
     (case each_tlb (shootdown vpn) (cores s) 0 of (overhead, cs) \<Rightarrow>
        if pw_timing w
        then (req\<lparr>rq_cycle := rq_cycle req + ucast overhead\<rparr>,
              w\<lparr>tlb_shootdown_overhead := tlb_shootdown_overhead w + ucast overhead\<rparr>, s\<lparr>cores := cs\<rparr>)
        else (req, w, s\<lparr>cores := cs\<rparr>))"

definition tlb_shootdown :: "Address \<Rightarrow> walker \<Rightarrow> 'm sim \<Rightarrow> 64 word \<times> walker \<times> 'm sim" where
  "tlb_shootdown vpn w s =
     (case each_tlb (shootdown vpn) (cores s) 0 of (overhead, cs) \<Rightarrow>
        if pw_timing w
        then (ucast overhead, w\<lparr>tlb_shootdown_overhead := tlb_shootdown_overhead w + ucast overhead\<rparr>,
              s\<lparr>cores := cs\<rparr>)
        else (0, w, s\<lparr>cores := cs\<rparr>))"

definition tlb_update :: "Address \<Rightarrow> Address \<Rightarrow> walker \<Rightarrow> 'm sim \<Rightarrow> 64 word \<times> walker \<times> 'm sim" where
  "tlb_update vpn ppn w s =
     (case each_tlb (update_entry vpn ppn) (cores s) 0 of (overhead, cs) \<Rightarrow>
        if pw_timing w
        then (ucast overhead, w\<lparr>tlb_shootdown_overhead := tlb_shootdown_overhead w + ucast overhead\<rparr>,
              s\<lparr>cores := cs\<rparr>)
        else (0, w, s\<lparr>cores := cs\<rparr>))"

text \<open>The walker's version drops the latency: it has no return statement.\<close>
definition update_tlb_flags_all :: "Address \<Rightarrow> bool \<Rightarrow> bool \<Rightarrow> 'm sim \<Rightarrow> 'm sim" where
  "update_tlb_flags_all ppn shared dirty s =
     s\<lparr>cores := snd (each_tlb (update_tlb_flags ppn shared dirty) (cores s) 0)\<rparr>"

subsection \<open>Shared regions\<close>

definition find_shared_vm :: "nat \<Rightarrow> Address \<Rightarrow> Section \<Rightarrow> bool" where
  "find_shared_vm pg_shift vaddr vm_sec \<longleftrightarrow>
     (let vpn = drop_bit pg_shift vaddr in sec_start vm_sec \<le> vpn \<and> vpn < sec_end vm_sec)"

primrec map_procs :: "nat list \<Rightarrow> Address \<Rightarrow> nat \<Rightarrow> nat \<Rightarrow> 'm sim \<Rightarrow> (nat \<times> 'm sim) option" where
  "map_procs [] va page latency s = Some (latency, s)"
| "map_procs (i # is) va page latency s = do {
     (lat, s1) \<leftarrow> with_paging i (\<lambda>p. do { (l, _, p') \<leftarrow> map_page_table p va page; Some (l, p') }) s;
     map_procs is va page (latency + lat) s1
   }"

definition map_all_shared_memory :: "Address \<Rightarrow> nat \<Rightarrow> 'm sim \<Rightarrow> (nat \<times> 'm sim) option" where
  "map_all_shared_memory va page s = map_procs [0..<length (paging_array s)] va page 0 s"

text \<open>The region that holds the address, searched from the cached one in the direction of the address.\<close>
definition search_region :: "nat \<Rightarrow> Address \<Rightarrow> Section list \<Rightarrow> int \<Rightarrow> (bool \<times> int) option" where
  "search_region pg_shift vaddr regs cached = do {
     _ \<leftarrow> assert_that (0 \<le> cached \<and> cached < int (length regs));
     let c = nat cached;
     let sec = regs ! c;
     let vpn = drop_bit pg_shift vaddr;
     if find_shared_vm pg_shift vaddr sec then Some (True, cached)
     else if vpn > sec_end sec \<and> c < length regs - 1 then
       (case List.find (\<lambda>i. find_shared_vm pg_shift vaddr (regs ! i)) [Suc c..<length regs] of
          Some i \<Rightarrow> Some (True, int i)
        | None \<Rightarrow> Some (False, int (length regs) - 1))
     else if vpn < sec_start sec \<and> c > 0 then
       (case List.find (\<lambda>i. find_shared_vm pg_shift vaddr (regs ! i)) (rev [0..<c]) of
          Some i \<Rightarrow> Some (True, int i)
        | None \<Rightarrow> Some (False, 0))
     else Some (False, cached)
   }"

definition map_shared_region ::
  "MemReq \<Rightarrow> nat \<Rightarrow> walker \<Rightarrow> 'm sim \<Rightarrow> (bool \<times> MemReq \<times> walker \<times> 'm sim) option" where
  "map_shared_region req page w s = do {
     let vaddr = lineAddr req;
     _ \<leftarrow> assert_that (procIdx w < length (shared_region s));
     let regs = shared_region s ! procIdx w;
     if regs = [] then Some (False, req, w, s)
     else do {
       (found, cached) \<leftarrow> search_region (sim_page_shift s) vaddr regs (mmap_cached w);
       let w1 = w\<lparr>mmap_cached := cached\<rparr>;
       if found then do {
         (lat, s1) \<leftarrow> map_all_shared_memory vaddr page s;
         let overhead = of_nat lat;
         Some (if pw_timing w1
               then (True, req\<lparr>rq_cycle := rq_cycle req + overhead\<rparr>,
                     w1\<lparr>dram_map_overhead := dram_map_overhead w1 + overhead\<rparr>, s1)
               else (True, req, w1, s1))
       }
       else Some (False, req, w1, s)
     }
   }"

subsection \<open>Page faults\<close>

definition map_private ::
  "MemReq \<Rightarrow> Address \<Rightarrow> nat \<Rightarrow> walker \<Rightarrow> 'm sim \<Rightarrow> (MemReq \<times> walker \<times> 'm sim) option" where
  "map_private req vAddr page w s = do {
     pg \<leftarrow> pw_paging w;
     (lat, s1) \<leftarrow> with_paging pg (\<lambda>p. map_page_table_req p (srcId req) vAddr page (rq_type req = PUTS)) s;
     let overhead = (of_nat lat :: Address);
     _ \<leftarrow> assert_that (overhead \<noteq> - 1);
     Some (if pw_timing w
           then (req\<lparr>rq_cycle := rq_cycle req + overhead\<rparr>,
                 w\<lparr>dram_map_overhead := dram_map_overhead w + overhead\<rparr>, s1)
           else (req, w, s1))
   }"

definition do_page_fault ::
  "MemReq \<Rightarrow> walker \<Rightarrow> 'm sim \<Rightarrow> (Address \<times> MemReq \<times> walker \<times> 'm sim) option" where
  "do_page_fault req w s =
     (let vAddr = push_bit (line_shift w) (lineAddr req) in
      case sim_buddy s of
        None \<Rightarrow> Some (drop_bit (sim_page_shift s) vAddr, req, w, s)
      | Some a \<Rightarrow> do {
          (page_ptr, a') \<leftarrow> allocate_pages a 0 0;
          page \<leftarrow> page_ptr;
          let (req1, w1, s1) = tlb_shootdown_req req (drop_bit (sim_page_shift s) vAddr) w (s\<lparr>sim_buddy := Some a'\<rparr>);
          (mapped, req2, w2, s2) \<leftarrow>
            (if enable_shared_memory s1 then map_shared_region req1 page w1 s1 else Some (False, req1, w1, s1));
          (req3, w3, s3) \<leftarrow> (if mapped then Some (req2, w2, s2) else map_private req2 vAddr page w2 s2);
          Some (of_nat page, req3\<lparr>pageDirty := (rq_type req3 = PUTS)\<rparr>,
                w3\<lparr>allocated_page := allocated_page w3 + 1\<rparr>, s3)
        })"

definition walker_access ::
  "'m mem_parent \<Rightarrow> MemReq \<Rightarrow> walker \<Rightarrow> 'm sim \<Rightarrow> (Address \<times> MemReq \<times> walker \<times> 'm sim) option" where
  "walker_access parent req0 w0 s0 = do {
     pg \<leftarrow> pw_paging w0;
     let init_cycle = rq_cycle req0;
     let req = req0\<lparr>childId := selfId w0\<rparr>;
     let w = w0\<lparr>period := period w0 + 1\<rparr>;
     ((addr, req1, world1), s1) \<leftarrow> with_paging pg (\<lambda>p. do {
         (a, p', r, wl) \<leftarrow> access_ptw parent (pw_parentRTTs w) (sim_line_bits s0) (sim_page_shift s0)
                            (pw_timing w) p req (sim_world s0);
         Some ((a, r, wl), p')
       }) s0;
     let s2 = s1\<lparr>sim_world := world1\<rparr>;
     let w1 = w\<lparr>tlb_miss_exclude_shootdown := tlb_miss_exclude_shootdown w + (rq_cycle req1 - init_cycle)\<rparr>;
     (addr2, req2, w2, s3) \<leftarrow>
       (if addr = PAGE_FAULT_SIG then do_page_fault req1 w1 s2 else Some (addr, req1, w1, s2));
     let s4 = (if triggerPageShared req2 \<or> triggerPageDirty req2
               then update_tlb_flags_all addr2 (triggerPageShared req2) (triggerPageDirty req2) s3 else s3);
     Some (addr2, req2, w2\<lparr>tlb_miss_overhead := tlb_miss_overhead w2 + (rq_cycle req2 - init_cycle)\<rparr>, s4)
   }"

subsection \<open>The TLB access\<close>

definition get_tlb :: "nat \<Rightarrow> bool \<Rightarrow> 'm sim \<Rightarrow> CommonTlb option" where
  "get_tlb core ins s = (if core < length (cores s)
     then (if ins then ins_tlb (cores s ! core) else data_tlb (cores s ! core)) else None)"

definition put_tlb :: "nat \<Rightarrow> bool \<Rightarrow> CommonTlb \<Rightarrow> 'm sim \<Rightarrow> 'm sim" where
  "put_tlb core ins t s = s\<lparr>cores := (cores s)[core :=
     (if ins then (cores s ! core)\<lparr>ins_tlb := Some t\<rparr> else (cores s ! core)\<lparr>data_tlb := Some t\<rparr>)]\<rparr>"

definition tlb_access ::
  "'m mem_parent \<Rightarrow> nat \<Rightarrow> bool \<Rightarrow> MemReq \<Rightarrow> walker \<Rightarrow> 'm sim \<Rightarrow> (Address \<times> MemReq \<times> walker \<times> 'm sim) option" where
  "tlb_access parent core ins req w s = do {
     t0 \<leftarrow> get_tlb core ins s;
     let t = t0\<lparr>tlb_access_time := tlb_access_time t0 + 1\<rparr>;
     let virt_addr = push_bit (tlb_line_shift t) (lineAddr req);
     let offset = virt_addr AND (push_bit (tlb_page_shift t) 1 - 1);
     let vpn = drop_bit (tlb_page_shift t) virt_addr;
     let (entry, t1) = look_up vpn True t;
     (ppn, req1, w1, s1) \<leftarrow>
       (case entry of
          None \<Rightarrow> do {
            let req0 = req\<lparr>srcId := tlb_srcId t1, rq_flags := tlb_reqFlags t1\<rparr>;
            (p, r, w', s') \<leftarrow> walker_access parent req0 w (put_tlb core ins t1 s);
            t2 \<leftarrow> get_tlb core ins s';
            let e0 = set_valid (TlbEntry vpn p);
            let e1 = (if pageShared r then set_page_shared e0 else e0);
            let e2 = (if pageDirty r then set_page_dirty e1 else e1);
            (_, t3) \<leftarrow> insert_entry vpn e2 (t2\<lparr>insert_num := insert_num t2 + 1\<rparr>);
            Some (p, r, w', put_tlb core ins t3 s')
          }
        | Some i \<Rightarrow>
            (let e = tlb t1 ! i;
                 r = (if tlb_timing t1 then req\<lparr>rq_cycle := rq_cycle req + ucast (hit_latency t1)\<rparr> else req)
             in Some (p_page_no e, r\<lparr>pageShared := is_page_shared e, pageDirty := is_page_dirty e\<rparr>, w,
                      put_tlb core ins (t1\<lparr>tlb_hit_time := tlb_hit_time t1 + 1\<rparr>) s)));
     let req2 = (if tlb_timing t then req1\<lparr>rq_cycle := rq_cycle req1 + ucast (response_latency t)\<rparr> else req1);
     Some (drop_bit (tlb_line_shift t) (push_bit (tlb_page_shift t) ppn OR offset), req2, w1, s1)
   }"

end
