(* ===== verification/LongMode_Properties.thy ===== *)
theory LongMode_Properties
  imports LongMode_Refinement
begin

text \<open>
  The properties of four-level paging, with a small allocator and two small paging states on which
  they are exercised.
\<close>

subsection \<open>A small instance for the examples\<close>

text \<open>
  An allocator with one free block of four pages, a paging object before its construction and one in
  huge mode with a single mapping.
\<close>
definition quad_zone :: Zone where
  "quad_zone = sample_zone\<lparr>free_area := (\<lambda>_. \<lparr>block_list = FlexiList, nr_free = 0\<rparr>)
     (2 := \<lparr>block_list = \<lparr>fl_head = Some 4, fl_tail = Some 4, fl_size = 1\<rparr>, nr_free = 1\<rparr>)\<rparr>"

definition quad_node :: MemoryNode where
  "quad_node = sample_node\<lparr>node_mem_map := [4 \<mapsto> (Page sample_page 4)\<lparr>pg_zone := 2\<rparr>,
       9 \<mapsto> (Page sample_page 9)\<lparr>pg_zone := 2\<rparr>],
     node_page_num := 2048, node_zones := [None, None, Some quad_zone, None]\<rparr>"

definition quad_allocator :: BuddyAllocator where
  "quad_allocator = \<lparr>total_memsize = 0x800000, ba_mode = LongMode_Normal, free_page_num = 2048,
     mem_node = Some quad_node\<rparr>"

definition quad_start :: paging where
  "quad_start = \<lparr>pt_heap = Map.empty, pt_brk = 0, buddy_allocator = Some quad_allocator, root = None,
     pg_mode = LongMode_Normal, cur_pdp_num = 0, cur_pd_num = 0, cur_pt_num = 0,
     error_migrated_pages = 0, mem_access_time = 100\<rparr>"

lemma quad_pages: "pages_left 4 quad_allocator"
  by code_simp

lemma quad_frees: "\<exists>a. free_one_page quad_allocator 9 = Some a"
proof -
  have r: "read_page quad_node 9 = Some ((Page sample_page 9)\<lparr>pg_zone := 2\<rparr>, quad_node)"
    by (simp add: read_page_def quad_node_def get_page_ptr_def)
  obtain n z where "free_one_page_zone quad_node quad_zone 9 0 = Some (n, z)"
    using free_one_page_zone_descr [of 9 quad_node 0 quad_zone] by (auto simp: quad_node_def MAXORDER_def)
  then show ?thesis
    by (simp add: free_one_page_def quad_allocator_def r Let_def Page_def) (simp add: quad_node_def)
qed

lemma quad_start_simps:
  "pt_heap quad_start = Map.empty" "has_pages (Suc 3) quad_start"
  using quad_pages by (simp_all add: quad_start_def has_pages_def numeral_eq_Suc del: pages_left.simps)

text \<open>A state with a long-mode root to start from.\<close>
lemma quad_root:
  obtains st where "LongModePaging quad_start LongMode_Normal = Some st" and "paging_inv st"
    and "pg_mode st = LongMode_Normal" and "page_map st = Map.empty" and "has_pages 3 st"
    and "\<forall>t i. tptr st t i = None"
  using LongModePaging_ok [OF quad_start_simps, of LongMode_Normal] by (auto simp: depth_def)

definition one_page :: paging where
  "one_page = quad_start\<lparr>pt_heap :=
       [0 \<mapsto> \<lparr>entry_array = (replicate 512 BasePDTEntry)[0 := validate_page_table 1 BasePDTEntry], pt_page = Some 4\<rparr>,
        1 \<mapsto> \<lparr>entry_array = (replicate 512 BasePDTEntry)[1 := validate_page_entry 9 BasePDTEntry], pt_page = Some 5\<rparr>],
     pt_brk := 2, root := Some 0, pg_mode := LongMode_Huge, cur_pdp_num := 1\<rparr>"

lemma one_page_entry:
  "get_entry one_page t i = (if t \<in> {0, 1} \<and> i < 512 then Some
     (if t = 0 \<and> i = 0 then validate_page_table 1 BasePDTEntry
      else if t = 1 \<and> i = 1 then validate_page_entry 9 BasePDTEntry else BasePDTEntry) else None)"
  by (auto simp: get_entry_def one_page_def nth_list_update)

lemma one_page_inv: "pg_state 2 0 one_page"
proof -
  have ok: "table_ok one_page t \<longleftrightarrow> t \<in> {0, 1}" for t
    by (auto simp: table_ok_def one_page_def quad_start_def)
  have "next_level_ptr (validate_page_table u e) = ToTable u" "is_present (validate_page_table u e)" for u e
    by (simp_all add: validate_page_table_def is_present_def test_bits_e_def PTE_bits bit.conj_disj_distrib2)
  then have "tables_inv 2 one_page 0 (\<lambda>t. if t = 0 then 2 else 1) [1 \<mapsto> (0, 0)]"
    by (auto simp: tables_inv_def ok one_page_entry entry_ok_def split: if_splits)
       (auto simp: one_page_def quad_start_def split: if_splits)
  then show ?thesis by (auto simp: pg_state_def)
qed

lemma one_page_simps:
  "paging_inv one_page" "pg_mode one_page = LongMode_Huge" "buddy_allocator one_page = Some quad_allocator"
  "page_map one_page [0, 1] = Some 9" "page_map one_page [1, 1] = None"
proof -
  show "pg_mode one_page = LongMode_Huge" "buddy_allocator one_page = Some quad_allocator"
    by (simp_all add: one_page_def quad_start_def)
  then show "paging_inv one_page" using one_page_inv by (auto simp: paging_inv_def depth_def)
  show "page_map one_page [0, 1] = Some 9" "page_map one_page [1, 1] = None"
    by (simp_all add: page_map_eq [OF one_page_inv] lookup_def tptr_def pptr_def one_page_entry
        validate_page_table_def)
qed


subsection \<open>Properties\<close>

lemma digit9:
  "n div 2 ^ k mod 2 ^ (9 + j) = n div 2 ^ k mod 2 ^ 9 + 2 ^ 9 * (n div 2 ^ (k + 9) mod 2 ^ j)" for n :: nat
  unfolding power_add mod_mult2_eq by (simp add: div_mult2_eq power_add)

lemma digit9_inj:
  "a < 512 \<Longrightarrow> a' < 512 \<Longrightarrow> a + 2 ^ 9 * b = a' + 2 ^ 9 * b' \<longleftrightarrow> a = a' \<and> b = b'" for a :: nat
proof
  assume a: "a < 512" "a' < 512" and eq: "a + 2 ^ 9 * b = a' + 2 ^ 9 * b'"
  have "x = (x + 2 ^ 9 * y) mod 2 ^ 9" if "x < 512" for x y :: nat using that by simp
  from this [OF a(1), of b] this [OF a(2), of b'] have "a = a'" using eq by argo
  then show "a = a' \<and> b = b'" using eq by simp
qed simp

lemma vpn_digits:
  "n mod 2 ^ 48 div 2 ^ 12 = n div 2 ^ 12 mod 2 ^ 9 + 2 ^ 9 * (n div 2 ^ 21 mod 2 ^ 9 +
     2 ^ 9 * (n div 2 ^ 30 mod 2 ^ 9 + 2 ^ 9 * (n div 2 ^ 39 mod 2 ^ 9)))" for n :: nat
proof -
  have "n mod 2 ^ 48 div 2 ^ 12 = n div 2 ^ 12 mod 2 ^ (9 + 27)"
    using drop_bit_take_bit [of 12 48 n] by (simp add: drop_bit_eq_div take_bit_eq_mod)
  also have "\<dots> = n div 2 ^ 12 mod 2 ^ 9 + 2 ^ 9 * (n div 2 ^ 21 mod 2 ^ (9 + 18))"
    by (subst digit9) simp
  also have "n div 2 ^ 21 mod 2 ^ (9 + 18) = n div 2 ^ 21 mod 2 ^ 9 + 2 ^ 9 * (n div 2 ^ 30 mod 2 ^ (9 + 9))"
    by (subst digit9) simp
  also have "n div 2 ^ 30 mod 2 ^ (9 + 9) = n div 2 ^ 30 mod 2 ^ 9 + 2 ^ 9 * (n div 2 ^ 39 mod 2 ^ 9)"
    by (subst digit9) simp
  finally show ?thesis .
qed

text \<open>
  C21. The four table indices of a long-mode address determine its virtual page: with the offset in
  the page they give back the low 48 bits of the address, each index is below 512, and two
  addresses have the same indices exactly if bits 12 to 47 agree.
\<close>

theorem get_domains_roundtrip:
  "case get_domains addr LongMode_Normal of (pml4, pdp, pd, pt) \<Rightarrow>
     pml4 * 2 ^ 39 + pdp * 2 ^ 30 + pd * 2 ^ 21 + pt * 2 ^ 12 + unat addr mod 2 ^ 12 = unat addr mod 2 ^ 48 \<and>
     {pml4, pdp, pd, pt} \<subseteq> {..<512} \<and>
     (get_domains addr LongMode_Normal = get_domains addr' LongMode_Normal \<longleftrightarrow>
        unat addr mod 2 ^ 48 div 2 ^ 12 = unat addr' mod 2 ^ 48 div 2 ^ 12)"
proof -
  have split: "n div 2 ^ 39 mod 2 ^ 9 * 2 ^ 39 + n div 2 ^ 30 mod 2 ^ 9 * 2 ^ 30 +
      n div 2 ^ 21 mod 2 ^ 9 * 2 ^ 21 + n div 2 ^ 12 mod 2 ^ 9 * 2 ^ 12 + n mod 2 ^ 12 = n mod 2 ^ 48"
    for n :: nat
  proof -
    have "n mod 2 ^ 48 = 2 ^ 12 * (n mod 2 ^ 48 div 2 ^ 12) + n mod 2 ^ 12"
      by (subst mod_mod_cancel [of "2 ^ 12" "2 ^ 48" n, symmetric])
         (simp_all only: mult_div_mod_eq le_imp_power_dvd)
    then show ?thesis unfolding vpn_digits by simp
  qed
  have inj: "(n div 2 ^ 39 mod 2 ^ 9 = m div 2 ^ 39 mod 2 ^ 9 \<and> n div 2 ^ 30 mod 2 ^ 9 = m div 2 ^ 30 mod 2 ^ 9 \<and>
      n div 2 ^ 21 mod 2 ^ 9 = m div 2 ^ 21 mod 2 ^ 9 \<and> n div 2 ^ 12 mod 2 ^ 9 = m div 2 ^ 12 mod 2 ^ 9) \<longleftrightarrow>
      n mod 2 ^ 48 div 2 ^ 12 = m mod 2 ^ 48 div 2 ^ 12"
    for n m :: nat unfolding vpn_digits by (subst digit9_inj, simp, simp)+ auto
  show ?thesis
    using split [of "unat addr"] inj [of "unat addr" "unat addr'"]
    by (simp add: get_domains_def get_bit_value_eq)
qed


text \<open>
  Constructing a long-mode paging object from an allocator with a free page succeeds and
  gives a well-formed tree of tables in which no address is mapped.
\<close>
theorem LongModePaging_empty:
  assumes "pt_heap st = Map.empty" and "has_pages (Suc k) st" and "depth mode \<noteq> 0"
  shows "\<exists>st'. LongModePaging st mode = Some st' \<and> paging_inv st' \<and> pg_mode st' = mode \<and>
           page_map st' = Map.empty \<and> has_pages k st' \<and> cur_pdp_num st' = 0"
  using LongModePaging_ok [OF assms] by blast

theorem LongModePaging_empty_witness:
  "\<exists>st'. LongModePaging quad_start LongMode_Huge = Some st' \<and> paging_inv st' \<and> pg_mode st' = LongMode_Huge \<and>
     page_map st' = Map.empty \<and> has_pages 3 st' \<and> cur_pdp_num st' = 0"
  using LongModePaging_empty [OF quad_start_simps, of LongMode_Huge] by (simp add: depth_def)



text \<open>
  C13. Access is the lookup of the address-space map: in a well-formed state the walk never fails an
  assertion and returns the page number of the mapping of the address, or the page-fault signal
  when there is none.
\<close>
theorem access_refines_lookup:
  assumes "paging_inv st"
  shows "\<exists>c. access_walk st addr =
           Some (case page_map st (index_path (pg_mode st) addr) of
                   None \<Rightarrow> PAGE_FAULT_SIG | Some p \<Rightarrow> of_nat p, c)"
  using access_walk_ok [OF assms, of addr] by (simp add: enc_page_def)

theorem access_refines_lookup_witness:
  "\<exists>c c'. access_walk one_page 0x40000abc = Some (9, c) \<and> access_walk one_page 0x8040000000 = Some (PAGE_FAULT_SIG, c')"
proof -
  have "index_path LongMode_Huge 0x40000abc = [0, 1]" "index_path LongMode_Huge 0x8040000000 = [1, 1]"
    by (simp_all add: index_path_def get_domains_def depth_def get_bit_value_eq)
  then show ?thesis
    using access_refines_lookup [OF one_page_simps(1), of "0x40000abc"]
      access_refines_lookup [OF one_page_simps(1), of "0x8040000000"] one_page_simps by simp
qed


text \<open>
  C18. The timed page walk returns what the map holds and changes no mapping: in a well-formed state,
  without timing, it returns the page of the address, or the page-fault signal and an unchanged
  state; the flags it sets on the entry it reached leave every mapping in place.
\<close>
theorem access_ptw_keeps_mappings:
  assumes "paging_inv st"
  shows "\<exists>st' req' w'. access_ptw parent rtts line_bits pg_shift False st req w =
             Some (case page_map st (index_path (pg_mode st) (push_bit line_bits (lineAddr req))) of
                     None \<Rightarrow> PAGE_FAULT_SIG | Some p \<Rightarrow> of_nat p, st', req', w') \<and>
           paging_inv st' \<and> page_map st' = page_map st \<and> rq_cycle req' = rq_cycle req \<and>
           (page_map st (index_path (pg_mode st) (push_bit line_bits (lineAddr req))) = None \<longrightarrow> st' = st)"
  using access_ptw_ok [OF assms, of parent rtts line_bits pg_shift req w] by (auto simp: enc_page_def)

definition sample_req :: MemReq where
  "sample_req = \<lparr>lineAddr = 0x1000000, rq_type = GETS, childId = 0, rq_cycle = 5, initialState = Ist, srcId = 1,
     rq_flags = 0, threadId = 0, isPIMInst = False, isFirstPTW = False, isLastPTW = False, pageShared = False,
     pageDirty = False, triggerPageShared = False, triggerPageDirty = False\<rparr>"

theorem access_ptw_keeps_mappings_witness:
  "\<exists>st' req' w'. access_ptw (\<lambda>_ _ w. (0, w)) [0] 6 12 False one_page sample_req
       ((), \<lparr>ev_tr = None, ev_edges = []\<rparr>) = Some (9, st', req', w') \<and>
     page_map st' [0, 1] = Some 9 \<and> rq_cycle req' = 5"
proof -
  have "index_path LongMode_Huge 0x40000000 = [0, 1]"
    by (simp_all add: index_path_def get_domains_def depth_def get_bit_value_eq)
  then show ?thesis
    using access_ptw_keeps_mappings [OF one_page_simps(1), of "\<lambda>_ _ w. (0, w)" "[0]" 6 12
        sample_req "((), \<lparr>ev_tr = None, ev_edges = []\<rparr>)"] one_page_simps
    by (auto simp: sample_req_def push_bit_eq_mult)
qed

text \<open>
  C17. Unmapping a mapped address removes exactly that mapping and gives the page back: when the
  allocator accepts the page, the call runs to its end, the address is unmapped afterwards and every
  other mapping stays.  It reports failure all the same.
\<close>
theorem unmap_page_table_removes:
  assumes "paging_inv st" and "page_map st (index_path (pg_mode st) addr) = Some pg"
    and "buddy_allocator st = Some a" and "free_one_page a pg = Some a'"
  shows "\<exists>st'. unmap_page_table st addr = Some (False, st') \<and> paging_inv st' \<and> pg_mode st' = pg_mode st \<and>
           page_map st' = (page_map st)(index_path (pg_mode st) addr := None) \<and> buddy_allocator st' = Some a'"
  using unmap_at_ok(1) [OF assms(1) refl assms(2-4)] unmap_page_table_eq [of st addr] assms(1)
  by (simp add: paging_inv_def)

theorem unmap_page_table_removes_witness:
  "\<exists>st'. unmap_page_table one_page 0x40000000 = Some (False, st') \<and> page_map st' [0, 1] = None"
proof -
  have ip: "index_path LongMode_Huge 0x40000000 = [0, 1]"
    by (simp_all add: index_path_def get_domains_def depth_def get_bit_value_eq)
  obtain a' where "free_one_page quad_allocator 9 = Some a'" using quad_frees by blast
  from unmap_page_table_removes [OF one_page_simps(1) _ one_page_simps(3) this, of "0x40000000"]
  show ?thesis unfolding one_page_simps(2) ip using one_page_simps(4) by auto
qed

text \<open>
  C22. Unmapping an address of a region for which no table was ever allocated is not harmless: with
  pages of 4 KB or 2 MB the null pointer read from the root is dereferenced and the simulator aborts;
  only with pages of 1 GB, or when the tables exist, does the call return.
\<close>
theorem unmap_of_unallocated_region_aborts:
  assumes "paging_inv st" and "page_map st (index_path (pg_mode st) addr) = None"
  shows "unmap_page_table st addr =
           (if tptr st (the (root st)) (hd (index_path (pg_mode st) addr)) = None \<and> pg_mode st \<noteq> LongMode_Huge
            then None else Some (False, st))"
proof -
  from assms(1) have mode: "depth (pg_mode st) \<noteq> 0" by (simp add: paging_inv_def)
  have "2 < length (index_path (pg_mode st) addr) \<longleftrightarrow> pg_mode st \<noteq> LongMode_Huge"
    by (rule long_mode_cases [OF mode]) (simp_all add: index_path_facts(1) depth_def)
  then show ?thesis
    using unmap_at_ok(2) [OF assms(1) refl assms(2)] unmap_page_table_eq [OF mode, of addr] by simp
qed

theorem unmap_of_unallocated_region_aborts_witness:
  "\<exists>st. LongModePaging quad_start LongMode_Normal = Some st \<and> unmap_page_table st 0x1000 = None"
proof -
  obtain st where "LongModePaging quad_start LongMode_Normal = Some st" "paging_inv st"
      "pg_mode st = LongMode_Normal" "page_map st = Map.empty" "\<forall>t i. tptr st t i = None"
    by (rule quad_root)
  then show ?thesis using unmap_of_unallocated_region_aborts [of st "0x1000"] by simp
qed


text \<open>
  C16. A sequence of mappings behaves like writes to memory: after mapping a list of address and page
  pairs in 4 KB mode, an access returns the page that was mapped last for an address with the same
  page indices, and what it returned before when there is none.
\<close>
theorem mapping_sequence_last_wins:
  assumes "paging_inv st" and "pg_mode st = LongMode_Normal" and "has_pages (3 * length aps) st"
  shows "\<exists>st'. fold_opt (\<lambda>(a, p) s. lm_map s a p) aps st = Some st' \<and>
           (\<exists>c. access_walk st' b =
              Some (case map_of (rev (map (\<lambda>(a, p). (index_path LongMode_Normal a, p)) aps))
                           (index_path LongMode_Normal b) of
                      Some p \<Rightarrow> of_nat p
                    | None \<Rightarrow> enc_page (page_map st (index_path LongMode_Normal b)), c))"
proof -
  have "lm_ok LongMode_Normal st" using assms by (simp add: lm_ok_def)
  from lm.read_after_seq [OF this assms(3), of b] show ?thesis
    by (auto simp: lm_read_def enc_page_def map_add_def split: option.splits)
qed

theorem mapping_sequence_last_wins_witness:
  "\<exists>st st' c. LongModePaging quad_start LongMode_Normal = Some st \<and>
     fold_opt (\<lambda>(a, p) s. lm_map s a p) [(0x12345678, 9)] st = Some st' \<and>
     access_walk st' 0x12345000 = Some (9, c)"
proof -
  have ip: "index_path LongMode_Normal 0x12345678 = index_path LongMode_Normal 0x12345000"
    by (simp add: index_path_def get_domains_def depth_def get_bit_value_eq)
  obtain st where "LongModePaging quad_start LongMode_Normal = Some st" "paging_inv st"
      "pg_mode st = LongMode_Normal" "has_pages 3 st"
    by (rule quad_root)
  then show ?thesis
    using mapping_sequence_last_wins [of st "[(0x12345678, 9)]" "0x12345000"] by (simp add: ip)
qed

end
