(* ===== verification/Walker_Properties.thy ===== *)
theory Walker_Properties
  imports Page_Table_Walker LongMode_Properties
begin

text \<open>
  TLBs, walker, page tables and allocator together.  The invariant \<open>sys_inv\<close> says that every TLB agrees
  with the page tables of the process that runs, and that there are pages and sequence numbers left for a
  number of accesses.
\<close>

subsection \<open>Mapping for a request\<close>

lemma map_page_table_req_ok:
  assumes inv: "paging_inv st" and mode: "pg_mode st = LongMode_Normal" and k: "has_pages (3 + k) st"
  shows "\<exists>lat st'. map_page_table_req st q addr pg wr = Some (lat, st') \<and> paging_inv st' \<and>
           pg_mode st' = LongMode_Normal \<and> lat \<le> mem_access_time st * 4 \<and>
           mem_access_time st' = mem_access_time st \<and>
           page_map st' = (page_map st)(index_path LongMode_Normal addr \<mapsto> pg) \<and> has_pages k st'"
proof -
  obtain lat t i st1 where 1: "map_page_table st addr pg = Some (lat, (t, i), st1)" "paging_inv st1"
      "lat \<le> mem_access_time st * 4" "mem_access_time st1 = mem_access_time st" "pg_mode st1 = LongMode_Normal"
      "page_map st1 = (page_map st)(index_path LongMode_Normal addr \<mapsto> pg)" "has_pages k st1"
      "walk (tptr st1) (the (root st1)) (butlast (index_path LongMode_Normal addr)) = Some t"
      "i = last (index_path LongMode_Normal addr)"
    using map_page_table_ok [OF inv k, of addr pg] mode by auto
  from 1(2) obtain r where r: "pg_state (depth (pg_mode st1)) r st1" by (auto simp: paging_inv_def)
  have "walk (tptr st1) r (butlast (index_path LongMode_Normal addr)) = Some t" using 1(8) pg_state_root [OF r] by simp
  moreover have "i < 512" using 1(9) index_path_facts(3) [of LongMode_Normal addr] by (simp add: depth_def)
  ultimately obtain e where e: "get_entry st1 t i = Some e" using walked_entry [OF r] by blast
  let ?f = "\<lambda>e. let e1 = set_accessed (set_lrequester q e) in if wr then set_dirty e1 else e1"
  have f: "next_level_ptr (?f e) = next_level_ptr e" "is_present (?f e) = is_present e"
    by (simp_all add: Let_def touch_flags)
  obtain st2 where 2: "upd_entry ?f st1 t i = Some st2" "pg_state (depth (pg_mode st1)) r st2" "tptr st2 = tptr st1"
      "pptr st2 = pptr st1" "same_rest st1 st2" "buddy_allocator st2 = buddy_allocator st1"
    using flag_write [OF r e, of ?f, OF f] by blast
  have "page_map st2 = page_map st1" using 2 by (simp add: page_map_eq [OF r] page_map_eq [OF 2(2)])
  then show ?thesis using 1 2 r by (auto simp: map_page_table_req_def same_rest_def paging_inv_def has_pages_def)
qed

lemma paging_inv_buddy [simp]: "paging_inv (p\<lparr>buddy_allocator := x\<rparr>) = paging_inv p"
  by (simp add: paging_inv_def pg_state_def)

lemma has_pages_step:
  assumes "has_pages (Suc k) p"
  shows "\<exists>a x a'. buddy_allocator p = Some a \<and> allocate_pages a 0 0 = Some (Some x, a') \<and>
           (of_nat x :: Address) \<noteq> PAGE_FAULT_SIG \<and> pages_left k a'"
  using assms by (auto simp: has_pages_def split: option.splits)

lemma of_nat_not_minus_one: "n < 2 ^ 32 \<Longrightarrow> (of_nat n :: Address) \<noteq> - 1"
proof
  assume n: "n < 2 ^ 32" and eq: "(of_nat n :: Address) = - 1"
  have "unat (of_nat n :: Address) = n" using n by (simp add: unat_of_nat take_bit_nat_eq_self)
  then show False using n eq by (simp add: unsigned_minus_1_eq_mask mask_eq_exp_minus_1)
qed

subsection \<open>The invariant\<close>

text \<open>A TLB never says more than the page tables do.\<close>
definition agrees :: "nat \<Rightarrow> (nat list \<Rightarrow> nat option) \<Rightarrow> CommonTlb \<Rightarrow> bool" where
  "agrees sh pm t \<longleftrightarrow> (\<forall>v d. tlb_view t v = Some d \<longrightarrow>
     (\<exists>p. pm (index_path LongMode_Normal (push_bit sh v)) = Some p \<and> fst d = of_nat p))"

definition tlb_good :: "int \<Rightarrow> nat \<Rightarrow> nat \<Rightarrow> (nat list \<Rightarrow> nat option) \<Rightarrow> CommonTlb \<Rightarrow> bool" where
  "tlb_good b sh lb pm t \<longleftrightarrow> (\<exists>vs. lru_rep t vs) \<and> evict_policy t = LRU \<and> lru_seq t + b < 2 ^ 31 \<and>
     tlb_page_shift t = sh \<and> tlb_line_shift t = lb \<and> agrees sh pm t"

definition tlbs_good :: "(CommonTlb \<Rightarrow> bool) \<Rightarrow> core_tlbs list \<Rightarrow> bool" where
  "tlbs_good P cs \<longleftrightarrow> (\<forall>c \<in> set cs. pred_option P (ins_tlb c) \<and> pred_option P (data_tlb c))"

text \<open>The paging object the walker works on, with the shared allocator.\<close>
definition cur_paging :: "walker \<Rightarrow> 'm sim \<Rightarrow> paging option" where
  "cur_paging w s = (case pw_paging w of
     None \<Rightarrow> None
   | Some i \<Rightarrow> if i < length (paging_array s)
               then map_option (\<lambda>p. p\<lparr>buddy_allocator := sim_buddy s\<rparr>) (paging_array s ! i) else None)"

definition paging_good :: "nat \<Rightarrow> paging \<Rightarrow> bool" where
  "paging_good n p \<longleftrightarrow> paging_inv p \<and> pg_mode p = LongMode_Normal \<and> has_pages (4 * n) p \<and>
     mem_access_time p * 4 < 2 ^ 32 \<and> (\<forall>q x. page_map p q = Some x \<longrightarrow> (of_nat x :: Address) \<noteq> PAGE_FAULT_SIG)"

definition sys_inv :: "nat \<Rightarrow> walker \<Rightarrow> 'm sim \<Rightarrow> bool" where
  "sys_inv n w s \<longleftrightarrow> \<not> pw_timing w \<and> \<not> enable_shared_memory s \<and> line_shift w = sim_line_bits s \<and> sim_page_shift s = 12 \<and>
     (\<exists>p. cur_paging w s = Some p \<and> paging_good n p \<and>
        tlbs_good (tlb_good (2 * int n) (sim_page_shift s) (sim_line_bits s) (page_map p)) (cores s))"

lemma with_paging_cur:
  assumes "pw_paging w = Some i" and "cur_paging w s = Some p" and "f p = Some (r, p')"
  shows "\<exists>s'. with_paging i f s = Some (r, s') \<and> cur_paging w s' = Some p' \<and> cores s' = cores s \<and>
           enable_shared_memory s' = enable_shared_memory s \<and> sim_page_shift s' = sim_page_shift s \<and>
           sim_line_bits s' = sim_line_bits s \<and> sim_world s' = sim_world s"
  using assms by (auto simp: with_paging_def cur_paging_def split: if_splits)

lemma one_tlb_snd: "snd (one_tlb f x ov) = map_option (\<lambda>t. snd (f t)) x"
  by (simp add: one_tlb_def split: option.split prod.split)

lemma each_tlb_snd:
  "snd (each_tlb f cs ov) = map (\<lambda>c. c\<lparr>ins_tlb := map_option (\<lambda>t. snd (f t)) (ins_tlb c),
     data_tlb := map_option (\<lambda>t. snd (f t)) (data_tlb c)\<rparr>) cs"
  by (induction cs arbitrary: ov) (simp_all add: Let_def split_beta one_tlb_snd)

lemma each_tlb_cores:
  "tlbs_good P cs \<Longrightarrow> (\<And>t. P t \<Longrightarrow> Q (snd (f t))) \<Longrightarrow> tlbs_good Q (snd (each_tlb f cs ov))"
  by (auto simp: each_tlb_snd tlbs_good_def option.pred_set option.set_map)

lemma tlbs_good_mono: "tlbs_good P cs \<Longrightarrow> (\<And>t. P t \<Longrightarrow> Q t) \<Longrightarrow> tlbs_good Q cs"
  unfolding tlbs_good_def by (metis option.pred_mono_strong)

lemma tlbs_good_get:
  assumes "tlbs_good P (cores s)" and "get_tlb core ins s = Some t"
  shows "P t"
proof -
  have "core < length (cores s)" using assms(2) by (auto simp: get_tlb_def split: if_splits)
  then have "cores s ! core \<in> set (cores s)" by simp
  then have "pred_option P (ins_tlb (cores s ! core))" "pred_option P (data_tlb (cores s ! core))"
    using assms(1) by (auto simp: tlbs_good_def)
  then show ?thesis using assms(2) by (auto simp: get_tlb_def split: if_splits)
qed

lemma tlbs_good_put:
  assumes "tlbs_good P (cores s)" and "P t" and "get_tlb core ins s = Some t0"
  shows "tlbs_good P (cores (put_tlb core ins t s))"
  using assms by (auto simp: tlbs_good_def put_tlb_def get_tlb_def set_conv_nth nth_list_update split: if_splits)

lemma get_put_tlb: "get_tlb core ins s = Some t0 \<Longrightarrow> get_tlb core ins (put_tlb core ins t s) = Some t"
  by (auto simp: get_tlb_def put_tlb_def split: if_splits)


lemma op_frame_seq:
  "op_frame t t' \<Longrightarrow> 0 \<le> lru_seq t \<Longrightarrow> lru_seq t + 1 < 2 ^ 31 \<Longrightarrow> lru_seq t' \<le> lru_seq t + 1"
  using wrap_int32_id [of "lru_seq t + 1"] by (auto simp: op_frame_def)

lemma tlb_good_shootdown:
  assumes "tlb_good (b + 1) sh lb pm t" and "0 \<le> b"
  shows "tlb_good b sh lb pm (snd (shootdown v t))"
proof -
  from assms obtain vs where rep: "lru_rep t vs" and seq: "lru_seq t + 1 < 2 ^ 31" "lru_seq t + (b + 1) < 2 ^ 31"
    by (auto simp: tlb_good_def)
  note wf = lru_repD(1) [OF rep]
  note f = shootdown_frame [OF wf, of v]
  have "lru_seq (snd (shootdown v t)) \<le> lru_seq t + 1" by (rule op_frame_seq [OF f lru_repD(4) [OF rep] seq(1)])
  moreover have "agrees sh pm (snd (shootdown v t))"
    using assms(1) by (auto simp: tlb_good_def agrees_def shootdown_view [OF wf])
  ultimately show ?thesis
    using shootdown_lru [OF rep seq(1), of v] f seq(2) assms(1) by (auto simp: tlb_good_def op_frame_def)
qed

lemma tlb_good_map:
  assumes "tlb_good b sh lb pm t" and "pm q = None"
  shows "tlb_good b sh lb (pm(q \<mapsto> x)) t"
proof -
  have "agrees sh (pm(q \<mapsto> x)) t"
    using assms unfolding tlb_good_def agrees_def by (metis fun_upd_other option.distinct(1))
  then show ?thesis using assms(1) by (simp add: tlb_good_def)
qed

text \<open>Writes to an entry that keep its pages, validity and sequence number.\<close>
lemma tlb_good_upd:
  assumes good: "tlb_good b sh lb pm t"
    and f: "\<And>e. v_page_no (f e) = v_page_no e" "\<And>e. p_page_no (f e) = p_page_no e"
      "\<And>e. entry_valid e \<Longrightarrow> entry_valid (f e)" "\<And>e. e_lru_seq (f e) = e_lru_seq e"
  shows "tlb_good b sh lb pm (upd_tlb i f t)"
proof -
  have nth: "tlb (upd_tlb i f t) ! j = (if j = i \<and> i < length (tlb t) then f (tlb t ! j) else tlb t ! j)" for j
    by (cases "i < length (tlb t)") (auto simp: upd_tlb_def nth_list_update list_update_beyond)
  have "seq_of (upd_tlb i f t) = seq_of t" by (rule ext) (simp add: seq_of_def nth f(4))
  moreover have "tlb_wf (upd_tlb i f t)" if "tlb_wf t" using tlb_wf_upd [OF that f(1,3)] .
  moreover have "agrees sh pm (upd_tlb i f t)" if "agrees sh pm t"
    using that by (auto simp: agrees_def tlb_view_def entry_data_def nth f(2) split: if_splits)
  ultimately show ?thesis using good by (auto simp: tlb_good_def lru_rep_def)
qed

lemma tlb_good_flags:
  assumes "tlb_good b sh lb pm t"
  shows "tlb_good b sh lb pm (snd (update_tlb_flags p s d t))"
proof (cases "look_up_pa p t")
  case (Some i)
  then show ?thesis unfolding update_tlb_flags_def
    by (simp, intro tlb_good_upd [OF assms])
       (auto simp: Let_def set_page_shared_def set_page_dirty_def entry_valid_def bit.conj_disj_distrib2 or_eq_0_iff)
qed (use assms in \<open>simp add: update_tlb_flags_def\<close>)

text \<open>Shootdowns and flag updates never add a page to a TLB.\<close>
definition shrunk :: "core_tlbs list \<Rightarrow> core_tlbs list \<Rightarrow> bool" where
  "shrunk cs cs' \<longleftrightarrow> list_all2 (\<lambda>c c'.
     rel_option (\<lambda>t t'. dom (tlb_trie t') \<subseteq> dom (tlb_trie t)) (ins_tlb c) (ins_tlb c') \<and>
     rel_option (\<lambda>t t'. dom (tlb_trie t') \<subseteq> dom (tlb_trie t)) (data_tlb c) (data_tlb c')) cs cs'"

lemma shrunk_each:
  assumes "\<And>t. dom (tlb_trie (snd (f t))) \<subseteq> dom (tlb_trie t)"
  shows "shrunk cs (snd (each_tlb f cs ov))"
  using assms by (simp add: shrunk_def each_tlb_snd list_all2_conv_all_nth option_rel_Some1 option.rel_map
      option.rel_refl_strong)

lemma shrunk_refl: "shrunk cs cs"
  by (simp add: shrunk_def list_all2_conv_all_nth option.rel_refl_strong)

lemma shrunk_trans: "shrunk a b \<Longrightarrow> shrunk b c \<Longrightarrow> shrunk a c"
  unfolding shrunk_def by (erule (1) list_all2_trans [rotated]) (auto elim!: option.rel_cases)

lemma shrunk_get:
  assumes "shrunk (cores s) (cores s')" and "get_tlb core ins s = Some t"
  shows "\<exists>t'. get_tlb core ins s' = Some t' \<and> dom (tlb_trie t') \<subseteq> dom (tlb_trie t)"
  using assms by (auto simp: shrunk_def get_tlb_def list_all2_conv_all_nth option_rel_Some1 split: if_splits)

lemma shootdown_shrinks: "dom (tlb_trie (snd (shootdown v t))) \<subseteq> dom (tlb_trie t)"
  by (auto simp: shootdown_def Let_def look_up_def split: option.splits)

lemma update_flags_all_shrunk: "cores s = cs \<Longrightarrow> shrunk cs (cores (update_tlb_flags_all ppn x y s))"
  unfolding update_tlb_flags_all_def by (simp, hypsubst) (rule shrunk_each, auto simp: update_tlb_flags_def split: option.split)

text \<open>A page fault on an unmapped address maps a new page there and nowhere else.\<close>
lemma do_page_fault_ok:
  assumes inv: "sys_inv (Suc n) w s" and p: "cur_paging w s = Some p"
    and miss: "page_map p (index_path LongMode_Normal (push_bit (line_shift w) (lineAddr req))) = None"
  shows "\<exists>x req' w' s' p'. do_page_fault req w s = Some (of_nat x, req', w', s') \<and> cur_paging w' s' = Some p' \<and>
     page_map p' = (page_map p)(index_path LongMode_Normal (push_bit (line_shift w) (lineAddr req)) \<mapsto> x) \<and>
     (of_nat x :: Address) \<noteq> PAGE_FAULT_SIG \<and> paging_good n p' \<and>
     tlbs_good (tlb_good (2 * int n + 1) (sim_page_shift s) (sim_line_bits s) (page_map p')) (cores s') \<and>
     shrunk (cores s) (cores s') \<and> pw_paging w' = pw_paging w \<and> pw_timing w' = pw_timing w \<and> line_shift w' = line_shift w \<and>
     enable_shared_memory s' = enable_shared_memory s \<and> sim_page_shift s' = sim_page_shift s \<and>
     sim_line_bits s' = sim_line_bits s \<and> rq_cycle req' = rq_cycle req"
proof -
  let ?va = "push_bit (line_shift w) (lineAddr req)"
  let ?vpn = "drop_bit (sim_page_shift s) ?va"
  from inv p have g: "\<not> pw_timing w" "\<not> enable_shared_memory s" "paging_good (Suc n) p"
      "tlbs_good (tlb_good (2 * int n + 1 + 1) (sim_page_shift s) (sim_line_bits s) (page_map p)) (cores s)"
    by (auto simp: sys_inv_def)
  have b: "buddy_allocator p = sim_buddy s" using p by (auto simp: cur_paging_def split: option.splits if_splits)
  obtain i where i: "pw_paging w = Some i" using p by (auto simp: cur_paging_def split: option.splits)
  have "has_pages (Suc (3 + 4 * n)) p" using g(3) by (simp add: paging_good_def)
  from has_pages_step [OF this] b obtain a x a' where a: "sim_buddy s = Some a" "allocate_pages a 0 0 = Some (Some x, a')"
      "(of_nat x :: Address) \<noteq> PAGE_FAULT_SIG" "pages_left (3 + 4 * n) a'"
    by auto
  define cs where "cs = snd (each_tlb (shootdown ?vpn) (cores s) 0)"
  let ?s = "s\<lparr>sim_buddy := Some a', cores := cs\<rparr>" and ?p = "p\<lparr>buddy_allocator := Some a'\<rparr>"
  have cs: "tlbs_good (tlb_good (2 * int n + 1) (sim_page_shift s) (sim_line_bits s) (page_map p)) cs"
    unfolding cs_def by (rule each_tlb_cores [OF g(4)]) (rule tlb_good_shootdown, simp_all)
  have sd: "tlb_shootdown_req req ?vpn w (s\<lparr>sim_buddy := Some a'\<rparr>) = (req, w, ?s)"
    using g(1) by (simp add: tlb_shootdown_req_def cs_def split_beta)
  have p1: "cur_paging w ?s = Some ?p" using p by (auto simp: cur_paging_def split: option.splits if_splits)
  have pm: "page_map ?p = page_map p" by (simp add: page_map_def fun_eq_iff cong: option.case_cong)
  have "paging_inv ?p" "pg_mode ?p = LongMode_Normal" "has_pages (3 + 4 * n) ?p"
    using g(3) a(4) by (simp_all add: paging_good_def has_pages_def)
  from map_page_table_req_ok [OF this, of "srcId req" ?va x "rq_type req = PUTS"] obtain lat p' where
    m: "map_page_table_req ?p (srcId req) ?va x (rq_type req = PUTS) = Some (lat, p')" "paging_inv p'"
      "pg_mode p' = LongMode_Normal" "lat \<le> mem_access_time p * 4" "mem_access_time p' = mem_access_time p"
      "page_map p' = (page_map p)(index_path LongMode_Normal ?va \<mapsto> x)" "has_pages (4 * n) p'"
    unfolding pm by auto
  have "lat < 2 ^ 32" using m(4) g(3) by (simp add: paging_good_def)
  then have lat: "(of_nat lat :: Address) \<noteq> - 1" by (rule of_nat_not_minus_one)
  from with_paging_cur [OF i p1, of "\<lambda>p. map_page_table_req p (srcId req) ?va x (rq_type req = PUTS)" lat p'] m(1)
  obtain s' where s': "with_paging i (\<lambda>p. map_page_table_req p (srcId req) ?va x (rq_type req = PUTS)) ?s = Some (lat, s')"
      "cur_paging w s' = Some p'" "cores s' = cs" "enable_shared_memory s' = enable_shared_memory s"
      "sim_page_shift s' = sim_page_shift s" "sim_line_bits s' = sim_line_bits s" by auto
  have "map_private req ?va x w ?s = Some (req, w, s')"
    using i s'(1) lat g(1) by (simp add: map_private_def)
  then have "do_page_fault req w s = Some (of_nat x, req\<lparr>pageDirty := (rq_type req = PUTS)\<rparr>,
      w\<lparr>allocated_page := allocated_page w + 1\<rparr>, s')"
    using a(1,2) sd g(2) by (simp add: do_page_fault_def Let_def)
  moreover have "cur_paging (w\<lparr>allocated_page := allocated_page w + 1\<rparr>) s' = Some p'"
    using s'(2) by (simp add: cur_paging_def)
  moreover have "paging_good n p'" using m g(3) a(3) by (auto simp: paging_good_def)
  moreover have "tlbs_good (tlb_good (2 * int n + 1) (sim_page_shift s) (sim_line_bits s) (page_map p')) (cores s')"
    unfolding s'(3) m(6) using tlbs_good_mono [OF cs] tlb_good_map miss by blast
  moreover have "shrunk (cores s) (cores s')" unfolding s'(3) cs_def by (rule shrunk_each) (rule shootdown_shrinks)
  ultimately show ?thesis using m(6) a(3) s' by auto
qed


lemma cur_paging_frame [simp]:
  "cur_paging (w\<lparr>period := a\<rparr>) s = cur_paging w s"
  "cur_paging (w\<lparr>tlb_miss_exclude_shootdown := b\<rparr>) s = cur_paging w s"
  "cur_paging (w\<lparr>tlb_miss_overhead := b\<rparr>) s = cur_paging w s"
  "cur_paging w (s\<lparr>sim_world := wl\<rparr>) = cur_paging w s" "cur_paging w (s\<lparr>cores := cs\<rparr>) = cur_paging w s"
  by (simp_all add: cur_paging_def split: option.split)

lemma tlb_good_weaken: "tlb_good b sh lb pm t \<Longrightarrow> b' \<le> b \<Longrightarrow> tlb_good b' sh lb pm t"
  by (auto simp: tlb_good_def)

lemma has_pages_weaken: "has_pages (k + n) p \<Longrightarrow> has_pages n p"
  by (induction k) (auto intro: has_pages_Suc)

lemma paging_good_weaken: "paging_good (Suc n) p \<Longrightarrow> paging_good n p"
  using has_pages_weaken [of 4 "4 * n" p] by (simp add: paging_good_def)

lemma update_flags_all_ok:
  assumes "tlbs_good (tlb_good b sh lb pm) (cores s)"
  shows "tlbs_good (tlb_good b sh lb pm) (cores (update_tlb_flags_all ppn x y s))"
  unfolding update_tlb_flags_all_def by (simp, rule each_tlb_cores [OF assms]) (rule tlb_good_flags)

lemma update_flags_all_frame [simp]:
  "cur_paging w (update_tlb_flags_all ppn x y s) = cur_paging w s"
  "enable_shared_memory (update_tlb_flags_all ppn x y s) = enable_shared_memory s"
  "sim_page_shift (update_tlb_flags_all ppn x y s) = sim_page_shift s"
  "sim_line_bits (update_tlb_flags_all ppn x y s) = sim_line_bits s"
  by (simp_all add: update_tlb_flags_all_def)

text \<open>The walker returns the page of the address, mapping one first when there is none.\<close>
lemma walker_access_ok:
  assumes inv: "sys_inv (Suc n) w s" and p: "cur_paging w s = Some p"
    and q: "q = index_path LongMode_Normal (push_bit (line_shift w) (lineAddr req))"
  shows "\<exists>x req' w' s' p'. walker_access parent req w s = Some (of_nat x, req', w', s') \<and> cur_paging w' s' = Some p' \<and>
     page_map p' = (page_map p)(q \<mapsto> x) \<and> (page_map p q \<noteq> None \<longrightarrow> page_map p q = Some x) \<and> paging_good n p' \<and>
     tlbs_good (tlb_good (2 * int n + 1) (sim_page_shift s) (sim_line_bits s) (page_map p')) (cores s') \<and>
     shrunk (cores s) (cores s') \<and> pw_paging w' = pw_paging w \<and> pw_timing w' = pw_timing w \<and> line_shift w' = line_shift w \<and>
     enable_shared_memory s' = enable_shared_memory s \<and> sim_page_shift s' = sim_page_shift s \<and>
     sim_line_bits s' = sim_line_bits s \<and> rq_cycle req' = rq_cycle req"
proof -
  from inv p have g: "\<not> pw_timing w" "\<not> enable_shared_memory s" "paging_good (Suc n) p" "line_shift w = sim_line_bits s"
      "tlbs_good (tlb_good (2 * int (Suc n)) (sim_page_shift s) (sim_line_bits s) (page_map p)) (cores s)"
    by (auto simp: sys_inv_def)
  obtain i where i: "pw_paging w = Some i" using p by (auto simp: cur_paging_def split: option.splits)
  let ?req = "req\<lparr>childId := selfId w\<rparr>"
  from g(3) have pinv: "paging_inv p" "pg_mode p = LongMode_Normal" by (simp_all add: paging_good_def)
  obtain p1 req1 wl where a: "access_ptw parent (pw_parentRTTs w) (sim_line_bits s) (sim_page_shift s) False p ?req
        (sim_world s) = Some (enc_page (page_map p q), p1, req1, wl)" "paging_inv p1" "page_map p1 = page_map p"
      "rq_cycle req1 = rq_cycle req" "pg_mode p1 = LongMode_Normal" "lineAddr req1 = lineAddr req"
      "mem_access_time p1 = mem_access_time p" "buddy_allocator p1 = buddy_allocator p"
    using access_ptw_ok [OF pinv(1), of parent "pw_parentRTTs w" "sim_line_bits s" "sim_page_shift s" ?req "sim_world s"]
      pinv(2) q g(4) by auto
  let ?f = "\<lambda>p. do { (a, p', r, wl) \<leftarrow> access_ptw parent (pw_parentRTTs w) (sim_line_bits s) (sim_page_shift s)
      (pw_timing w) p ?req (sim_world s); Some ((a, r, wl), p') }"
  have "?f p = Some ((enc_page (page_map p q), req1, wl), p1)" using a(1) g(1) by simp
  from with_paging_cur [OF i p, of ?f, OF this] obtain s1 where s1: "with_paging i ?f s = Some ((enc_page (page_map p q), req1, wl), s1)"
      "cur_paging w s1 = Some p1" "cores s1 = cores s" "enable_shared_memory s1 = enable_shared_memory s"
      "sim_page_shift s1 = sim_page_shift s" "sim_line_bits s1 = sim_line_bits s" by auto
  let ?w = "w\<lparr>period := period w + 1, tlb_miss_exclude_shootdown := tlb_miss_exclude_shootdown w + (rq_cycle req1 - rq_cycle req)\<rparr>"
  let ?s = "s1\<lparr>sim_world := wl\<rparr>"
  have good1: "paging_good (Suc n) p1" using g(3) a by (simp add: paging_good_def has_pages_def)
  have inv1: "sys_inv (Suc n) ?w ?s" using inv g good1 s1 a(3) by (simp add: sys_inv_def)
  let ?wb = "\<lambda>req2 w2. w2\<lparr>tlb_miss_overhead := tlb_miss_overhead w2 + (rq_cycle req2 - rq_cycle req)\<rparr>"
  let ?sb = "\<lambda>addr2 req2 s3. if triggerPageShared req2 \<or> triggerPageDirty req2
      then update_tlb_flags_all addr2 (triggerPageShared req2) (triggerPageDirty req2) s3 else s3"
  have wa: "walker_access parent req w s =
      (if enc_page (page_map p q) = PAGE_FAULT_SIG then do_page_fault req1 ?w ?s
       else Some (enc_page (page_map p q), req1, ?w, ?s)) \<bind>
      (\<lambda>(addr2, req2, w2, s3). Some (addr2, req2, ?wb req2 w2, ?sb addr2 req2 s3))"
    using i s1(1) by (simp add: walker_access_def Let_def)
  have sh: "shrunk (cores s3) (cores (?sb v r s3))" for v r and s3 :: "'a sim"
    by (simp add: update_flags_all_shrunk shrunk_refl)
  show ?thesis
  proof (cases "page_map p q")
    case (Some x)
    then have "enc_page (page_map p q) = of_nat x" "of_nat x \<noteq> PAGE_FAULT_SIG"
      using g(3) by (auto simp: enc_page_def paging_good_def)
    moreover have "tlbs_good (tlb_good (2 * int n + 1) (sim_page_shift s) (sim_line_bits s) (page_map p1)) (cores s1)"
      using tlbs_good_mono [OF g(5)] tlb_good_weaken [of "2 * int (Suc n)" _ _ _ _ "2 * int n + 1"] s1(3) a(3) by simp
    moreover have "page_map p1 = (page_map p)(q \<mapsto> x)" using Some a(3) by auto
    ultimately show ?thesis using Some paging_good_weaken [OF good1]
      by (intro exI [of _ x] exI [of _ req1] exI [of _ "?wb req1 ?w"] exI [of _ "?sb (of_nat x) req1 ?s"] exI [of _ p1])
         (simp add: wa s1 a(4) update_flags_all_ok shrunk_refl update_flags_all_shrunk)
  next
    case None
    have e: "enc_page None = PAGE_FAULT_SIG" by (simp add: enc_page_def)
    have m: "page_map p1 (index_path LongMode_Normal (push_bit (line_shift ?w) (lineAddr req1))) = None"
      using None a(3,6) q by simp
    have c: "cur_paging ?w ?s = Some p1" using s1(2) by simp
    obtain x req2 w2 s2 p2 where
      f: "do_page_fault req1 ?w ?s = Some (of_nat x, req2, w2, s2)" "cur_paging w2 s2 = Some p2"
        "page_map p2 = (page_map p)(q \<mapsto> x)" "paging_good n p2"
        "tlbs_good (tlb_good (2 * int n + 1) (sim_page_shift s) (sim_line_bits s) (page_map p2)) (cores s2)" "shrunk (cores s) (cores s2)"
        "pw_paging w2 = pw_paging w" "pw_timing w2 = pw_timing w" "line_shift w2 = line_shift w"
        "enable_shared_memory s2 = enable_shared_memory s" "sim_page_shift s2 = sim_page_shift s"
        "sim_line_bits s2 = sim_line_bits s" "rq_cycle req2 = rq_cycle req"
      using do_page_fault_ok [OF inv1 c m] a(3,4,6) s1(3-6) q by (elim exE conjE) (simp del: One_nat_def add_Suc_right)
    show ?thesis using None
      by (intro exI [of _ x] exI [of _ req2] exI [of _ "?wb req2 w2"] exI [of _ "?sb (of_nat x) req2 s2"] exI [of _ p2])
         (simp add: wa e f f(1) [simplified] update_flags_all_ok f(5) [unfolded f(3)] sh shrunk_trans [OF f(6)])
  qed
qed


subsection \<open>Translation by the TLBs\<close>

lemma get_bit_value_page:
  assumes "12 \<le> a" and "a \<le> b" and "b - a < 30"
  shows "unat (get_bit_value (push_bit 12 (drop_bit 12 va)) a b) = unat (get_bit_value va a b)"
proof -
  have "drop_bit a (push_bit 12 (drop_bit 12 va)) = drop_bit a va"
    using assms(1) by (intro bit_word_eqI) (auto simp: bit_simps dest: bit_imp_le_length)
  then have "unat (drop_bit a (push_bit 12 (drop_bit 12 va))) = unat (drop_bit a va)" by (rule arg_cong)
  then show ?thesis using assms(2,3) by (simp add: get_bit_value_eq unat_drop_bit_eq drop_bit_nat_def)
qed

lemma index_path_page:
  "index_path LongMode_Normal (push_bit 12 (drop_bit 12 va)) = index_path LongMode_Normal va"
  by (simp add: index_path_def get_domains_def get_bit_value_page)

text \<open>The line of a virtual line in a physical page, as \<^verbatim>\<open>access\<close> puts it together.\<close>
definition phys_line :: "nat \<Rightarrow> nat \<Rightarrow> Address \<Rightarrow> Address \<Rightarrow> Address" where
  "phys_line sh lb ppn line = drop_bit lb (push_bit sh ppn OR (push_bit lb line AND (push_bit sh 1 - 1)))"

lemma tlb_good_counters [simp]:
  "tlb_good b sh lb pm (t\<lparr>tlb_access_time := x\<rparr>) = tlb_good b sh lb pm t"
  "tlb_good b sh lb pm (t\<lparr>tlb_hit_time := x\<rparr>) = tlb_good b sh lb pm t"
  "tlb_good b sh lb pm (t\<lparr>insert_num := x\<rparr>) = tlb_good b sh lb pm t"
  by (simp_all add: tlb_good_def lru_rep_def tlb_wf_def seq_of_def agrees_def tlb_view_def cong: option.map_cong)

lemma tlb_good_look_up:
  assumes good: "tlb_good (b + 1) sh lb pm t" and b: "0 \<le> b"
  shows "tlb_good b sh lb pm (snd (look_up v True t))"
proof -
  from assms obtain vs where rep: "lru_rep t vs" and seq: "lru_seq t + 1 < 2 ^ 31" "lru_seq t + (b + 1) < 2 ^ 31"
    by (auto simp: tlb_good_def)
  note wf = lru_repD(1) [OF rep] and f = look_up_frame [of t v True]
  have "lru_seq (snd (look_up v True t)) \<le> lru_seq t + 1" by (rule op_frame_seq [OF f lru_repD(4) [OF rep] seq(1)])
  then show ?thesis
    using look_up_lru [OF rep seq(1), of v] f seq(2) good
    by (auto simp: tlb_good_def op_frame_def agrees_def look_up_view [OF wf])
qed

lemma tlb_good_insert:
  assumes good: "tlb_good (b + 1) sh lb pm t" and b: "0 \<le> b" and v: "tlb_trie t v = None"
    and e: "v_page_no e = v" "p_page_no e = of_nat x" and x: "pm (index_path LongMode_Normal (push_bit sh v)) = Some x"
  shows "\<exists>i t'. insert_entry v e t = Some (i, t') \<and> tlb_good b sh lb pm t'"
proof -
  from assms obtain vs where rep: "lru_rep t vs" and seq: "lru_seq t + 1 < 2 ^ 31" "lru_seq t + (b + 1) < 2 ^ 31"
      "evict_policy t = LRU" and ag: "agrees sh pm t"
    by (auto simp: tlb_good_def)
  have "v \<notin> set vs" using v lru_repD(2) [OF rep] by auto
  from insert_lru [OF rep seq(1,3) this e(1)] obtain i t' where t': "insert_entry v e t = Some (Some i, t')"
    "lru_rep t' (lru_insert (tlb_entry_num t) v vs)"
    "tlb_view t' = (if length vs = tlb_entry_num t then (tlb_view t)(last vs := None) else tlb_view t)(v \<mapsto> entry_data e)"
    by blast
  note f = insert_frame [OF t'(1)]
  have "lru_seq t' \<le> lru_seq t + 1" by (rule op_frame_seq [OF f lru_repD(4) [OF rep] seq(1)])
  moreover have "agrees sh pm t'"
    using ag x e(2) by (auto simp: agrees_def t'(3) entry_data_def split: if_splits)
  ultimately show ?thesis using t' f seq(2) good by (auto simp: tlb_good_def op_frame_def)
qed

lemma shrunk_none: "shrunk (cores s) (cores s') \<Longrightarrow> get_tlb c i s' = None \<longleftrightarrow> get_tlb c i s = None"
  by (cases "get_tlb c i s"; cases "get_tlb c i s'")
     (auto simp: shrunk_def get_tlb_def list_all2_conv_all_nth option_rel_Some1 option_rel_Some2 split: if_splits)

lemma put_tlb_none: "get_tlb core ins s = Some t0 \<Longrightarrow> get_tlb c i (put_tlb core ins t s) = None \<longleftrightarrow> get_tlb c i s = None"
  by (auto simp: get_tlb_def put_tlb_def nth_list_update split: if_splits)

lemma put_tlb_frame [simp]:
  "cur_paging w (put_tlb core ins t s) = cur_paging w s" "sim_page_shift (put_tlb core ins t s) = sim_page_shift s"
  "sim_line_bits (put_tlb core ins t s) = sim_line_bits s"
  "enable_shared_memory (put_tlb core ins t s) = enable_shared_memory s"
  by (simp_all add: put_tlb_def)

lemma sys_invI:
  assumes "\<not> pw_timing w" and "\<not> enable_shared_memory s" and "line_shift w = sim_line_bits s" and "sim_page_shift s = 12"
    and "cur_paging w s = Some p" and "paging_good n p"
    and "tlbs_good (tlb_good (2 * int n) (sim_page_shift s) (sim_line_bits s) (page_map p)) (cores s)"
  shows "sys_inv n w s"
  using assms by (simp add: sys_inv_def)

lemma tlbs_good_weaken:
  "tlbs_good (tlb_good b sh lb pm) cs \<Longrightarrow> b' \<le> b \<Longrightarrow> tlbs_good (tlb_good b' sh lb pm) cs"
  by (erule tlbs_good_mono) (erule (1) tlb_good_weaken)

text \<open>The two ways through \<^verbatim>\<open>access\<close>.\<close>
lemma tlb_access_hit:
  assumes "get_tlb core ins s = Some t0" and "t = t0\<lparr>tlb_access_time := tlb_access_time t0 + 1\<rparr>"
    and "look_up (drop_bit (tlb_page_shift t) (push_bit (tlb_line_shift t) (lineAddr req))) True t = (Some i, t1)"
  shows "\<exists>req'. tlb_access parent core ins req w s =
    Some (phys_line (tlb_page_shift t) (tlb_line_shift t) (p_page_no (tlb t1 ! i)) (lineAddr req), req', w,
      put_tlb core ins (t1\<lparr>tlb_hit_time := tlb_hit_time t1 + 1\<rparr>) s) \<and>
    (unat (rq_cycle req) < 2 ^ 62 \<longrightarrow> later (rq_cycle req) (2 ^ 33) (rq_cycle req'))"
  using assms later_add32_twice [of "rq_cycle req"] later_add32' [of "rq_cycle req"]
  by (simp add: tlb_access_def phys_line_def Let_def)

definition new_entry :: "Address \<Rightarrow> Address \<Rightarrow> MemReq \<Rightarrow> TlbEntry" where
  "new_entry vpn ppn r = (let e0 = set_valid (TlbEntry vpn ppn); e1 = if pageShared r then set_page_shared e0 else e0
     in if pageDirty r then set_page_dirty e1 else e1)"

lemma new_entry_pages [simp]: "v_page_no (new_entry v p r) = v" "p_page_no (new_entry v p r) = p"
  by (simp_all add: new_entry_def Let_def TlbEntry_def set_page_dirty_def set_page_shared_def)

lemma tlb_access_miss:
  assumes "get_tlb core ins s = Some t0" and "t = t0\<lparr>tlb_access_time := tlb_access_time t0 + 1\<rparr>"
    and "vpn = drop_bit (tlb_page_shift t) (push_bit (tlb_line_shift t) (lineAddr req))"
    and "look_up vpn True t = (None, t1)"
    and "walker_access parent (req\<lparr>srcId := tlb_srcId t1, rq_flags := tlb_reqFlags t1\<rparr>) w (put_tlb core ins t1 s) =
      Some (ppn, r, w1, s1)"
    and "get_tlb core ins s1 = Some t2"
    and "insert_entry vpn (new_entry vpn ppn r) (t2\<lparr>insert_num := insert_num t2 + 1\<rparr>) = Some (j, t3)"
    and "rq_cycle r = rq_cycle req"
  shows "\<exists>req'. tlb_access parent core ins req w s =
    Some (phys_line (tlb_page_shift t) (tlb_line_shift t) ppn (lineAddr req), req', w1, put_tlb core ins t3 s1) \<and>
    (unat (rq_cycle req) < 2 ^ 62 \<longrightarrow> later (rq_cycle req) (2 ^ 33) (rq_cycle req'))"
  using assms later_add32' [of "rq_cycle req"] by (simp add: tlb_access_def phys_line_def new_entry_def Let_def)

text \<open>One access through a TLB, a hit or a miss, returns the line of the page the page tables hold.\<close>
lemma tlb_access_ok:
  assumes inv: "sys_inv (Suc n) w s" and p: "cur_paging w s = Some p" and t0: "get_tlb core ins s = Some t0"
    and q: "q = index_path LongMode_Normal (push_bit (sim_line_bits s) (lineAddr req))"
  shows "\<exists>x req' w' s' p'. tlb_access parent core ins req w s =
       Some (phys_line 12 (sim_line_bits s) (of_nat x) (lineAddr req), req', w', s') \<and>
     sys_inv n w' s' \<and> cur_paging w' s' = Some p' \<and> page_map p' = (page_map p)(q \<mapsto> x) \<and>
     (page_map p q \<noteq> None \<longrightarrow> page_map p q = Some x) \<and> sim_line_bits s' = sim_line_bits s \<and>
     (\<forall>c i. get_tlb c i s' = None \<longleftrightarrow> get_tlb c i s = None) \<and>
     (unat (rq_cycle req) < 2 ^ 62 \<longrightarrow> later (rq_cycle req) (2 ^ 33) (rq_cycle req'))"
proof -
  from inv p have g: "\<not> pw_timing w" "\<not> enable_shared_memory s" "paging_good (Suc n) p" "line_shift w = sim_line_bits s"
      "sim_page_shift s = 12" "tlbs_good (tlb_good (2 * int n + 1 + 1) 12 (sim_line_bits s) (page_map p)) (cores s)"
    by (auto simp: sys_inv_def)
  let ?vpn = "drop_bit 12 (push_bit (sim_line_bits s) (lineAddr req))"
  have ip: "index_path LongMode_Normal (push_bit 12 ?vpn) = q" unfolding q by (rule index_path_page)
  define t where "t = t0\<lparr>tlb_access_time := tlb_access_time t0 + 1\<rparr>"
  have good: "tlb_good (2 * int n + 1 + 1) 12 (sim_line_bits s) (page_map p) t"
    using tlbs_good_get [OF g(6) t0] by (simp add: t_def)
  then have sh: "tlb_page_shift t = 12" "tlb_line_shift t = sim_line_bits s" and wf: "tlb_wf t"
    and ag: "agrees 12 (page_map p) t" by (auto simp: tlb_good_def dest: lru_repD(1))
  show ?thesis
  proof (cases "tlb_trie t ?vpn")
    case (Some i)
    let ?t1 = "(touch_lru i t)\<lparr>tlb_hit_time := tlb_hit_time (touch_lru i t) + 1\<rparr>"
    from look_up_hit [OF wf Some] have lu: "look_up ?vpn True t = (Some i, touch_lru i t)" .
    have good1: "tlb_good (2 * int n) 12 (sim_line_bits s) (page_map p) ?t1"
      using tlb_good_weaken [OF tlb_good_look_up [OF good, of ?vpn], of "2 * int n"] lu by simp
    obtain x where x: "page_map p q = Some x" "p_page_no (tlb (touch_lru i t) ! i) = of_nat x"
      using ag [unfolded agrees_def, rule_format, of ?vpn "entry_data (tlb t ! i)"] Some ip tlb_wfD [OF wf Some]
      by (auto simp: tlb_view_def entry_data_def tlb_touch_nth)
    have "tlbs_good (tlb_good (2 * int n) 12 (sim_line_bits s) (page_map p)) (cores (put_tlb core ins ?t1 s))"
      by (rule tlbs_good_put [OF tlbs_good_weaken [OF g(6)] good1 t0]) simp
    then have "sys_inv n w (put_tlb core ins ?t1 s)"
      using g p paging_good_weaken [OF g(3)] by (intro sys_invI) simp_all
    moreover obtain req' where "tlb_access parent core ins req w s = Some (phys_line 12 (sim_line_bits s)
        (of_nat x) (lineAddr req), req', w, put_tlb core ins ?t1 s)"
        "unat (rq_cycle req) < 2 ^ 62 \<longrightarrow> later (rq_cycle req) (2 ^ 33) (rq_cycle req')"
      using tlb_access_hit [OF t0 t_def, of req i "touch_lru i t" parent w] lu x(2) sh by auto
    ultimately show ?thesis using x(1) p put_tlb_none [OF t0] by (simp add: fun_upd_idem)
  next
    case None
    then have lu: "look_up ?vpn True t = (None, t)" by (simp add: look_up_def)
    let ?s = "put_tlb core ins t s" and ?req = "req\<lparr>srcId := tlb_srcId t, rq_flags := tlb_reqFlags t\<rparr>"
    have inv1: "sys_inv (Suc n) w ?s"
      by (rule sys_invI [of _ _ p]) (use g p tlbs_good_put [OF g(6) good t0] in simp_all)
    obtain x req1 w1 s1 p1 where
      a: "walker_access parent ?req w ?s = Some (of_nat x, req1, w1, s1)" "cur_paging w1 s1 = Some p1"
        "page_map p1 = (page_map p)(q \<mapsto> x)" "page_map p q \<noteq> None \<longrightarrow> page_map p q = Some x" "paging_good n p1"
        "tlbs_good (tlb_good (2 * int n + 1) 12 (sim_line_bits s) (page_map p1)) (cores s1)"
        "shrunk (cores ?s) (cores s1)" "pw_timing w1 = pw_timing w" "line_shift w1 = line_shift w"
        "enable_shared_memory s1 = enable_shared_memory s" "sim_page_shift s1 = 12" "sim_line_bits s1 = sim_line_bits s"
        "rq_cycle req1 = rq_cycle req"
      using walker_access_ok [OF inv1, of p q ?req parent] p q g(4,5) by auto
    obtain t2 where t2: "get_tlb core ins s1 = Some t2" "tlb_trie t2 ?vpn = None"
      using shrunk_get [OF a(7) get_put_tlb [OF t0]] None by blast
    obtain j t3 where t3: "insert_entry ?vpn (new_entry ?vpn (of_nat x) req1) (t2\<lparr>insert_num := insert_num t2 + 1\<rparr>) = Some (j, t3)"
        "tlb_good (2 * int n) 12 (sim_line_bits s) (page_map p1) t3"
      using tlb_good_insert [of "2 * int n" 12 "sim_line_bits s" "page_map p1" "t2\<lparr>insert_num := insert_num t2 + 1\<rparr>" ?vpn
          "new_entry ?vpn (of_nat x) req1" x]
        tlbs_good_get [OF a(6) t2(1)] t2(2) ip a(3) by auto
    have "tlbs_good (tlb_good (2 * int n) 12 (sim_line_bits s) (page_map p1)) (cores (put_tlb core ins t3 s1))"
      by (rule tlbs_good_put [OF tlbs_good_weaken [OF a(6)] t3(2) t2(1)]) simp
    then have "sys_inv n w1 (put_tlb core ins t3 s1)" using g a by (intro sys_invI [of _ _ p1]) simp_all
    moreover have "get_tlb c i (put_tlb core ins t3 s1) = None \<longleftrightarrow> get_tlb c i s = None" for c i
      using put_tlb_none [OF t2(1)] shrunk_none [OF a(7)] put_tlb_none [OF t0] by metis
    moreover obtain req' where "tlb_access parent core ins req w s = Some (phys_line 12 (sim_line_bits s)
        (of_nat x) (lineAddr req), req', w1, put_tlb core ins t3 s1)"
        "unat (rq_cycle req) < 2 ^ 62 \<longrightarrow> later (rq_cycle req) (2 ^ 33) (rq_cycle req')"
      using tlb_access_miss [OF t0 t_def _ lu a(1) t2(1) t3(1)] a(13) sh by auto
    ultimately show ?thesis using a(2-4,12) by auto
  qed
qed

subsection \<open>Runs\<close>

text \<open>A run: accesses by core, kind of TLB and request, in order; it yields the physical lines.\<close>
fun tlb_run ::
  "'m mem_parent \<Rightarrow> (nat \<times> bool \<times> MemReq) list \<Rightarrow> walker \<Rightarrow> 'm sim \<Rightarrow> (Address list \<times> walker \<times> 'm sim) option" where
  "tlb_run parent [] w s = Some ([], w, s)"
| "tlb_run parent ((core, ins, req) # as) w s = do {
     (l, _, w', s') \<leftarrow> tlb_access parent core ins req w s;
     (ls, w'', s'') \<leftarrow> tlb_run parent as w' s';
     Some (l # ls, w'', s'')
   }"

abbreviation req_path :: "nat \<Rightarrow> MemReq \<Rightarrow> nat list" where
  "req_path lb req \<equiv> index_path LongMode_Normal (push_bit lb (lineAddr req))"

abbreviation translated :: "nat \<Rightarrow> (nat list \<Rightarrow> nat option) \<Rightarrow> nat \<times> bool \<times> MemReq \<Rightarrow> Address \<Rightarrow> bool" where
  "translated lb pm a l \<equiv> (\<exists>x. pm (req_path lb (snd (snd a))) = Some x \<and>
     l = phys_line 12 lb (of_nat x) (lineAddr (snd (snd a))))"

lemma translated_mono: "translated lb pm a l \<Longrightarrow> pm \<subseteq>\<^sub>m pm' \<Longrightarrow> translated lb pm' a l"
  by (auto simp: map_le_def dom_def)


text \<open>An allocator with a block of sixteen pages, and two cores.\<close>
definition hex_zone :: Zone where
  "hex_zone = sample_zone\<lparr>free_area := (\<lambda>_. \<lparr>block_list = FlexiList, nr_free = 0\<rparr>)
     (4 := \<lparr>block_list = \<lparr>fl_head = Some 16, fl_tail = Some 16, fl_size = 1\<rparr>, nr_free = 1\<rparr>)\<rparr>"

definition hex_allocator :: BuddyAllocator where
  "hex_allocator = quad_allocator\<lparr>mem_node := Some (quad_node\<lparr>node_mem_map := [16 \<mapsto> (Page sample_page 16)\<lparr>pg_zone := 2\<rparr>],
     node_zones := [None, None, Some hex_zone, None]\<rparr>)\<rparr>"

lemma hex_pages: "pages_left 9 hex_allocator"
  by code_simp


definition hex_start :: paging where
  "hex_start = quad_start\<lparr>buddy_allocator := Some hex_allocator\<rparr>"

lemma hex_start_simps: "pt_heap hex_start = Map.empty" "has_pages (Suc 8) hex_start" "mem_access_time hex_start = 100"
  using hex_pages by (simp_all add: hex_start_def quad_start_def has_pages_def numeral_eq_Suc del: pages_left.simps)

definition two_cores :: "paging \<Rightarrow> CommonTlb \<Rightarrow> unit sim" where
  "two_cores p t = \<lparr>cores = [\<lparr>ins_tlb = Some t, data_tlb = Some t\<rparr>, \<lparr>ins_tlb = Some t, data_tlb = Some t\<rparr>],
     paging_array = [Some p], sim_buddy = buddy_allocator p, shared_region = [], enable_shared_memory = False,
     sim_page_shift = 12, sim_line_bits = 6, sim_world = ((), \<lparr>ev_tr = None, ev_edges = []\<rparr>)\<rparr>"

lemma two_cores_start:
  assumes t: "CommonTlb 0 e src fl tm n h r 6 12 LRU = Some t" and p: "paging_inv p" "pg_mode p = LongMode_Normal"
    "page_map p = Map.empty" "has_pages 8 p" "mem_access_time p = 100"
  shows "sys_inv 2 (SetPaging 0 (Some 0) (PageTableWalker 6 False)) (two_cores p t)"
    "cur_paging (SetPaging 0 (Some 0) (PageTableWalker 6 False)) (two_cores p t) = Some p"
proof -
  note c = CommonTlb_wf [OF t]
  have "dom (tlb_trie t) = {}" "tlb_page_shift t = 12" "tlb_line_shift t = 6" using t by (auto simp: CommonTlb_def)
  then have "tlb_good 4 12 6 (page_map p) t" using c by (auto simp: tlb_good_def lru_rep_def agrees_def intro: exI [of _ "[]"])
  moreover show cur: "cur_paging (SetPaging 0 (Some 0) (PageTableWalker 6 False)) (two_cores p t) = Some p"
    by (simp add: cur_paging_def SetPaging_def two_cores_def)
  ultimately show "sys_inv 2 (SetPaging 0 (Some 0) (PageTableWalker 6 False)) (two_cores p t)"
    using p by (intro sys_invI [OF _ _ _ _ cur])
      (simp_all add: SetPaging_def PageTableWalker_def two_cores_def tlbs_good_def paging_good_def)
qed


end
