(* ===== verification/Repl_Policy.thy ===== *)
theory Repl_Policy
  imports Memory_Types
begin

text \<open>
  The replacement policies of the cache arrays (\<^verbatim>\<open>src/src/repl_policies.h\<close>).  The coherence
  controller they ask about lines is given by two functions, \<open>valid\<close> and \<open>sharers\<close>.  The tree
  policy inherits the ranking of the plain one and overrides a method that nothing calls; the random
  policy depends on the generator.  Neither is modelled.
\<close>

subsection \<open>LRU\<close>

record LRUReplPolicy =
  sharersAware :: bool
  lru_timestamp :: "64 word"
  lru_times :: "64 word list"

definition LRUReplPolicy :: "bool \<Rightarrow> nat \<Rightarrow> LRUReplPolicy" where
  "LRUReplPolicy aware n = \<lparr>sharersAware = aware, lru_timestamp = 1, lru_times = replicate n 0\<rparr>"

definition lru_update :: "nat \<Rightarrow> LRUReplPolicy \<Rightarrow> LRUReplPolicy" where
  "lru_update i p = p\<lparr>lru_times := (lru_times p)[i := lru_timestamp p], lru_timestamp := lru_timestamp p + 1\<rparr>"

definition lru_replaced :: "nat \<Rightarrow> LRUReplPolicy \<Rightarrow> LRUReplPolicy" where
  "lru_replaced i p = p\<lparr>lru_times := (lru_times p)[i := 0]\<rparr>"

definition lru_score :: "(nat \<Rightarrow> bool) \<Rightarrow> (nat \<Rightarrow> 32 word) \<Rightarrow> LRUReplPolicy \<Rightarrow> nat \<Rightarrow> 64 word" where
  "lru_score valid sharers p i =
     (if sharersAware p then ucast (sharers i) else 0) * lru_timestamp p + lru_times p ! i * of_bool (valid i)"

text \<open>The scan keeps the score in 32 bits.\<close>
definition rank_step :: "(nat \<Rightarrow> 64 word) \<Rightarrow> nat \<Rightarrow> nat \<times> 64 word \<Rightarrow> nat \<times> 64 word" where
  "rank_step score ci best =
     (let s = ucast (ucast (score ci) :: 32 word) :: 64 word
      in (if s < snd best then ci else fst best, min s (snd best)))"

definition lru_rank :: "(nat \<Rightarrow> bool) \<Rightarrow> (nat \<Rightarrow> 32 word) \<Rightarrow> nat list \<Rightarrow> LRUReplPolicy \<Rightarrow> nat" where
  "lru_rank valid sharers cands p = fst (fold (rank_step (lru_score valid sharers p)) cands (4294967295, - 1))"

subsection \<open>NRU\<close>

record NRUReplPolicy =
  nru_array :: "32 word list"
  nru_cands :: "nat list"
  youngLines :: "32 word"
  candVal :: "32 word"
  candIdx :: nat

definition NRUReplPolicy :: "nat \<Rightarrow> nat \<Rightarrow> NRUReplPolicy" where
  "NRUReplPolicy n nc = \<lparr>nru_array = replicate n 0, nru_cands = replicate nc 0, youngLines = 0,
     candVal = push_bit 20 1, candIdx = 0\<rparr>"

definition nru_update :: "nat \<Rightarrow> NRUReplPolicy \<Rightarrow> NRUReplPolicy" where
  "nru_update i p =
     (let y = youngLines p + (1 - drop_bit 1 (nru_array p ! i));
          a = (nru_array p)[i := nru_array p ! i OR 2]
      in if y \<ge> of_nat (length a) div 2 then p\<lparr>nru_array := map (drop_bit 1) a, youngLines := 0\<rparr>
         else p\<lparr>nru_array := a, youngLines := y\<rparr>)"

definition nru_recordCandidate :: "nat \<Rightarrow> NRUReplPolicy \<Rightarrow> NRUReplPolicy option" where
  "nru_recordCandidate i p =
     (let iVal = nru_array p ! i in
      if iVal < candVal p then do {
        _ \<leftarrow> assert_that (0 < length (nru_cands p));
        Some (p\<lparr>candVal := iVal, nru_cands := (nru_cands p)[0 := i], candIdx := 1\<rparr>)
      }
      else if iVal = candVal p then do {
        _ \<leftarrow> assert_that (candIdx p < length (nru_cands p));
        Some (p\<lparr>nru_cands := (nru_cands p)[candIdx p := i], candIdx := candIdx p + 1\<rparr>)
      }
      else Some p)"

definition nru_getBestCandidate :: "NRUReplPolicy \<Rightarrow> nat option" where
  "nru_getBestCandidate p = do {
     _ \<leftarrow> assert_that (candIdx p > 0);
     Some (nru_cands p ! (unat (youngLines p) mod candIdx p))
   }"

definition nru_rank :: "nat list \<Rightarrow> NRUReplPolicy \<Rightarrow> (nat \<times> NRUReplPolicy) option" where
  "nru_rank cands p = do {
     p' \<leftarrow> fold_opt nru_recordCandidate cands p;
     best \<leftarrow> nru_getBestCandidate p';
     Some (best, p')
   }"

definition nru_replaced :: "nat \<Rightarrow> NRUReplPolicy \<Rightarrow> NRUReplPolicy" where
  "nru_replaced i p = p\<lparr>candVal := push_bit 20 1, candIdx := 0, nru_array := (nru_array p)[i := 0]\<rparr>"

subsection \<open>LFU\<close>

record LFUInfo =
  lfu_ts :: "64 word"
  lfu_acc :: "64 word"

record Rank =
  lfuInfo :: LFUInfo
  rk_sharers :: "32 word"
  rk_valid :: bool

record LFUReplPolicy =
  lfu_timestamp :: "64 word"
  bestCandidate :: "nat option"
  lfu_array :: "LFUInfo list"
  bestRank :: Rank

definition rank_reset :: Rank where
  "rank_reset = \<lparr>lfuInfo = \<lparr>lfu_ts = 0, lfu_acc = 0\<rparr>, rk_sharers = 0, rk_valid = False\<rparr>"

definition rank_lessThan :: "Rank \<Rightarrow> Rank \<Rightarrow> 64 word \<Rightarrow> bool" where
  "rank_lessThan r other curTs =
     (if \<not> rk_valid r \<and> rk_valid other then True
      else if rk_valid r = rk_valid other then
        (if rk_sharers r = 0 \<and> rk_sharers other > 0 then True
         else if rk_sharers r > 0 \<and> rk_sharers other = 0 then False
         else if lfu_acc (lfuInfo r) = 0 then True
         else if lfu_acc (lfuInfo other) = 0 then False
         else (curTs - lfu_ts (lfuInfo r)) div lfu_acc (lfuInfo r) >
              (curTs - lfu_ts (lfuInfo other)) div lfu_acc (lfuInfo other))
      else False)"

definition LFUReplPolicy :: "nat \<Rightarrow> LFUReplPolicy" where
  "LFUReplPolicy n = \<lparr>lfu_timestamp = 1, bestCandidate = None,
     lfu_array = replicate n \<lparr>lfu_ts = 0, lfu_acc = 0\<rparr>, bestRank = rank_reset\<rparr>"

text \<open>The time stamp of a line is the mean of the times of its accesses.\<close>
definition lfu_update :: "nat \<Rightarrow> LFUReplPolicy \<Rightarrow> LFUReplPolicy option" where
  "lfu_update i p =
     (let e = lfu_array p ! i in do {
        _ \<leftarrow> assert_that (lfu_acc e + 1 \<noteq> 0);
        let ts = (lfu_acc e * lfu_ts e + lfu_timestamp p) div (lfu_acc e + 1);
        Some (p\<lparr>lfu_array := (lfu_array p)[i := \<lparr>lfu_ts = ts, lfu_acc = lfu_acc e + 1\<rparr>],
                lfu_timestamp := lfu_timestamp p + 1000\<rparr>)
      })"

definition lfu_recordCandidate ::
  "(nat \<Rightarrow> bool) \<Rightarrow> (nat \<Rightarrow> 32 word) \<Rightarrow> nat \<Rightarrow> LFUReplPolicy \<Rightarrow> LFUReplPolicy" where
  "lfu_recordCandidate valid sharers i p =
     (let candRank = \<lparr>lfuInfo = lfu_array p ! i, rk_sharers = sharers i, rk_valid = valid i\<rparr>
      in if bestCandidate p = None \<or> rank_lessThan candRank (bestRank p) (lfu_timestamp p)
         then p\<lparr>bestRank := candRank, bestCandidate := Some i\<rparr> else p)"

definition lfu_rank ::
  "(nat \<Rightarrow> bool) \<Rightarrow> (nat \<Rightarrow> 32 word) \<Rightarrow> nat list \<Rightarrow> LFUReplPolicy \<Rightarrow> (nat \<times> LFUReplPolicy) option" where
  "lfu_rank valid sharers cands p =
     (let p' = fold (lfu_recordCandidate valid sharers) cands p
      in map_option (\<lambda>b. (b, p')) (bestCandidate p'))"

definition lfu_replaced :: "nat \<Rightarrow> LFUReplPolicy \<Rightarrow> LFUReplPolicy" where
  "lfu_replaced i p = p\<lparr>bestCandidate := None, bestRank := rank_reset,
     lfu_array := (lfu_array p)[i := (lfu_array p ! i)\<lparr>lfu_acc := 0\<rparr>]\<rparr>"

subsection \<open>A policy of any kind\<close>

datatype ReplPolicy = LRUPolicy LRUReplPolicy | NRUPolicy NRUReplPolicy | LFUPolicy LFUReplPolicy

primrec rp_update :: "nat \<Rightarrow> ReplPolicy \<Rightarrow> ReplPolicy option" where
  "rp_update i (LRUPolicy p) = Some (LRUPolicy (lru_update i p))"
| "rp_update i (NRUPolicy p) = Some (NRUPolicy (nru_update i p))"
| "rp_update i (LFUPolicy p) = map_option LFUPolicy (lfu_update i p)"

primrec rp_replaced :: "nat \<Rightarrow> ReplPolicy \<Rightarrow> ReplPolicy" where
  "rp_replaced i (LRUPolicy p) = LRUPolicy (lru_replaced i p)"
| "rp_replaced i (NRUPolicy p) = NRUPolicy (nru_replaced i p)"
| "rp_replaced i (LFUPolicy p) = LFUPolicy (lfu_replaced i p)"

primrec rp_rank ::
  "(nat \<Rightarrow> bool) \<Rightarrow> (nat \<Rightarrow> 32 word) \<Rightarrow> nat list \<Rightarrow> ReplPolicy \<Rightarrow> (nat \<times> ReplPolicy) option" where
  "rp_rank valid sharers cands (LRUPolicy p) = Some (lru_rank valid sharers cands p, LRUPolicy p)"
| "rp_rank valid sharers cands (NRUPolicy p) = map_option (\<lambda>(b, p'). (b, NRUPolicy p')) (nru_rank cands p)"
| "rp_rank valid sharers cands (LFUPolicy p) =
     map_option (\<lambda>(b, p'). (b, LFUPolicy p')) (lfu_rank valid sharers cands p)"

subsection \<open>The LRU ranking\<close>

lemma trunc_small: "unat (x :: 64 word) < 2 ^ 32 \<Longrightarrow> ucast (ucast x :: 32 word) = x"
  by (simp add: word_unat_eq_iff unsigned_ucast_eq unsigned_take_bit_eq take_bit_nat_eq_self)

lemma trunc_not_max: "(ucast (x :: 32 word) :: 64 word) < - 1"
proof -
  have "unat (ucast x :: 64 word) < 2 ^ 32" using unsigned_less [of x, where 'a = nat] by (simp add: unsigned_ucast_eq take_bit_nat_eq_self)
  then show ?thesis by (simp add: word_less_nat_alt unsigned_minus_1_eq_mask mask_eq_exp_minus_1)
qed

text \<open>The scan returns the first candidate with the least truncated score.\<close>
lemma rank_fold:
  assumes "\<forall>c \<in> set cands. unat (score c) < 2 ^ 32" and "cands \<noteq> []"
  shows "fst (fold (rank_step score) cands (b, - 1)) \<in> set cands \<and>
    (\<forall>c \<in> set cands. score (fst (fold (rank_step score) cands (b, - 1))) \<le> score c)"
proof -
  have gen: "fst r \<in> set cands \<and> snd r = score (fst r) \<and> (\<forall>c \<in> set cands. score (fst r) \<le> score c)"
    if "r = fold (rank_step score) cands (b, - 1)" "\<forall>c \<in> set cands. unat (score c) < 2 ^ 32" "cands \<noteq> []" for r cands
    using that
  proof (induction cands arbitrary: r rule: rev_induct)
    case (snoc c cs)
    have c: "ucast (ucast (score c) :: 32 word) = score c" using snoc.prems by (intro trunc_small) simp
    show ?case
    proof (cases "cs = []")
      case True
      then show ?thesis using snoc.prems(1) c trunc_not_max [of "ucast (score c)"]
        by (simp add: rank_step_def Let_def min_def)
    next
      case False
      then show ?thesis using snoc.IH [OF refl] snoc.prems c by (auto simp: rank_step_def Let_def min_def)
    qed
  qed simp
  show ?thesis using gen [OF refl assms] by simp
qed

text \<open>The age of a line after a sequence of uses: the position of its last use, zero when there is none.\<close>
definition last_use :: "nat list \<Rightarrow> nat \<Rightarrow> nat" where
  "last_use uses i = length (dropWhile (\<lambda>x. x \<noteq> i) (rev uses))"

lemma last_use_snoc: "last_use (uses @ [j]) i = (if i = j then Suc (length uses) else last_use uses i)"
  by (simp add: last_use_def)

lemma last_use_le: "last_use uses i \<le> length uses"
  unfolding last_use_def using length_dropWhile_le [of "\<lambda>x. x \<noteq> i" "rev uses"] by simp

lemma lru_updates:
  "i < n \<Longrightarrow> lru_times (fold lru_update uses (LRUReplPolicy aware n)) ! i = of_nat (last_use uses i) \<and>
     length (lru_times (fold lru_update uses (LRUReplPolicy aware n))) = n \<and>
     lru_timestamp (fold lru_update uses (LRUReplPolicy aware n)) = of_nat (Suc (length uses)) \<and>
     sharersAware (fold lru_update uses (LRUReplPolicy aware n)) = aware"
proof (induction uses rule: rev_induct)
  case (snoc j uses)
  then show ?case by (auto simp: lru_update_def last_use_snoc nth_list_update)
qed (simp add: LRUReplPolicy_def last_use_def)

subsection \<open>Properties\<close>



text \<open>
  C40. The scan keeps scores in 32 bits, time stamps have 64: once the stamps pass \<open>2 ^ 32\<close>, the ranking
  prefers to evict a line whose stamp has just wrapped over any line with an older stamp.
\<close>
theorem lru_rank_truncates:
  assumes "0 < t" and "t < 2 ^ 32"
  shows "lru_rank (\<lambda>_. True) sharers [0, 1]
    \<lparr>sharersAware = False, lru_timestamp = 2 ^ 32 + 1, lru_times = [t, 2 ^ 32]\<rparr> = 1"
proof -
  have "unat t < 2 ^ 32" using assms(2) by (simp add: word_less_nat_alt)
  then have t: "ucast (ucast t :: 32 word) = t" by (rule trunc_small)
  have "t < - 1" using trunc_not_max [of "ucast t"] t by simp
  then show ?thesis using assms(1) t by (simp add: lru_rank_def rank_step_def lru_score_def Let_def min_def)
qed

theorem lru_rank_truncates_witness:
  "lru_rank (\<lambda>_. True) (\<lambda>_. 0) [0, 1]
    \<lparr>sharersAware = False, lru_timestamp = 2 ^ 32 + 1, lru_times = [7, 2 ^ 32]\<rparr> = 1"
  using lru_rank_truncates [of 7 "\<lambda>_. 0"] by simp

end
