(* ===== verification/Hash_Family.thy ===== *)
theory Hash_Family
  imports Prelude
begin

text \<open>
  The hash functions that index the cache arrays (\<^verbatim>\<open>src/src/hash.cpp\<close>, \<^verbatim>\<open>src/src/hash.h\<close>).
  The random matrix of an H3 family is built from the draws of the generator, a parameter.
\<close>

record H3HashFamily =
  numFuncs :: nat
  resShift :: nat
  hMatrix :: "64 word list"

text \<open>One matrix word: 64 draws, each adding a one when it is even.\<close>
definition h3_word :: "(nat \<Rightarrow> 32 word) \<Rightarrow> nat \<Rightarrow> 64 word" where
  "h3_word rnd k = fold (\<lambda>kk val. let v = push_bit 1 val in if rnd (64 * k + kk) mod 2 = 0 then v + 1 else v) [0..<64] 0"

definition H3HashFamily :: "(nat \<Rightarrow> 32 word) \<Rightarrow> nat \<Rightarrow> nat \<Rightarrow> H3HashFamily option" where
  "H3HashFamily rnd numFunctions outputBits = do {
     sh \<leftarrow> (if outputBits \<le> 8 then Some 3
           else if outputBits \<le> 16 then Some 2
           else if outputBits \<le> 32 then Some 1
           else if outputBits \<le> 64 then Some 0
           else None);
     let words = 64 div 2 ^ sh;
     Some \<lparr>numFuncs = numFunctions, resShift = sh, hMatrix = map (h3_word rnd) [0..<words * numFunctions]\<rparr>
   }"

definition rotl64 :: "nat \<Rightarrow> 64 word \<Rightarrow> 64 word" where
  "rotl64 k x = push_bit k x OR drop_bit (64 - k) x"

text \<open>One pass of the unrolled loop over eight matrix words.\<close>
definition h3_round :: "64 word list \<Rightarrow> nat \<Rightarrow> 64 word \<Rightarrow> 64 word \<Rightarrow> 64 word" where
  "h3_round m base val res =
     rotl64 8 (res XOR (val AND m ! base)
       XOR rotl64 1 (val AND m ! (base + 1)) XOR rotl64 2 (val AND m ! (base + 2)) XOR rotl64 3 (val AND m ! (base + 3))
       XOR rotl64 4 (val AND m ! (base + 4)) XOR rotl64 5 (val AND m ! (base + 5))
       XOR rotl64 6 (val AND m ! (base + 6)) XOR rotl64 7 (val AND m ! (base + 7)))"

definition h3_fold_bits :: "nat \<Rightarrow> 64 word \<Rightarrow> 64 word" where
  "h3_fold_bits sh res =
     (let r1 = (if 1 \<le> sh then drop_bit 32 res XOR res else res);
          r2 = (if 2 \<le> sh then drop_bit 16 r1 XOR r1 else r1)
      in if 3 \<le> sh then drop_bit 8 r2 XOR r2 else r2)"

definition h3_hash :: "H3HashFamily \<Rightarrow> nat \<Rightarrow> 64 word \<Rightarrow> 64 word option" where
  "h3_hash h fid val = do {
     _ \<leftarrow> assert_that (fid < numFuncs h);
     let rounds = 8 div 2 ^ resShift h;
     let res = fold (\<lambda>r. h3_round (hMatrix h) (fid * 2 ^ (6 - resShift h) + 8 * r) val) [0..<rounds] 0;
     Some (h3_fold_bits (resShift h) res)
   }"

definition id_hash :: "nat \<Rightarrow> 64 word \<Rightarrow> 64 word" where
  "id_hash fid val = val"

text \<open>The loop the comment in the source gives for reference, for 64 bits of output.\<close>
definition h3_reference :: "64 word list \<Rightarrow> nat \<Rightarrow> 64 word \<Rightarrow> 64 word" where
  "h3_reference m fid val = fold (\<lambda>x res. rotl64 1 (res XOR (val AND m ! (fid * 64 + x)))) [0..<64] 0"

subsection \<open>Linearity\<close>

lemma rotl64_xor: "k \<le> 64 \<Longrightarrow> rotl64 k (x XOR y) = rotl64 k x XOR rotl64 k y"
  unfolding rotl64_def by (rule bit_word_eqI) (auto simp: bit_simps dest: bit_imp_le_length)

lemma h3_round_xor: "h3_round m base (a XOR b) (r XOR s) = h3_round m base a r XOR h3_round m base b s"
  by (simp add: h3_round_def bit.conj_xor_distrib2 rotl64_xor ac_simps)

lemma h3_rounds_xor:
  "fold (\<lambda>k. h3_round m (f k) (a XOR b)) ks (r XOR s) =
   fold (\<lambda>k. h3_round m (f k) a) ks r XOR fold (\<lambda>k. h3_round m (f k) b) ks s"
  by (induction ks arbitrary: r s) (simp_all add: h3_round_xor)

lemma h3_fold_bits_xor: "h3_fold_bits sh (x XOR y) = h3_fold_bits sh x XOR h3_fold_bits sh y"
  by (simp add: h3_fold_bits_def Let_def drop_bit_xor ac_simps)

subsection \<open>Properties\<close>

text \<open>
  C37. An H3 hash is linear over exclusive or: every function of the family is total, maps the exclusive or
  of two addresses to the exclusive or of their hashes, and maps zero to zero, whatever the random matrix is.
\<close>
theorem h3_hash_linear:
  assumes "H3HashFamily rnd n bits = Some h" and "fid < n"
  shows "\<exists>f. h3_hash h fid = (\<lambda>v. Some (f v)) \<and> (\<forall>a b. f (a XOR b) = f a XOR f b) \<and> f 0 = 0"
proof -
  have n: "fid < numFuncs h" using assms by (auto simp: H3HashFamily_def Let_def elim!: bind_SomeE)
  define f where "f v = h3_fold_bits (resShift h) (fold (\<lambda>r. h3_round (hMatrix h) (fid * 2 ^ (6 - resShift h) + 8 * r) v)
    [0..<8 div 2 ^ resShift h] 0)" for v
  have xor: "f (a XOR b) = f a XOR f b" for a b
    unfolding f_def h3_fold_bits_xor [symmetric] h3_rounds_xor [symmetric] by simp
  moreover have "f 0 = 0" using xor [of 0 0] by simp
  moreover have "h3_hash h fid = (\<lambda>v. Some (f v))" using n by (simp add: h3_hash_def f_def fun_eq_iff Let_def)
  ultimately show ?thesis by blast
qed

theorem h3_hash_linear_witness:
  "\<exists>h f. H3HashFamily (\<lambda>_. 0) 2 10 = Some h \<and> h3_hash h 1 = (\<lambda>v. Some (f v)) \<and> f (5 XOR 9) = f 5 XOR f 9"
proof -
  obtain h where h: "H3HashFamily (\<lambda>_. 0) 2 10 = Some h" by (simp add: H3HashFamily_def Let_def)
  obtain f where f: "h3_hash h 1 = (\<lambda>v. Some (f v))" "\<forall>a b. f (a XOR b) = f a XOR f b"
    using h3_hash_linear [OF h, of 1] by auto
  have "f (5 XOR 9) = f 5 XOR f 9" using f(2) by blast
  then show ?thesis using h f(1) by blast
qed


end
