(* ===== verification/Cache_Array.thy ===== *)
theory Cache_Array
  imports Repl_Policy Hash_Family
begin

text \<open>
  Set-associative cache arrays (\<^verbatim>\<open>src/src/cache_arrays.cpp\<close>): tags by line, found through the set
  that the hash function selects.  The locale \<open>cache_array\<close> is what a cache relies on: where a line
  is found before and after an insertion.
\<close>

record SetAssocArray =
  sa_array :: "Address list"
  sa_rp :: ReplPolicy
  sa_assoc :: nat
  sa_numSets :: nat

definition isPow2 :: "nat \<Rightarrow> bool" where
  "isPow2 v \<longleftrightarrow> v \<noteq> 0 \<and> v AND (v - 1) = 0"

definition SetAssocArray :: "nat \<Rightarrow> nat \<Rightarrow> ReplPolicy \<Rightarrow> SetAssocArray option" where
  "SetAssocArray numLines assoc rp = do {
     _ \<leftarrow> assert_that (assoc \<noteq> 0);
     let numSets = numLines div assoc;
     _ \<leftarrow> assert_that (isPow2 numSets);
     Some \<lparr>sa_array = replicate numLines 0, sa_rp = rp, sa_assoc = assoc, sa_numSets = numSets\<rparr>
   }"

text \<open>The lines of the set of an address.\<close>
definition sa_cands :: "(64 word \<Rightarrow> 64 word) \<Rightarrow> Address \<Rightarrow> SetAssocArray \<Rightarrow> nat list" where
  "sa_cands hf la a =
     (let first = unat (hf la AND of_nat (sa_numSets a - 1)) * sa_assoc a in [first..<first + sa_assoc a])"

definition sa_find :: "(64 word \<Rightarrow> 64 word) \<Rightarrow> Address \<Rightarrow> SetAssocArray \<Rightarrow> nat option" where
  "sa_find hf la a = List.find (\<lambda>i. sa_array a ! i = la) (sa_cands hf la a)"

definition sa_lookup ::
  "(64 word \<Rightarrow> 64 word) \<Rightarrow> Address \<Rightarrow> bool \<Rightarrow> SetAssocArray \<Rightarrow> (nat option \<times> SetAssocArray) option" where
  "sa_lookup hf la updateReplacement a =
     (case sa_find hf la a of
        None \<Rightarrow> Some (None, a)
      | Some i \<Rightarrow>
          if updateReplacement then do {
            rp \<leftarrow> rp_update i (sa_rp a);
            Some (Some i, a\<lparr>sa_rp := rp\<rparr>)
          }
          else Some (Some i, a))"

text \<open>The victim and the address it holds; an index out of range is an abort.\<close>
definition sa_preinsert ::
  "(64 word \<Rightarrow> 64 word) \<Rightarrow> (nat \<Rightarrow> bool) \<Rightarrow> (nat \<Rightarrow> 32 word) \<Rightarrow> Address \<Rightarrow> SetAssocArray \<Rightarrow>
   (nat \<times> Address \<times> SetAssocArray) option" where
  "sa_preinsert hf valid sharers la a = do {
     (candidate, rp) \<leftarrow> rp_rank valid sharers (sa_cands hf la a) (sa_rp a);
     _ \<leftarrow> assert_that (candidate < length (sa_array a));
     Some (candidate, sa_array a ! candidate, a\<lparr>sa_rp := rp\<rparr>)
   }"

definition sa_postinsert :: "Address \<Rightarrow> nat \<Rightarrow> SetAssocArray \<Rightarrow> SetAssocArray option" where
  "sa_postinsert la candidate a = do {
     rp \<leftarrow> rp_update candidate (rp_replaced candidate (sa_rp a));
     Some (a\<lparr>sa_array := (sa_array a)[candidate := la], sa_rp := rp\<rparr>)
   }"

definition sa_clear :: "nat \<Rightarrow> SetAssocArray \<Rightarrow> SetAssocArray" where
  "sa_clear candidate a =
     a\<lparr>sa_rp := rp_replaced candidate (sa_rp a), sa_array := (sa_array a)[candidate := - 1]\<rparr>"

subsection \<open>What a cache relies on\<close>

text \<open>
  \<open>tags a i\<close> is the address in line \<open>i\<close>, \<open>found x a\<close> the line that a lookup of \<open>x\<close> returns, and
  \<open>ready x c a\<close> holds between the choice of a victim and the insertion.
\<close>
locale cache_array =
  fixes ok :: "'a \<Rightarrow> bool"
    and tags :: "'a \<Rightarrow> nat \<Rightarrow> Address"
    and found :: "Address \<Rightarrow> 'a \<Rightarrow> nat option"
    and ready :: "Address \<Rightarrow> nat \<Rightarrow> 'a \<Rightarrow> bool"
    and lookup :: "Address \<Rightarrow> bool \<Rightarrow> 'a \<Rightarrow> (nat option \<times> 'a) option"
    and preinsert :: "(nat \<Rightarrow> bool) \<Rightarrow> (nat \<Rightarrow> 32 word) \<Rightarrow> Address \<Rightarrow> 'a \<Rightarrow> (nat \<times> Address \<times> 'a) option"
    and postinsert :: "Address \<Rightarrow> nat \<Rightarrow> 'a \<Rightarrow> 'a option"
  assumes found_tag: "found x a = Some i \<Longrightarrow> tags a i = x"
    and lookup_ok: "ok a \<Longrightarrow> \<exists>a'. lookup x upd a = Some (found x a, a') \<and> ok a' \<and> tags a' = tags a \<and>
          (\<forall>y. found y a' = found y a) \<and> (\<not> upd \<longrightarrow> a' = a)"
    and preinsert_ok: "ok a \<Longrightarrow> found x a = None \<Longrightarrow> \<exists>c a'. preinsert valid sharers x a = Some (c, tags a c, a') \<and>
          ok a' \<and> tags a' = tags a \<and> (\<forall>y. found y a' = found y a) \<and> ready x c a'"
    and postinsert_ok: "ok a \<Longrightarrow> ready x c a \<Longrightarrow> \<exists>a'. postinsert x c a = Some a' \<and> ok a' \<and>
          tags a' = (tags a)(c := x) \<and> found x a' = Some c \<and>
          (\<forall>y i. y \<noteq> x \<longrightarrow> found y a = Some i \<longrightarrow> i \<noteq> c \<longrightarrow> found y a' = Some i)"
begin

text \<open>The lines of \<open>V\<close> are found under the address they hold.\<close>
definition indexed :: "(nat \<Rightarrow> bool) \<Rightarrow> 'a \<Rightarrow> bool" where
  "indexed V a \<longleftrightarrow> (\<forall>i. V i \<longrightarrow> found (tags a i) a = Some i)"

lemma indexed_lookup:
  assumes "ok a" and "lookup x upd a = Some (r, a')"
  shows "r = found x a" and "indexed V a' = indexed V a"
  using lookup_ok [OF assms(1), of x upd] assms(2) by (auto simp: indexed_def)

lemma indexed_mono: "indexed V a \<Longrightarrow> (\<And>i. W i \<Longrightarrow> V i) \<Longrightarrow> indexed W a"
  by (auto simp: indexed_def)

text \<open>An insertion over a line outside \<open>V\<close> keeps every line of \<open>V\<close> and adds the new one.\<close>
lemma indexed_postinsert:
  assumes "ok a" and "ready x c a" and "indexed V a" and "\<not> V c" and "postinsert x c a = Some a'"
    and "found x a = None"
  shows "indexed (\<lambda>i. V i \<or> i = c) a'"
proof -
  note p = postinsert_ok [OF assms(1,2)] assms(5)
  have "found (tags a' i) a' = Some i" if "V i" for i
  proof -
    have i: "i \<noteq> c" "found (tags a i) a = Some i" using assms(3,4) that by (auto simp: indexed_def)
    then have "tags a i \<noteq> x" using assms(6) by auto
    then show ?thesis using p i by auto
  qed
  then show ?thesis using p by (auto simp: indexed_def)
qed

text \<open>Two lines of \<open>V\<close> hold different addresses.\<close>
lemma indexed_inj: "indexed V a \<Longrightarrow> V i \<Longrightarrow> V j \<Longrightarrow> tags a i = tags a j \<Longrightarrow> i = j"
  by (metis indexed_def option.inject)

end

subsection \<open>Set-associative arrays with LRU replacement\<close>

definition sa_ok :: "SetAssocArray \<Rightarrow> bool" where
  "sa_ok a \<longleftrightarrow> (\<exists>p. sa_rp a = LRUPolicy p) \<and> 0 < sa_assoc a \<and> 0 < sa_numSets a \<and>
     sa_numSets a * sa_assoc a \<le> length (sa_array a) \<and> sa_numSets a \<le> 2 ^ 32"

definition sa_ready :: "(64 word \<Rightarrow> 64 word) \<Rightarrow> Address \<Rightarrow> nat \<Rightarrow> SetAssocArray \<Rightarrow> bool" where
  "sa_ready hf la c a \<longleftrightarrow> c \<in> set (sa_cands hf la a) \<and> sa_find hf la a = None"

lemma and_le_nat: "unat ((x :: 64 word) AND of_nat n) \<le> n"
proof -
  have "x AND of_nat n \<le> of_nat n" by (rule word_and_le1)
  then have "unat (x AND of_nat n) \<le> unat (of_nat n :: 64 word)" by (simp add: word_le_nat_alt)
  also have "\<dots> \<le> n" by (simp add: unat_of_nat take_bit_nat_less_eq_self)
  finally show ?thesis .
qed

lemma sa_cands_range:
  assumes "sa_ok a" and "c \<in> set (sa_cands hf la a)"
  shows "c < length (sa_array a)"
proof -
  let ?s = "unat (hf la AND of_nat (sa_numSets a - 1))"
  have "?s \<le> sa_numSets a - 1" by (rule and_le_nat)
  then have "Suc ?s \<le> sa_numSets a" using assms(1) unfolding sa_ok_def by linarith
  then have "Suc ?s * sa_assoc a \<le> sa_numSets a * sa_assoc a" by (rule mult_le_mono1)
  then show ?thesis using assms by (simp add: sa_ok_def sa_cands_def Let_def)
qed

lemma find_in: "List.find P xs = Some x \<Longrightarrow> x \<in> set xs \<and> P x"
  by (auto simp: List.find_Some_iff)

lemma find_other:
  assumes "List.find P xs = Some i" and "\<And>x. x \<in> set xs \<Longrightarrow> x \<noteq> c \<Longrightarrow> Q x = P x" and "i \<noteq> c" and "\<not> Q c"
  shows "List.find Q xs = Some i"
  using assms by (induction xs) (auto split: if_splits)

lemma find_only:
  assumes "List.find P xs = None" and "\<And>x. x \<in> set xs \<Longrightarrow> x \<noteq> c \<Longrightarrow> Q x = P x" and "c \<in> set xs" and "Q c"
  shows "List.find Q xs = Some c"
  using assms by (induction xs) (auto split: if_splits)

lemma lru_rank_in:
  assumes "cands \<noteq> []"
  shows "lru_rank valid sharers cands p \<in> set cands"
proof -
  have "fst (fold (rank_step sc) cands (b, - 1)) \<in> set cands" if "cands \<noteq> []" for sc b cands
    using that
  proof (induction cands rule: rev_induct)
    case (snoc c cs)
    have "ucast (ucast (sc c) :: 32 word) < (- 1 :: 64 word)" by (rule trunc_not_max)
    then show ?case using snoc.IH by (cases "cs = []") (auto simp: rank_step_def Let_def)
  qed simp
  then show ?thesis using assms by (simp add: lru_rank_def)
qed

lemma sa_cands_rp [simp]: "sa_cands hf x (a\<lparr>sa_rp := rp\<rparr>) = sa_cands hf x a"
  by (simp add: sa_cands_def)

lemma sa_cands_array [simp]: "sa_cands hf x (a\<lparr>sa_array := v\<rparr>) = sa_cands hf x a"
  by (simp add: sa_cands_def)

lemma sa_find_rp [simp]: "sa_find hf x (a\<lparr>sa_rp := rp\<rparr>) = sa_find hf x a"
  by (simp add: sa_find_def)

lemma sa_postinsert_found:
  assumes "sa_ok a" and "sa_ready hf x c a"
  shows "sa_find hf x (a\<lparr>sa_array := (sa_array a)[c := x]\<rparr>) = Some c"
    and "y \<noteq> x \<Longrightarrow> sa_find hf y a = Some i \<Longrightarrow> i \<noteq> c \<Longrightarrow> sa_find hf y (a\<lparr>sa_array := (sa_array a)[c := x]\<rparr>) = Some i"
proof -
  have c: "c \<in> set (sa_cands hf x a)" "sa_find hf x a = None" "c < length (sa_array a)"
    using assms sa_cands_range by (auto simp: sa_ready_def)
  let ?P = "\<lambda>v i. sa_array a ! i = v" and ?Q = "\<lambda>v i. (sa_array a)[c := x] ! i = v"
  show "sa_find hf x (a\<lparr>sa_array := (sa_array a)[c := x]\<rparr>) = Some c"
    using find_only [of "?P x" "sa_cands hf x a" c "?Q x"] c by (simp add: sa_find_def)
  show "sa_find hf y (a\<lparr>sa_array := (sa_array a)[c := x]\<rparr>) = Some i"
    if "y \<noteq> x" "sa_find hf y a = Some i" "i \<noteq> c"
    using find_other [of "?P y" "sa_cands hf y a" i c "?Q y"] that c(3) by (simp add: sa_find_def)
qed

interpretation sa: cache_array sa_ok "\<lambda>a i. sa_array a ! i" "sa_find hf" "sa_ready hf" "sa_lookup hf"
  "sa_preinsert hf" sa_postinsert for hf
proof
  show "sa_array a ! i = x" if "sa_find hf x a = Some i" for x a i
    using find_in [OF that [unfolded sa_find_def]] by simp
  show "\<exists>a'. sa_lookup hf x upd a = Some (sa_find hf x a, a') \<and> sa_ok a' \<and> (!) (sa_array a') = (!) (sa_array a) \<and>
      (\<forall>y. sa_find hf y a' = sa_find hf y a) \<and> (\<not> upd \<longrightarrow> a' = a)" if "sa_ok a" for x upd a
    using that by (auto simp: sa_lookup_def sa_ok_def split: option.split)
  show "\<exists>c a'. sa_preinsert hf valid sharers x a = Some (c, sa_array a ! c, a') \<and> sa_ok a' \<and>
      (!) (sa_array a') = (!) (sa_array a) \<and> (\<forall>y. sa_find hf y a' = sa_find hf y a) \<and> sa_ready hf x c a'"
    if "sa_ok a" "sa_find hf x a = None" for a x valid sharers
  proof -
    from that(1) obtain p where p: "sa_rp a = LRUPolicy p" by (auto simp: sa_ok_def)
    have "sa_cands hf x a \<noteq> []" using that(1) by (simp add: sa_cands_def sa_ok_def Let_def)
    then have c: "lru_rank valid sharers (sa_cands hf x a) p \<in> set (sa_cands hf x a)" by (rule lru_rank_in)
    then show ?thesis using that p sa_cands_range [OF that(1) c]
      by (auto simp: sa_preinsert_def sa_ready_def sa_ok_def)
  qed
  show "\<exists>a'. sa_postinsert x c a = Some a' \<and> sa_ok a' \<and> (!) (sa_array a') = ((!) (sa_array a))(c := x) \<and>
      sa_find hf x a' = Some c \<and>
      (\<forall>y i. y \<noteq> x \<longrightarrow> sa_find hf y a = Some i \<longrightarrow> i \<noteq> c \<longrightarrow> sa_find hf y a' = Some i)"
    if "sa_ok a" "sa_ready hf x c a" for a x c
  proof -
    from that(1) obtain p where p: "sa_rp a = LRUPolicy p" by (auto simp: sa_ok_def)
    have "c < length (sa_array a)" using that sa_cands_range by (auto simp: sa_ready_def)
    then show ?thesis using p that sa_postinsert_found [OF that]
      by (simp add: sa_postinsert_def sa_ok_def fun_eq_iff)
  qed
qed

end
