(* ===== verification/Coherence.thy ===== *)
theory Coherence
  imports Cache_Array
begin

text \<open>
  The coherence controllers (\<^verbatim>\<open>src/src/coherence_ctrls.h\<close>, \<^verbatim>\<open>src/src/coherence_ctrls.cpp\<close>).
  A request carries a pointer to the state of the requester's line, which the controllers of the next
  level write; the lines of all caches are therefore cells of one store, \<open>cell k i\<close> the state of line
  \<open>i\<close> in cache \<open>k\<close>.  The objects a controller calls, the parents' \<open>access\<close> and the children's
  \<open>invalidate\<close>, are arguments of its operations; \<open>Cache\<close> ties the knot.  Locks are left out: an access
  is atomic.  Profiling counters are left out.
\<close>

subsection \<open>Requests, caches and the store\<close>

record CacheReq = MemReq +
  state_ptr :: "nat \<times> nat"
  nonCacheable :: bool
  l1hit :: bool

record InvReq =
  inv_lineAddr :: Address
  inv_type :: InvType
  inv_cycle :: "64 word"
  inv_srcId :: "32 word"
  inv_clflush :: bool

datatype MemObject = CacheObj nat | MemoryObj nat

datatype CC_kind = MESICC | MESITerminalCC | IVTerminalCC

text \<open>What is fixed after initialisation: the controller's kind, its neighbours and latencies.\<close>
record node =
  cc_kind :: CC_kind
  bcc_selfId :: nat
  parents :: "MemObject list"
  parentRTTs :: "32 word list"
  children :: "nat list"
  childrenRTTs :: "32 word list"
  cache_children_num :: nat
  nonInclusiveHack :: bool
  accLat :: "32 word"
  invLat :: "32 word"
  arr_hash :: "64 word \<Rightarrow> 64 word"
  filter_on :: bool
  filter_setMask :: "32 word"

text \<open>One line of the filter in front of a first-level cache.\<close>
record FilterEntry =
  rdAddr :: Address
  wrAddr :: Address
  availCycle :: "64 word"

record Entry =
  numSharers :: "32 word"
  sharers :: "nat \<Rightarrow> bool"
  exclusive :: bool

record 'm hier =
  cell :: "nat \<Rightarrow> nat \<Rightarrow> MESIState"
  dir :: "nat \<Rightarrow> nat \<Rightarrow> Entry"
  arr :: "nat \<Rightarrow> SetAssocArray"
  filt :: "nat \<Rightarrow> FilterEntry list"
  mem :: 'm

type_synonym 'h access_fun = "MemObject \<Rightarrow> CacheReq \<Rightarrow> 'h \<Rightarrow> (64 word \<times> CacheReq \<times> 'h) option"
type_synonym 'h inval_fun = "nat \<Rightarrow> InvReq \<Rightarrow> bool \<Rightarrow> 'h \<Rightarrow> (64 word \<times> bool \<times> 'h) option"

definition set_cell :: "nat \<Rightarrow> nat \<Rightarrow> MESIState \<Rightarrow> 'm hier \<Rightarrow> 'm hier" where
  "set_cell k i s h = h\<lparr>cell := (cell h)(k := (cell h k)(i := s))\<rparr>"

definition upd_dir :: "nat \<Rightarrow> nat \<Rightarrow> (Entry \<Rightarrow> Entry) \<Rightarrow> 'm hier \<Rightarrow> 'm hier" where
  "upd_dir k i f h = h\<lparr>dir := (dir h)(k := (dir h k)(i := f (dir h k i)))\<rparr>"

definition entry_clear :: Entry where
  "entry_clear = \<lparr>numSharers = 0, sharers = (\<lambda>_. False), exclusive = False\<rparr>"

definition isEmpty :: "Entry \<Rightarrow> bool" where
  "isEmpty e \<longleftrightarrow> numSharers e = 0"

definition isExclusive :: "Entry \<Rightarrow> bool" where
  "isExclusive e \<longleftrightarrow> numSharers e = 1 \<and> exclusive e"

subsection \<open>Initialisation\<close>

definition MAX_CACHE_CHILDREN :: nat where "MAX_CACHE_CHILDREN = 2048"

definition rtts :: "(string \<Rightarrow> 32 word) option \<Rightarrow> string list \<Rightarrow> 32 word list" where
  "rtts network names = map (\<lambda>n. case network of None \<Rightarrow> 0 | Some getRTT \<Rightarrow> getRTT n) names"

definition bcc_init :: "(MemObject \<times> string) list \<Rightarrow> (string \<Rightarrow> 32 word) option \<Rightarrow> node \<Rightarrow> node" where
  "bcc_init ps network n = n\<lparr>parents := map fst ps, parentRTTs := rtts network (map snd ps)\<rparr>"

definition tcc_init :: "(nat \<times> string) list \<Rightarrow> (string \<Rightarrow> 32 word) option \<Rightarrow> node \<Rightarrow> node option" where
  "tcc_init cs network n = do {
     _ \<leftarrow> assert_that (length cs \<le> MAX_CACHE_CHILDREN);
     Some (n\<lparr>children := map fst cs, childrenRTTs := rtts network (map snd cs), cache_children_num := length cs\<rparr>)
   }"

definition tcc_add :: "nat \<times> string \<Rightarrow> (string \<Rightarrow> 32 word) option \<Rightarrow> node \<Rightarrow> node option" where
  "tcc_add c network n = do {
     _ \<leftarrow> assert_that (length (children n) \<noteq> MAX_CACHE_CHILDREN);
     Some (n\<lparr>children := children n @ [fst c], childrenRTTs := childrenRTTs n @ rtts network [snd c]\<rparr>)
   }"

definition tcc_add_list :: "(nat \<times> string) list \<Rightarrow> (string \<Rightarrow> 32 word) option \<Rightarrow> node \<Rightarrow> node option" where
  "tcc_add_list cs network n = do {
     _ \<leftarrow> assert_that (length (children n) \<noteq> MAX_CACHE_CHILDREN);
     Some (n\<lparr>children := children n @ map fst cs, childrenRTTs := childrenRTTs n @ rtts network (map snd cs)\<rparr>)
   }"

subsection \<open>The bottom controller\<close>

text \<open>The four 16-bit parts of the address, combined by exclusive or, modulo the number of parents.\<close>
definition bcc_getParentId :: "Address \<Rightarrow> nat \<Rightarrow> nat" where
  "bcc_getParentId la n =
     unat (fold (\<lambda>i res. res XOR ucast (0xffff AND drop_bit (16 * i) la)) [0..<4] (0 :: 32 word)) mod n"

definition bcc_isExclusive :: "nat \<Rightarrow> nat \<Rightarrow> 'm hier \<Rightarrow> bool" where
  "bcc_isExclusive k i h \<longleftrightarrow> cell h k i = Est \<or> cell h k i = Mst"

definition bcc_isValid :: "nat \<Rightarrow> nat \<Rightarrow> 'm hier \<Rightarrow> bool" where
  "bcc_isValid k i h \<longleftrightarrow> cell h k i \<noteq> Ist"

text \<open>A request of controller \<open>k\<close> to its parent, for the state at \<open>ptr\<close>.\<close>
definition bcc_req ::
  "node \<Rightarrow> Address \<Rightarrow> AccessType \<Rightarrow> nat \<times> nat \<Rightarrow> 64 word \<Rightarrow> 32 word \<Rightarrow> 32 word \<Rightarrow> 64 word \<Rightarrow> bool \<Rightarrow> 'm hier \<Rightarrow> CacheReq" where
  "bcc_req n la ty ptr cycle src flags tid pim h =
     \<lparr>lineAddr = la, rq_type = ty, childId = bcc_selfId n, rq_cycle = cycle,
      initialState = cell h (fst ptr) (snd ptr), srcId = src, rq_flags = flags, threadId = tid, isPIMInst = pim,
      isFirstPTW = False, isLastPTW = False, pageShared = False, pageDirty = False, triggerPageShared = False,
      triggerPageDirty = False, state_ptr = ptr, nonCacheable = False, l1hit = False\<rparr>"

definition bcc_parent :: "node \<Rightarrow> Address \<Rightarrow> MemObject option" where
  "bcc_parent n la = do {
     _ \<leftarrow> assert_that (parents n \<noteq> []);
     Some (parents n ! bcc_getParentId la (length (parents n)))
   }"

definition bcc_processEviction ::
  "'m hier access_fun \<Rightarrow> node \<Rightarrow> nat \<Rightarrow> Address \<Rightarrow> nat \<Rightarrow> bool \<Rightarrow> 64 word \<Rightarrow> CacheReq \<Rightarrow> 'm hier \<Rightarrow> (64 word \<times> 'm hier) option" where
  "bcc_processEviction acc n k wbLineAddr i lowerLevelWriteback cycle trigger h = do {
     h1 \<leftarrow> (if lowerLevelWriteback then do {
              _ \<leftarrow> assert_that (cell h k i = Mst \<or> cell h k i = Est);
              Some (set_cell k i Mst h)
            } else Some h);
     (respCycle, h2) \<leftarrow>
       (if cell h1 k i = Ist then Some (cycle, h1)
        else do {
          p \<leftarrow> bcc_parent n wbLineAddr;
          (r, _, h') \<leftarrow> acc p (bcc_req n wbLineAddr (if cell h1 k i = Mst then PUTX else PUTS) (k, i) cycle
                                (srcId trigger) 0 (threadId trigger) (isPIMInst trigger) h1) h1;
          Some (r, h')
        });
     _ \<leftarrow> assert_that (cell h2 k i = Ist);
     Some (respCycle, h2)
   }"

text \<open>A get that misses: the latencies of the next level and of the network are kept in 32 bits.\<close>
definition bcc_fetch ::
  "'m hier access_fun \<Rightarrow> node \<Rightarrow> nat \<Rightarrow> Address \<Rightarrow> nat \<Rightarrow> AccessType \<Rightarrow> 64 word \<Rightarrow> 32 word \<Rightarrow> CacheReq \<Rightarrow> 'm hier \<Rightarrow>
   (64 word \<times> 'm hier) option" where
  "bcc_fetch acc n k la i ty cycle flags req h = do {
     p \<leftarrow> bcc_parent n la;
     (resp, _, h1) \<leftarrow> acc p (bcc_req n la ty (k, i) cycle (srcId req) flags (threadId req) (isPIMInst req) h) h;
     let nextLevelLat = (ucast (resp - cycle) :: 32 word);
     let netLat = parentRTTs n ! bcc_getParentId la (length (parents n));
     Some (cycle + ucast (nextLevelLat + netLat), h1)
   }"

definition bcc_processAccess ::
  "'m hier access_fun \<Rightarrow> node \<Rightarrow> nat \<Rightarrow> nat \<Rightarrow> 64 word \<Rightarrow> 32 word \<Rightarrow> CacheReq \<Rightarrow> 'm hier \<Rightarrow> (64 word \<times> 'm hier) option" where
  "bcc_processAccess acc n k i cycle flags req h = do {
     (respCycle, h') \<leftarrow>
       (case rq_type req of
          PUTS \<Rightarrow> do {
            _ \<leftarrow> assert_that (cell h k i \<noteq> Ist);
            Some (cycle, h)
          }
        | PUTX \<Rightarrow> do {
            _ \<leftarrow> assert_that (cell h k i = Mst \<or> cell h k i = Est);
            Some (cycle, if cell h k i = Est then set_cell k i Mst h else h)
          }
        | GETS \<Rightarrow>
            if cell h k i = Ist then do {
              (r, h1) \<leftarrow> bcc_fetch acc n k (lineAddr req) i GETS cycle flags req h;
              _ \<leftarrow> assert_that (cell h1 k i = Sst \<or> cell h1 k i = Est);
              Some (r, h1)
            }
            else Some (cycle, h)
        | GETX \<Rightarrow> do {
            (r, h1) \<leftarrow> (if cell h k i = Ist \<or> cell h k i = Sst
                       then bcc_fetch acc n k (lineAddr req) i GETX cycle flags req h
                       else Some (cycle, if cell h k i = Est then set_cell k i Mst h else h));
            _ \<leftarrow> assert_that (cell h1 k i = Mst);
            Some (r, h1)
          }
        | OFFLOAD \<Rightarrow> None);
     _ \<leftarrow> assert_that (respCycle \<ge> cycle);
     Some (respCycle, h')
   }"

definition bcc_processWritebackOnAccess :: "nat \<Rightarrow> nat \<Rightarrow> 'm hier \<Rightarrow> 'm hier option" where
  "bcc_processWritebackOnAccess k i h = do {
     _ \<leftarrow> assert_that (cell h k i = Mst \<or> cell h k i = Est);
     Some (if cell h k i = Est then set_cell k i Mst h else h)
   }"

definition bcc_processInval :: "nat \<Rightarrow> nat \<Rightarrow> InvType \<Rightarrow> bool \<Rightarrow> bool \<Rightarrow> 'm hier \<Rightarrow> (bool \<times> 'm hier) option" where
  "bcc_processInval k i ty clflush reqWriteback h =
     (let st = cell h k i in
      if \<not> clflush \<and> st = Ist then None
      else if st = Ist then Some (reqWriteback, h)
      else (case ty of
          INVX \<Rightarrow> do {
            _ \<leftarrow> assert_that (st = Est \<or> st = Mst);
            Some (reqWriteback \<or> st = Mst, set_cell k i Sst h)
          }
        | INV \<Rightarrow> Some (reqWriteback \<or> st = Mst, set_cell k i Ist h)
        | FWD \<Rightarrow> do {
            _ \<leftarrow> assert_that (st = Sst);
            Some (reqWriteback, h)
          }))"

definition bcc_processNonInclusiveWriteback ::
  "'m hier access_fun \<Rightarrow> node \<Rightarrow> 64 word \<Rightarrow> CacheReq \<Rightarrow> 'm hier \<Rightarrow> (64 word \<times> 'm hier) option" where
  "bcc_processNonInclusiveWriteback acc n cycle req h = do {
     _ \<leftarrow> assert_that (nonInclusiveHack n);
     p \<leftarrow> bcc_parent n (lineAddr req);
     (r, _, h') \<leftarrow> acc p (bcc_req n (lineAddr req) (rq_type req) (state_ptr req) cycle (srcId req)
                           (rq_flags req OR NONINCLWB) (threadId req) (isPIMInst req) h) h;
     Some (r, h')
   }"

definition bcc_bypassAccess ::
  "'m hier access_fun \<Rightarrow> node \<Rightarrow> CacheReq \<Rightarrow> 'm hier \<Rightarrow> (64 word \<times> CacheReq \<times> 'm hier) option" where
  "bcc_bypassAccess acc n req h = do {
     p \<leftarrow> bcc_parent n (lineAddr req);
     acc p req h
   }"

subsection \<open>The top controller\<close>

text \<open>One child: its invalidation, the response in parallel with the others.\<close>
definition inval_child ::
  "'m hier inval_fun \<Rightarrow> node \<Rightarrow> InvReq \<Rightarrow> nat \<Rightarrow> 64 word \<times> bool \<times> 'm hier \<Rightarrow> (64 word \<times> bool \<times> 'm hier) option" where
  "inval_child invf n ireq c s = (case s of (maxCycle, wb, h) \<Rightarrow> do {
     (resp, wb', h') \<leftarrow> invf (children n ! c) ireq wb h;
     Some (max (resp + ucast (childrenRTTs n ! c)) maxCycle, wb', h')
   })"

definition inval_sharer ::
  "'m hier inval_fun \<Rightarrow> node \<Rightarrow> nat \<Rightarrow> nat \<Rightarrow> InvReq \<Rightarrow> nat \<Rightarrow> 32 word \<times> 64 word \<times> bool \<times> 'm hier \<Rightarrow>
   (32 word \<times> 64 word \<times> bool \<times> 'm hier) option" where
  "inval_sharer invf n k i ireq c s = (case s of (sentInvs, st) \<Rightarrow>
     if sharers (dir (snd (snd st)) k i) c then do {
       (m, wb, h) \<leftarrow> inval_child invf n ireq c st;
       let h' = (if inv_type ireq = INV then upd_dir k i (\<lambda>e. e\<lparr>sharers := (sharers e)(c := False)\<rparr>) h else h);
       Some (sentInvs + 1, m, wb, h')
     }
     else Some s)"

definition tcc_sendInvalidates ::
  "'m hier inval_fun \<Rightarrow> node \<Rightarrow> nat \<Rightarrow> nat option \<Rightarrow> InvReq \<Rightarrow> bool \<Rightarrow> 'm hier \<Rightarrow> (64 word \<times> bool \<times> 'm hier) option" where
  "tcc_sendInvalidates invf n k lineId ireq reqWriteback h =
     (let cycle = inv_cycle ireq in
      case lineId of
        None \<Rightarrow> fold_opt (inval_child invf n ireq) [0..<cache_children_num n] (cycle, reqWriteback, h)
      | Some i \<Rightarrow>
          if inv_type ireq = INVX \<and> \<not> isExclusive (dir h k i) then Some (cycle, reqWriteback, h)
          else if isEmpty (dir h k i) then Some (cycle, reqWriteback, h)
          else do {
            (sentInvs, maxCycle, wb, h1) \<leftarrow>
              fold_opt (inval_sharer invf n k i ireq) [0..<cache_children_num n] (0, cycle, reqWriteback, h);
            _ \<leftarrow> assert_that (sentInvs = numSharers (dir h1 k i));
            if inv_type ireq = INV then Some (maxCycle, wb, upd_dir k i (\<lambda>e. e\<lparr>numSharers := 0\<rparr>) h1)
            else do {
              _ \<leftarrow> assert_that (exclusive (dir h1 k i) \<and> numSharers (dir h1 k i) = 1);
              Some (maxCycle, wb, upd_dir k i (\<lambda>e. e\<lparr>exclusive := False\<rparr>) h1)
            }
          })"

definition tcc_processEviction ::
  "'m hier inval_fun \<Rightarrow> node \<Rightarrow> nat \<Rightarrow> Address \<Rightarrow> nat \<Rightarrow> 64 word \<Rightarrow> 32 word \<Rightarrow> 'm hier \<Rightarrow> (64 word \<times> bool \<times> 'm hier) option" where
  "tcc_processEviction invf n k wbLineAddr i cycle src h =
     (if nonInclusiveHack n then Some (cycle, False, upd_dir k i (\<lambda>_. entry_clear) h)
      else tcc_sendInvalidates invf n k (Some i)
        \<lparr>inv_lineAddr = wbLineAddr, inv_type = INV, inv_cycle = cycle, inv_srcId = src, inv_clflush = False\<rparr> False h)"

definition set_state :: "CacheReq \<Rightarrow> MESIState \<Rightarrow> 'm hier \<Rightarrow> 'm hier" where
  "set_state req s h = set_cell (fst (state_ptr req)) (snd (state_ptr req)) s h"

definition get_state :: "CacheReq \<Rightarrow> 'm hier \<Rightarrow> MESIState" where
  "get_state req h = cell h (fst (state_ptr req)) (snd (state_ptr req))"

definition tcc_remove :: "nat \<Rightarrow> nat \<Rightarrow> nat \<Rightarrow> 'm hier \<Rightarrow> 'm hier" where
  "tcc_remove k i c h = upd_dir k i (\<lambda>e. e\<lparr>sharers := (sharers e)(c := False), numSharers := numSharers e - 1\<rparr>) h"

definition tcc_processAccess ::
  "'m hier inval_fun \<Rightarrow> node \<Rightarrow> nat \<Rightarrow> nat \<Rightarrow> bool \<Rightarrow> 64 word \<Rightarrow> 32 word \<Rightarrow> CacheReq \<Rightarrow> 'm hier \<Rightarrow>
   (64 word \<times> bool \<times> 'm hier) option" where
  "tcc_processAccess invf n k i haveExclusive cycle flags req h =
     (let c = childId req;
          e = dir h k i;
          ireq = (\<lambda>ty. \<lparr>inv_lineAddr = lineAddr req, inv_type = ty, inv_cycle = cycle, inv_srcId = srcId req,
                       inv_clflush = False\<rparr>);
          puts = (do {
            _ \<leftarrow> assert_that (sharers e c);
            Some (cycle, False, set_state req Ist (tcc_remove k i c h))
          })
      in case rq_type req of
        PUTX \<Rightarrow> do {
          _ \<leftarrow> assert_that (isExclusive e);
          if flags AND PUTX_KEEPEXCL \<noteq> 0 then do {
            _ \<leftarrow> assert_that (sharers e c);
            _ \<leftarrow> assert_that (get_state req h = Mst);
            Some (cycle, False, set_state req Est h)
          }
          else puts
        }
      | PUTS \<Rightarrow> puts
      | GETS \<Rightarrow>
          if isEmpty e \<and> haveExclusive \<and> flags AND NOEXCL = 0 then
            Some (cycle, False, set_state req Est
              (upd_dir k i (\<lambda>e. e\<lparr>exclusive := True, sharers := (sharers e)(c := True), numSharers := 1\<rparr>) h))
          else do {
            _ \<leftarrow> assert_that (\<not> sharers e c);
            (respCycle, wb, h1) \<leftarrow> (if isExclusive e then tcc_sendInvalidates invf n k (Some i) (ireq INVX) False h
                                    else Some (cycle, False, h));
            _ \<leftarrow> assert_that (\<not> isExclusive (dir h1 k i));
            Some (respCycle, wb, set_state req Sst (upd_dir k i
              (\<lambda>e. e\<lparr>sharers := (sharers e)(c := True), numSharers := numSharers e + 1, exclusive := False\<rparr>) h1))
          }
      | GETX \<Rightarrow> do {
          _ \<leftarrow> assert_that haveExclusive;
          h1 \<leftarrow> (if sharers e c then do {
                   _ \<leftarrow> assert_that (\<not> isExclusive e);
                   Some (tcc_remove k i c h)
                 } else Some h);
          (respCycle, wb, h2) \<leftarrow> tcc_sendInvalidates invf n k (Some i) (ireq INV) False h1;
          let h3 = upd_dir k i
            (\<lambda>e. e\<lparr>sharers := (sharers e)(c := True), numSharers := numSharers e + 1, exclusive := True\<rparr>) h2;
          _ \<leftarrow> assert_that (numSharers (dir h3 k i) = 1);
          Some (respCycle, wb, set_state req Mst h3)
        }
      | OFFLOAD \<Rightarrow> None)"

definition tcc_processInval ::
  "'m hier inval_fun \<Rightarrow> node \<Rightarrow> nat \<Rightarrow> nat option \<Rightarrow> InvReq \<Rightarrow> bool \<Rightarrow> 'm hier \<Rightarrow> (64 word \<times> bool \<times> 'm hier) option" where
  "tcc_processInval invf n k lineId ireq reqWriteback h =
     (if inv_type ireq = FWD then do {
        _ \<leftarrow> assert_that (\<not> nonInclusiveHack n);
        Some (inv_cycle ireq, reqWriteback, h)
      }
      else tcc_sendInvalidates invf n k lineId ireq reqWriteback h)"

subsection \<open>Races\<close>

text \<open>Whether to skip the access, and the request with the type it may have been changed to.\<close>
definition CheckForMESIRace :: "CacheReq \<Rightarrow> 'm hier \<Rightarrow> (bool \<times> CacheReq) option" where
  "CheckForMESIRace req h =
     (let st = get_state req h in
      if st = initialState req then Some (False, req)
      else if rq_type req = PUTS \<or> rq_type req = PUTX then
        (if st = Ist then Some (True, req)
         else do {
           _ \<leftarrow> assert_that (st = Sst);
           Some (False, if rq_type req = PUTX then req\<lparr>rq_type := PUTS\<rparr> else req)
         })
      else if rq_type req = GETX then do {
        _ \<leftarrow> assert_that (initialState req = Sst);
        _ \<leftarrow> assert_that (st = Ist);
        Some (False, req)
      }
      else None)"

subsection \<open>The controllers of a cache\<close>

definition cc_startAccess :: "node \<Rightarrow> CacheReq \<Rightarrow> 'm hier \<Rightarrow> (bool \<times> CacheReq) option" where
  "cc_startAccess n req h =
     (case cc_kind n of
        MESICC \<Rightarrow> do {
          _ \<leftarrow> assert_that (rq_type req \<in> {GETS, GETX, PUTS, PUTX});
          CheckForMESIRace req h
        }
      | MESITerminalCC \<Rightarrow> do {
          _ \<leftarrow> assert_that (rq_type req = GETS \<or> rq_type req = GETX);
          CheckForMESIRace req h
        }
      | IVTerminalCC \<Rightarrow> Some (False, req))"

definition cc_shouldAllocate :: "node \<Rightarrow> CacheReq \<Rightarrow> bool option" where
  "cc_shouldAllocate n req =
     (case cc_kind n of
        MESICC \<Rightarrow>
          if rq_type req = GETS \<or> rq_type req = GETX then Some True
          else do {
            _ \<leftarrow> assert_that (rq_type req = PUTS \<or> rq_type req = PUTX);
            _ \<leftarrow> assert_that (nonInclusiveHack n);
            Some False
          }
      | _ \<Rightarrow> Some True)"

text \<open>The write-through controller has nothing to write back.\<close>
definition cc_processEviction ::
  "'m hier access_fun \<Rightarrow> 'm hier inval_fun \<Rightarrow> node \<Rightarrow> nat \<Rightarrow> CacheReq \<Rightarrow> Address \<Rightarrow> nat \<Rightarrow> 64 word \<Rightarrow> 'm hier \<Rightarrow>
   (64 word \<times> 'm hier) option" where
  "cc_processEviction acc invf n k trigger wbLineAddr i startCycle h =
     (case cc_kind n of
        MESICC \<Rightarrow> do {
          (evCycle, wb, h1) \<leftarrow> tcc_processEviction invf n k wbLineAddr i startCycle (srcId trigger) h;
          bcc_processEviction acc n k wbLineAddr i wb evCycle trigger h1
        }
      | MESITerminalCC \<Rightarrow> bcc_processEviction acc n k wbLineAddr i False startCycle trigger h
      | IVTerminalCC \<Rightarrow> Some (startCycle, h))"

definition mesicc_processAccess ::
  "'m hier access_fun \<Rightarrow> 'm hier inval_fun \<Rightarrow> node \<Rightarrow> nat \<Rightarrow> CacheReq \<Rightarrow> nat option \<Rightarrow> 64 word \<Rightarrow> 'm hier \<Rightarrow>
   (64 word \<times> 'm hier) option" where
  "mesicc_processAccess acc invf n k req lineId startCycle h =
     (if rq_is PTW req then do {
        i \<leftarrow> lineId;
        bcc_processAccess acc n k i startCycle (rq_flags req) req h
      }
      else (case lineId of
          None \<Rightarrow> do {
            _ \<leftarrow> assert_that (rq_type req = PUTS \<or> rq_type req = PUTX);
            bcc_processNonInclusiveWriteback acc n startCycle req h
          }
        | Some i \<Rightarrow>
            if (rq_type req = PUTS \<or> rq_type req = PUTX) \<and> \<not> bcc_isValid k i h then
              bcc_processNonInclusiveWriteback acc n startCycle req h
            else do {
              let isPrefetch = rq_is PREFETCH req;
              _ \<leftarrow> assert_that (\<not> isPrefetch \<or> rq_type req = GETS);
              let flags = rq_flags req AND NOT PREFETCH;
              (respCycle, h1) \<leftarrow> bcc_processAccess acc n k i startCycle flags req h;
              if isPrefetch then Some (respCycle, h1)
              else do {
                (respCycle2, wb, h2) \<leftarrow> tcc_processAccess invf n k i (bcc_isExclusive k i h1) respCycle flags req h1;
                h3 \<leftarrow> (if wb then bcc_processWritebackOnAccess k i h2 else Some h2);
                Some (respCycle2, h3)
              }
            }))"

text \<open>The write-through controller: a get of an invalid line reads it, a write goes to the parent.\<close>
definition iv_getParentId :: "32 word \<Rightarrow> nat \<Rightarrow> nat" where
  "iv_getParentId src n = unat src mod n"

definition iv_fetch ::
  "'m hier access_fun \<Rightarrow> node \<Rightarrow> nat \<Rightarrow> nat \<Rightarrow> AccessType \<Rightarrow> 64 word \<Rightarrow> CacheReq \<Rightarrow> 'm hier \<Rightarrow> (64 word \<times> 'm hier) option" where
  "iv_fetch acc n k i ty cycle req h = do {
     _ \<leftarrow> assert_that (parents n \<noteq> []);
     let p = iv_getParentId (srcId req) (length (parents n));
     (resp, _, h1) \<leftarrow> acc (parents n ! p)
       (bcc_req n (lineAddr req) ty (k, i) cycle (srcId req) (rq_flags req) (threadId req) (isPIMInst req) h) h;
     let nextLevelLat = (ucast (resp - cycle) :: 32 word);
     Some (cycle + ucast (nextLevelLat + parentRTTs n ! p), set_cell k i Sst h1)
   }"

definition iv_processAccess ::
  "'m hier access_fun \<Rightarrow> node \<Rightarrow> nat \<Rightarrow> nat \<Rightarrow> 64 word \<Rightarrow> CacheReq \<Rightarrow> 'm hier \<Rightarrow> (64 word \<times> 'm hier) option" where
  "iv_processAccess acc n k i cycle req h = do {
     (respCycle, h') \<leftarrow>
       (case rq_type req of
          GETS \<Rightarrow> if cell h k i = Ist then iv_fetch acc n k i GETS cycle req h else Some (cycle, h)
        | GETX \<Rightarrow> iv_fetch acc n k i PUTX cycle req h
        | PUTS \<Rightarrow> Some (cycle, h)
        | PUTX \<Rightarrow> Some (cycle, h)
        | OFFLOAD \<Rightarrow> None);
     _ \<leftarrow> assert_that (respCycle \<ge> cycle);
     Some (respCycle, h')
   }"

definition iv_processInval :: "nat \<Rightarrow> nat \<Rightarrow> InvType \<Rightarrow> 'm hier \<Rightarrow> 'm hier" where
  "iv_processInval k i ty h = (if cell h k i \<noteq> Ist \<and> ty = INV then set_cell k i Ist h else h)"

definition cc_processAccess ::
  "'m hier access_fun \<Rightarrow> 'm hier inval_fun \<Rightarrow> node \<Rightarrow> nat \<Rightarrow> CacheReq \<Rightarrow> nat option \<Rightarrow> 64 word \<Rightarrow> 'm hier \<Rightarrow>
   (64 word \<times> 'm hier) option" where
  "cc_processAccess acc invf n k req lineId startCycle h =
     (case cc_kind n of
        MESICC \<Rightarrow> mesicc_processAccess acc invf n k req lineId startCycle h
      | MESITerminalCC \<Rightarrow> do {
          i \<leftarrow> lineId;
          bcc_processAccess acc n k i startCycle (rq_flags req) req h
        }
      | IVTerminalCC \<Rightarrow> do {
          i \<leftarrow> lineId;
          iv_processAccess acc n k i startCycle req h
        })"

definition cc_processInv ::
  "'m hier inval_fun \<Rightarrow> node \<Rightarrow> nat \<Rightarrow> InvReq \<Rightarrow> bool \<Rightarrow> nat option \<Rightarrow> 64 word \<Rightarrow> 'm hier \<Rightarrow>
   (64 word \<times> bool \<times> 'm hier) option" where
  "cc_processInv invf n k ireq wb lineId startCycle h =
     (case lineId of
        None \<Rightarrow> Some (startCycle, wb, h)
      | Some i \<Rightarrow>
          (case cc_kind n of
             MESICC \<Rightarrow> do {
               (respCycle, wb1, h1) \<leftarrow> tcc_processInval invf n k (Some i) (ireq\<lparr>inv_cycle := startCycle\<rparr>) wb h;
               (wb2, h2) \<leftarrow> bcc_processInval k i (inv_type ireq) (inv_clflush ireq) wb1 h1;
               Some (respCycle, wb2, h2)
             }
           | MESITerminalCC \<Rightarrow> do {
               (wb2, h2) \<leftarrow> bcc_processInval k i (inv_type ireq) (inv_clflush ireq) wb h;
               Some (startCycle, wb2, h2)
             }
           | IVTerminalCC \<Rightarrow> Some (startCycle, wb, iv_processInval k i (inv_type ireq) h)))"

definition cc_numSharers :: "node \<Rightarrow> nat \<Rightarrow> nat \<Rightarrow> 'm hier \<Rightarrow> 32 word" where
  "cc_numSharers n k i h = (case cc_kind n of MESICC \<Rightarrow> numSharers (dir h k i) | _ \<Rightarrow> 0)"

definition cc_isValid :: "node \<Rightarrow> nat \<Rightarrow> nat \<Rightarrow> 'm hier \<Rightarrow> bool" where
  "cc_isValid n k i h = (case cc_kind n of IVTerminalCC \<Rightarrow> False | _ \<Rightarrow> bcc_isValid k i h)"

definition cc_bypassAccess ::
  "'m hier access_fun \<Rightarrow> node \<Rightarrow> CacheReq \<Rightarrow> 'm hier \<Rightarrow> (64 word \<times> CacheReq \<times> 'm hier) option" where
  "cc_bypassAccess acc n req h =
     (case cc_kind n of
        IVTerminalCC \<Rightarrow> do {
          _ \<leftarrow> assert_that (parents n \<noteq> []);
          acc (parents n ! iv_getParentId (srcId req) (length (parents n))) req h
        }
      | _ \<Rightarrow> bcc_bypassAccess acc n req h)"

end
