(* ===== verification/Cache.thy ===== *)
theory Cache
  imports Coherence
begin

text \<open>
  Caches (\<^verbatim>\<open>src/src/cache.cpp\<close>) put together from a controller, an array and a policy, the
  hierarchy they form, and the memory of fixed latency (\<^verbatim>\<open>src/src/mem_ctrls.cpp\<close>) below it.  The
  functions recurse along the hierarchy, accesses to parents and invalidations to children; the first
  argument bounds the depth, which is the number of levels.  The records for the contention simulation
  are not modelled: the simulated cores have no event recorder.
\<close>

definition set_arr :: "nat \<Rightarrow> SetAssocArray \<Rightarrow> 'm hier \<Rightarrow> 'm hier" where
  "set_arr k a h = h\<lparr>arr := (arr h)(k := a)\<rparr>"

text \<open>Looking a line up, and making room for it when it is missing.\<close>
definition cache_line ::
  "'m hier access_fun \<Rightarrow> 'm hier inval_fun \<Rightarrow> node \<Rightarrow> WritePolicy \<Rightarrow> nat \<Rightarrow> CacheReq \<Rightarrow> 64 word \<Rightarrow> 'm hier \<Rightarrow>
   (nat option \<times> 'm hier) option" where
  "cache_line acc invf n wp k req cycle h = do {
     (lineId, a) \<leftarrow> sa_lookup (arr_hash n) (lineAddr req) (rq_type req = GETS \<or> rq_type req = GETX) (arr h k);
     let h1 = set_arr k a h;
     case lineId of
       Some i \<Rightarrow> Some (Some i, h1)
     | None \<Rightarrow> do {
         alloc \<leftarrow> cc_shouldAllocate n req;
         if \<not> alloc then Some (None, h1)
         else do {
           (i, wbLineAddr, a2) \<leftarrow> sa_preinsert (arr_hash n) (\<lambda>i. cc_isValid n k i h1) (\<lambda>i. cc_numSharers n k i h1)
                                    (lineAddr req) (arr h1 k);
           let h2 = set_arr k a2 h1;
           (_, h3) \<leftarrow> (if wp = WRITETHROUGH then Some (cycle, h2)
                       else cc_processEviction acc invf n k req wbLineAddr i cycle h2);
           a3 \<leftarrow> sa_postinsert (lineAddr req) i (arr h3 k);
           Some (Some i, set_arr k a3 h3)
         }
       }
   }"

definition cache_access_step ::
  "'m hier access_fun \<Rightarrow> 'm hier inval_fun \<Rightarrow> node \<Rightarrow> WritePolicy \<Rightarrow> bool \<Rightarrow> nat \<Rightarrow> CacheReq \<Rightarrow> 'm hier \<Rightarrow>
   (64 word \<times> CacheReq \<times> 'm hier) option" where
  "cache_access_step acc invf n wp nc k req h =
     (if nc \<or> nonCacheable req then cc_bypassAccess acc n req h
      else do {
        (skipAccess, req1) \<leftarrow> cc_startAccess n req h;
        (respCycle, req2, h2) \<leftarrow>
          (if skipAccess then Some (rq_cycle req, req1, h)
           else do {
             let start = rq_cycle req1 + ucast (accLat n);
             (lineId, h1) \<leftarrow> cache_line acc invf n wp k req1 start h;
             (resp, h2) \<leftarrow> cc_processAccess acc invf n k req1 lineId start h1;
             Some (resp, req1\<lparr>l1hit := (resp = start)\<rparr>, h2)
           });
        _ \<leftarrow> assert_that (respCycle \<ge> rq_cycle req);
        Some (respCycle, req2, h2)
      })"

definition finishInvalidate_step ::
  "'m hier inval_fun \<Rightarrow> node \<Rightarrow> nat \<Rightarrow> InvReq \<Rightarrow> bool \<Rightarrow> 'm hier \<Rightarrow> (64 word \<times> bool \<times> 'm hier) option" where
  "finishInvalidate_step invf n k ireq wb h = do {
     (lineId, _) \<leftarrow> sa_lookup (arr_hash n) (inv_lineAddr ireq) False (arr h k);
     cc_processInv invf n k ireq wb lineId (inv_cycle ireq + ucast (invLat n)) h
   }"

text \<open>
  A first-level cache may be a filter cache (\<^verbatim>\<open>src/src/filter_cache.h\<close>), whose filter forgets the
  line before the invalidation; \<open>filter_on\<close> holds when the cache has a filter in use.
\<close>
definition filter_idx :: "node \<Rightarrow> Address \<Rightarrow> nat" where
  "filter_idx n la = unat (ucast (la AND ucast (filter_setMask n)) :: 32 word)"

definition filter_drop :: "node \<Rightarrow> Address \<Rightarrow> FilterEntry list \<Rightarrow> FilterEntry list" where
  "filter_drop n la fs =
     (let idx = filter_idx n la; e = fs ! idx in
      if filter_on n \<and> rdAddr e = la then fs[idx := e\<lparr>wrAddr := - 1, rdAddr := - 1\<rparr>] else fs)"

definition filter_invalidate :: "node \<Rightarrow> nat \<Rightarrow> Address \<Rightarrow> 'm hier \<Rightarrow> 'm hier" where
  "filter_invalidate n k la h = h\<lparr>filt := (filt h)(k := filter_drop n la (filt h k))\<rparr>"

subsection \<open>The hierarchy\<close>

primrec invalidate :: "nat \<Rightarrow> (nat \<Rightarrow> node) \<Rightarrow> 'm hier inval_fun" where
  "invalidate 0 net k ireq wb h = None"
| "invalidate (Suc d) net k ireq wb h = 
     finishInvalidate_step (invalidate d net) (net k) k ireq wb (filter_invalidate (net k) k (inv_lineAddr ireq) h)"

primrec mem_access ::
  "nat \<Rightarrow> (nat \<Rightarrow> node) \<Rightarrow> (nat \<Rightarrow> CacheReq \<Rightarrow> 'm hier \<Rightarrow> (64 word \<times> CacheReq \<times> 'm hier) option) \<Rightarrow> WritePolicy \<Rightarrow> bool \<Rightarrow>
   nat \<Rightarrow> 'm hier access_fun" where
  "mem_access 0 net memf wp nc levels obj req h = None"
| "mem_access (Suc d) net memf wp nc levels obj req h =
     (case obj of
        MemoryObj m \<Rightarrow> memf m req h
      | CacheObj k \<Rightarrow>
          cache_access_step (mem_access d net memf wp nc levels) (invalidate levels net) (net k) wp nc k req h)"

text \<open>The memory of fixed latency.\<close>
definition SimpleMemory_access :: "32 word \<Rightarrow> CacheReq \<Rightarrow> 'm hier \<Rightarrow> (64 word \<times> CacheReq \<times> 'm hier) option" where
  "SimpleMemory_access latency req h = do {
     s \<leftarrow> (case rq_type req of
            PUTS \<Rightarrow> Some Ist
          | PUTX \<Rightarrow> Some Ist
          | GETS \<Rightarrow> Some (if rq_is NOEXCL req then Sst else Est)
          | GETX \<Rightarrow> Some Mst
          | OFFLOAD \<Rightarrow> None);
     let respCycle = rq_cycle req + ucast latency;
     _ \<leftarrow> assert_that (respCycle > rq_cycle req);
     Some (respCycle, req, set_state req s h)
   }"

text \<open>The last-level cache above a cache, and the flush of a line from there down.\<close>
primrec last_level :: "nat \<Rightarrow> (nat \<Rightarrow> node) \<Rightarrow> Address \<Rightarrow> MemObject \<Rightarrow> MemObject \<Rightarrow> MemObject option" where
  "last_level 0 net la obj pre = None"
| "last_level (Suc d) net la obj pre =
     (case obj of
        MemoryObj m \<Rightarrow> Some pre
      | CacheObj k \<Rightarrow> do {
          p \<leftarrow> bcc_parent (net k) la;
          last_level d net la p obj
        })"

definition clflush_all ::
  "nat \<Rightarrow> (nat \<Rightarrow> node) \<Rightarrow> nat \<Rightarrow> InvReq \<Rightarrow> bool \<Rightarrow> 'm hier \<Rightarrow> (64 word \<times> bool \<times> 'm hier) option" where
  "clflush_all levels net k ireq wb h = do {
     p \<leftarrow> bcc_parent (net k) (inv_lineAddr ireq);
     llc \<leftarrow> last_level levels net (inv_lineAddr ireq) p p;
     (case llc of
        MemoryObj m \<Rightarrow> None
      | CacheObj j \<Rightarrow> invalidate levels net j ireq wb h)
   }"

end
