(* ===== verification/Coherence_Invariant.thy ===== *)
theory Coherence_Invariant
  imports Cache
begin

text \<open>
  A two-level hierarchy: first-level caches with terminal controllers over one inclusive cache, over the
  memory of fixed latency.  The invariant \<open>coherent\<close> ties the directory of the shared cache to the states
  of the lines in the caches below.
\<close>

subsection \<open>The hierarchy and its invariant\<close>

definition two_level :: "(nat \<Rightarrow> node) \<Rightarrow> nat \<Rightarrow> bool" where
  "two_level net n \<longleftrightarrow> 0 < n \<and> n \<le> MAX_CACHE_CHILDREN \<and>
     (\<forall>c < n. cc_kind (net c) = MESITerminalCC \<and> parents (net c) = [CacheObj n] \<and> bcc_selfId (net c) = c) \<and>
     cc_kind (net n) = MESICC \<and> parents (net n) = [MemoryObj 0] \<and> \<not> nonInclusiveHack (net n) \<and>
     children (net n) = [0..<n] \<and> cache_children_num (net n) = n"

abbreviation found :: "(nat \<Rightarrow> node) \<Rightarrow> 'm hier \<Rightarrow> nat \<Rightarrow> Address \<Rightarrow> nat option" where
  "found net h k a \<equiv> sa_find (arr_hash (net k)) a (arr h k)"

abbreviation tag :: "'m hier \<Rightarrow> nat \<Rightarrow> nat \<Rightarrow> Address" where
  "tag h k i \<equiv> sa_array (arr h k) ! i"

definition line_state :: "(nat \<Rightarrow> node) \<Rightarrow> 'm hier \<Rightarrow> nat \<Rightarrow> Address \<Rightarrow> MESIState" where
  "line_state net h k a = (case found net h k a of None \<Rightarrow> Ist | Some i \<Rightarrow> cell h k i)"

text \<open>A directory entry against the states of the children and of the line itself.\<close>
definition dir_ok :: "nat \<Rightarrow> (nat \<Rightarrow> MESIState) \<Rightarrow> MESIState \<Rightarrow> Entry \<Rightarrow> bool" where
  "dir_ok n s b e \<longleftrightarrow> (\<forall>c. sharers e c \<longleftrightarrow> c < n \<and> s c \<noteq> Ist) \<and>
     numSharers e = of_nat (card {c. sharers e c}) \<and> (exclusive e \<longrightarrow> card {c. sharers e c} \<le> 1) \<and>
     (\<forall>c. sharers e c \<longrightarrow> (if exclusive e then s c \<in> {Est, Mst} \<and> b \<in> {Est, Mst} else s c = Sst))"

definition arrays_ok :: "(nat \<Rightarrow> node) \<Rightarrow> nat \<Rightarrow> 'm hier \<Rightarrow> bool" where
  "arrays_ok net n h \<longleftrightarrow>
     (\<forall>k \<le> n. sa_ok (arr h k) \<and> sa.indexed (arr_hash (net k)) (\<lambda>i. cell h k i \<noteq> Ist) (arr h k))"

definition coherent :: "(nat \<Rightarrow> node) \<Rightarrow> nat \<Rightarrow> 'm hier \<Rightarrow> bool" where
  "coherent net n h \<longleftrightarrow> arrays_ok net n h \<and>
     (\<forall>j. dir_ok n (\<lambda>c. if cell h n j = Ist then Ist else line_state net h c (tag h n j)) (cell h n j) (dir h n j)) \<and>
     (\<forall>c < n. \<forall>a. line_state net h c a \<noteq> Ist \<longrightarrow> line_state net h n a \<noteq> Ist)"

subsection \<open>Updates of the store\<close>

lemma set_cell_simps [simp]:
  "arr (set_cell k i s h) = arr h" "dir (set_cell k i s h) = dir h" "mem (set_cell k i s h) = mem h"
  "filt (set_cell k i s h) = filt h"
  "cell (set_cell k i s h) = (cell h)(k := (cell h k)(i := s))"
  by (simp_all add: set_cell_def)

lemma upd_dir_simps [simp]:
  "arr (upd_dir k i f h) = arr h" "cell (upd_dir k i f h) = cell h" "mem (upd_dir k i f h) = mem h"
  "filt (upd_dir k i f h) = filt h"
  "dir (upd_dir k i f h) = (dir h)(k := (dir h k)(i := f (dir h k i)))"
  by (simp_all add: upd_dir_def)

lemma set_arr_simps [simp]:
  "cell (set_arr k a h) = cell h" "dir (set_arr k a h) = dir h" "mem (set_arr k a h) = mem h"
  "filt (set_arr k a h) = filt h"
  "arr (set_arr k a h) = (arr h)(k := a)"
  by (simp_all add: set_arr_def)

lemma filter_invalidate_simps [simp]:
  "cell (filter_invalidate m k a h) = cell h" "dir (filter_invalidate m k a h) = dir h"
  "arr (filter_invalidate m k a h) = arr h" "mem (filter_invalidate m k a h) = mem h"
  "filt (filter_invalidate m k a h) = (filt h)(k := filter_drop m a (filt h k))"
  by (simp_all add: filter_invalidate_def)

lemma line_state_found: "found net h k a = Some i \<Longrightarrow> line_state net h k a = cell h k i"
  by (simp add: line_state_def)

lemma line_state_valid: "line_state net h k a \<noteq> Ist \<Longrightarrow> \<exists>i. found net h k a = Some i \<and> cell h k i = line_state net h k a \<and> tag h k i = a"
  using sa.found_tag by (auto simp: line_state_def split: option.splits)

lemma arrays_okD:
  assumes "arrays_ok net n h" and "k \<le> n"
  shows "sa_ok (arr h k)" and "cell h k i \<noteq> Ist \<Longrightarrow> found net h k (tag h k i) = Some i"
  using assms by (auto simp: arrays_ok_def sa.indexed_def)

declare invalidate.simps [simp del] mem_access.simps [simp del]

subsection \<open>Invalidating first-level lines\<close>

definition inv_result :: "InvType \<Rightarrow> MESIState" where
  "inv_result ty = (if ty = INV then Ist else Sst)"

lemma invalidate_terminal:
  assumes "sa_ok (arr h c)" and "cc_kind (net c) = MESITerminalCC" and "found net h c (inv_lineAddr r) = Some i"
    and "cell h c i \<noteq> Ist" and "\<not> inv_clflush r"
    and "inv_type r = INV \<or> inv_type r = INVX \<and> cell h c i \<in> {Est, Mst}"
  shows "invalidate (Suc d) net c r wb h =
    Some (inv_cycle r + ucast (invLat (net c)), wb \<or> cell h c i = Mst,
      set_cell c i (inv_result (inv_type r)) (filter_invalidate (net c) c (inv_lineAddr r) h))"
proof -
  obtain a' where "sa_lookup (arr_hash (net c)) (inv_lineAddr r) False (arr h c) = Some (Some i, a')"
    using sa.lookup_ok [OF assms(1), of "arr_hash (net c)" "inv_lineAddr r" False] assms(3) by auto
  then show ?thesis
    using assms by (auto simp: invalidate.simps finishInvalidate_step_def cc_processInv_def bcc_processInval_def Let_def inv_result_def)
qed

text \<open>The lines of address \<open>a\<close> in the caches \<open>S\<close> lose their state.\<close>
definition inval_cells :: "(nat \<Rightarrow> node) \<Rightarrow> Address \<Rightarrow> InvType \<Rightarrow> nat set \<Rightarrow> 'm hier \<Rightarrow> 'm hier" where
  "inval_cells net a ty S h =
     h\<lparr>cell := (\<lambda>k i. if k \<in> S \<and> found net h k a = Some i then inv_result ty else cell h k i),
       filt := (\<lambda>k. if k \<in> S then filter_drop (net k) a (filt h k) else filt h k)\<rparr>"

lemma inval_cells_simps [simp]:
  "arr (inval_cells net a ty S h) = arr h" "dir (inval_cells net a ty S h) = dir h"
  "inval_cells net a ty {} h = h"
  "filt (inval_cells net a ty S h) = (\<lambda>k. if k \<in> S then filter_drop (net k) a (filt h k) else filt h k)"
  by (simp_all add: inval_cells_def)

lemma inval_cells_cell:
  "cell (inval_cells net a ty S h) k i = (if k \<in> S \<and> found net h k a = Some i then inv_result ty else cell h k i)"
  by (simp add: inval_cells_def)

definition drop_dir :: "nat \<Rightarrow> nat \<Rightarrow> InvType \<Rightarrow> nat set \<Rightarrow> 'm hier \<Rightarrow> 'm hier" where
  "drop_dir k j ty S h = upd_dir k j (\<lambda>e. if ty = INV then e\<lparr>sharers := (\<lambda>c. sharers e c \<and> c \<notin> S)\<rparr> else e) h"

lemma hier_eqI: "cell g = cell h \<Longrightarrow> dir g = dir h \<Longrightarrow> arr g = arr h \<Longrightarrow> filt g = filt h \<Longrightarrow>
  mem g = mem h \<Longrightarrow> g = (h :: 'm hier)"
  by simp

lemma inval_sharer_step:
  assumes net: "two_level net n" and c: "c < n" and sh: "sharers (dir h n j) c"
    and ok: "sa_ok (arr h c)" and i: "found net h c (inv_lineAddr r) = Some i" "cell h c i \<noteq> Ist"
    and ty: "inv_type r = INV \<or> inv_type r = INVX \<and> cell h c i \<in> {Est, Mst}" "\<not> inv_clflush r"
    and t: "unat (inv_cycle r) < 2 ^ 62" "later (inv_cycle r) (2 ^ 33) m"
  shows "\<exists>m'. inval_sharer (invalidate (Suc d) net) (net n) n j r c (s, m, wb, h) =
      Some (s + 1, m', wb \<or> line_state net h c (inv_lineAddr r) = Mst,
            drop_dir n j (inv_type r) {c} (inval_cells net (inv_lineAddr r) (inv_type r) {c} h)) \<and>
    later (inv_cycle r) (2 ^ 33) m'"
proof -
  have kind: "cc_kind (net c) = MESITerminalCC" "children (net n) ! c = c" using net c by (auto simp: two_level_def)
  let ?h = "set_cell c i (inv_result (inv_type r)) (filter_invalidate (net c) c (inv_lineAddr r) h)"
  have h': "(if inv_type r = INV then upd_dir n j (\<lambda>e. e\<lparr>sharers := (sharers e)(c := False)\<rparr>) ?h else ?h) =
      drop_dir n j (inv_type r) {c} (inval_cells net (inv_lineAddr r) (inv_type r) {c} h)"
    using i(1) by (auto simp: drop_dir_def inval_cells_def upd_dir_def set_cell_def filter_invalidate_def fun_eq_iff)
  let ?m = "max (inv_cycle r + ucast (invLat (net c)) + ucast (childrenRTTs (net n) ! c)) m"
  have t1: "later (inv_cycle r) (2 ^ 32) (inv_cycle r + ucast (invLat (net c)))" by (rule later_add32) (use t in simp)
  then have "unat (inv_cycle r + ucast (invLat (net c))) < 2 ^ 63" using t by (simp add: later_def)
  from later_trans [OF t1 later_add32 [OF this]]
  have "later (inv_cycle r) (2 ^ 33) (inv_cycle r + ucast (invLat (net c)) + ucast (childrenRTTs (net n) ! c))"
    by simp
  then have "later (inv_cycle r) (2 ^ 33) ?m" using t(2) by (rule later_max)
  moreover have "inval_sharer (invalidate (Suc d) net) (net n) n j r c (s, m, wb, h) =
      Some (s + 1, ?m, wb \<or> line_state net h c (inv_lineAddr r) = Mst,
        drop_dir n j (inv_type r) {c} (inval_cells net (inv_lineAddr r) (inv_type r) {c} h))"
    unfolding inval_sharer_def inval_child_def h' [symmetric]
    using invalidate_terminal [of h c net r i, OF ok kind(1) i ty(2,1), of d wb] sh kind(2) i(1)
    by (simp add: line_state_found)
  ultimately show ?thesis by blast
qed

lemma inval_cells_step:
  assumes "c \<notin> S"
  shows "drop_dir n j ty S (inval_cells net a ty S (drop_dir n j ty {c} (inval_cells net a ty {c} h))) =
    drop_dir n j ty (insert c S) (inval_cells net a ty (insert c S) h)"
  by (rule hier_eqI) (use assms in \<open>auto simp: drop_dir_def inval_cells_def upd_dir_def fun_eq_iff\<close>)

lemma drop_dir_simps [simp]:
  "arr (drop_dir k j ty S h) = arr h" "cell (drop_dir k j ty S h) = cell h" "mem (drop_dir k j ty S h) = mem h"
  "filt (drop_dir k j ty S h) = filt h"
  by (simp_all add: drop_dir_def)

lemma line_state_eqI:
  "arr g k = arr h k \<Longrightarrow> (\<And>i. found net h k a = Some i \<Longrightarrow> cell g k i = cell h k i) \<Longrightarrow>
   line_state net g k a = line_state net h k a"
  by (auto simp: line_state_def split: option.split)

text \<open>The loop over the children: exactly the sharers among them are invalidated.\<close>
lemma inval_loop:
  assumes net: "two_level net n" and cs: "distinct cs" "set cs \<subseteq> {..<n}"
    and ok: "\<forall>c < n. sa_ok (arr h c)"
    and sh: "\<forall>c \<in> set cs. sharers (dir h n j) c \<longrightarrow> line_state net h c (inv_lineAddr r) \<noteq> Ist \<and>
      (inv_type r = INV \<or> inv_type r = INVX \<and> line_state net h c (inv_lineAddr r) \<in> {Est, Mst})"
    and cl: "\<not> inv_clflush r" and t: "unat (inv_cycle r) < 2 ^ 62" "later (inv_cycle r) (2 ^ 33) m"
    and S: "S = {c \<in> set cs. sharers (dir h n j) c}"
  shows "\<exists>m'. fold_opt (inval_sharer (invalidate (Suc d) net) (net n) n j r) cs (s, m, wb, h) =
      Some (s + of_nat (card S), m', wb \<or> (\<exists>c \<in> S. line_state net h c (inv_lineAddr r) = Mst),
            drop_dir n j (inv_type r) S (inval_cells net (inv_lineAddr r) (inv_type r) S h)) \<and>
    later (inv_cycle r) (2 ^ 33) m'"
  using cs ok sh t(2) S
proof (induction cs arbitrary: s m wb h S)
  case Nil
  then show ?case by (simp add: drop_dir_def upd_dir_def cong: if_cong)
next
  case (Cons c cs)
  let ?a = "inv_lineAddr r"
  show ?case
  proof (cases "sharers (dir h n j) c")
    case False
    then have "inval_sharer (invalidate (Suc d) net) (net n) n j r c (s, m, wb, h) = Some (s, m, wb, h)"
      by (simp add: inval_sharer_def)
    moreover have "S = {c \<in> set cs. sharers (dir h n j) c}" using Cons.prems(6) False by auto
    ultimately show ?thesis using Cons.IH [OF _ _ Cons.prems(3) _ Cons.prems(5), of S s wb] Cons.prems(1,2,4)
      by simp
  next
    case True
    define T where "T = {c \<in> set cs. sharers (dir h n j) c}"
    have T: "S = insert c T" "c \<notin> T" "finite T" using Cons.prems(1,6) True by (auto simp: T_def)
    have v: "line_state net h c ?a \<noteq> Ist" using Cons.prems(4) True by simp
    then obtain i where i: "found net h c ?a = Some i" "cell h c i = line_state net h c ?a"
      using line_state_valid by blast
    let ?h = "drop_dir n j (inv_type r) {c} (inval_cells net ?a (inv_type r) {c} h)"
    obtain m1 where m1: "inval_sharer (invalidate (Suc d) net) (net n) n j r c (s, m, wb, h) =
        Some (s + 1, m1, wb \<or> line_state net h c ?a = Mst, ?h)" "later (inv_cycle r) (2 ^ 33) m1"
      using inval_sharer_step [OF net _ True, of r i m d s wb] i v Cons.prems cl t(1) True by fastforce
    have st: "line_state net ?h c' ?a = line_state net h c' ?a" if "c' \<in> set cs" for c'
      using that Cons.prems(1) by (intro line_state_eqI) (auto simp: inval_cells_cell)
    have dir': "sharers (dir ?h n j) c' = sharers (dir h n j) c'" if "c' \<in> set cs" for c'
      using that Cons.prems(1) by (auto simp: drop_dir_def)
    have "T = {c \<in> set cs. sharers (dir ?h n j) c}" using dir' by (auto simp: T_def)
    moreover have "\<forall>c' \<in> set cs. sharers (dir ?h n j) c' \<longrightarrow> line_state net ?h c' ?a \<noteq> Ist \<and>
      (inv_type r = INV \<or> inv_type r = INVX \<and> line_state net ?h c' ?a \<in> {Est, Mst})"
      using Cons.prems(4) st dir' by simp
    ultimately obtain m2 where "fold_opt (inval_sharer (invalidate (Suc d) net) (net n) n j r) cs
        (s + 1, m1, wb \<or> line_state net h c ?a = Mst, ?h) =
        Some (s + 1 + of_nat (card T), m2, (wb \<or> line_state net h c ?a = Mst) \<or> (\<exists>c \<in> T. line_state net ?h c ?a = Mst),
              drop_dir n j (inv_type r) T (inval_cells net ?a (inv_type r) T ?h))" "later (inv_cycle r) (2 ^ 33) m2"
      using Cons.IH [of ?h m1 T "s + 1" "wb \<or> line_state net h c ?a = Mst"] Cons.prems m1(2) by fastforce
    moreover have "(\<exists>c \<in> T. line_state net ?h c ?a = Mst) = (\<exists>c \<in> T. line_state net h c ?a = Mst)"
      using st by (auto simp: T_def)
    moreover have "s + 1 + of_nat (card T) = s + of_nat (card S)" using T by (simp add: ac_simps)
    moreover have "((wb \<or> line_state net h c ?a = Mst) \<or> (\<exists>c \<in> T. line_state net h c ?a = Mst)) =
        (wb \<or> (\<exists>c \<in> S. line_state net h c ?a = Mst))" using T(1) by auto
    ultimately show ?thesis unfolding inval_cells_step [OF T(2)] T(1) [symmetric] using m1(1) by auto
  qed
qed

lemma card_sharers:
  assumes "two_level net n" and "\<forall>c. sharers e c \<longrightarrow> c < n" and "numSharers e = of_nat (card {c. sharers e c})"
  shows "finite {c. sharers e c}" and "k < 2 ^ 32 \<Longrightarrow> numSharers e = of_nat k \<longleftrightarrow> card {c. sharers e c} = k"
proof -
  have sub: "{c. sharers e c} \<subseteq> {..<n}" using assms(2) by auto
  then show f: "finite {c. sharers e c}" by (rule finite_subset) simp
  have "card {c. sharers e c} \<le> n" using card_mono [OF _ sub] by simp
  then have "card {c. sharers e c} < 2 ^ 32" using assms(1) by (simp add: two_level_def MAX_CACHE_CHILDREN_def)
  then show "numSharers e = of_nat k \<longleftrightarrow> card {c. sharers e c} = k" if "k < 2 ^ 32"
    using that assms(3) by (simp add: of_nat_eq_iff word_of_nat_eq_iff take_bit_nat_eq_self)
qed

lemma send_INV:
  assumes net: "two_level net n" and ok: "\<forall>c < n. sa_ok (arr h c)"
    and sh: "\<forall>c. sharers (dir h n j) c \<longrightarrow> c < n \<and> line_state net h c (inv_lineAddr r) \<noteq> Ist"
    and num: "numSharers (dir h n j) = of_nat (card {c. sharers (dir h n j) c})"
    and r: "inv_type r = INV" "\<not> inv_clflush r" "unat (inv_cycle r) < 2 ^ 62"
  shows "\<exists>m. tcc_sendInvalidates (invalidate (Suc d) net) (net n) n (Some j) r wb h =
      Some (m, wb \<or> (\<exists>c. sharers (dir h n j) c \<and> line_state net h c (inv_lineAddr r) = Mst),
        upd_dir n j (\<lambda>e. e\<lparr>sharers := (\<lambda>_. False), numSharers := 0\<rparr>)
          (inval_cells net (inv_lineAddr r) INV {c. sharers (dir h n j) c} h)) \<and> later (inv_cycle r) (2 ^ 33) m"
proof -
  let ?S = "{c. sharers (dir h n j) c}"
  have lt: "\<forall>c. sharers (dir h n j) c \<longrightarrow> c < n" using sh by simp
  note card = card_sharers [OF net lt num]
  show ?thesis
  proof (cases "?S = {}")
    case True
    then have "numSharers (dir h n j) = 0" using num by simp
    moreover from this True have "dir h n j = (dir h n j)\<lparr>sharers := (\<lambda>_. False), numSharers := 0\<rparr>"
      by (simp add: fun_eq_iff)
    ultimately show ?thesis using True r
      by (auto simp: tcc_sendInvalidates_def isEmpty_def upd_dir_def fun_upd_idem)
  next
    case False
    have "card ?S \<noteq> 0" using False card(1) by simp
    then have "\<not> isEmpty (dir h n j)" using card(2) [of 0] by (simp add: isEmpty_def)
    moreover have S: "?S = {c \<in> set [0..<n]. sharers (dir h n j) c}" using lt by auto
    have "\<exists>m'. fold_opt (inval_sharer (invalidate (Suc d) net) (net n) n j r) [0..<n] (0, inv_cycle r, wb, h) =
      Some (0 + of_nat (card ?S), m', wb \<or> (\<exists>c \<in> ?S. line_state net h c (inv_lineAddr r) = Mst),
            drop_dir n j (inv_type r) ?S (inval_cells net (inv_lineAddr r) (inv_type r) ?S h)) \<and>
      later (inv_cycle r) (2 ^ 33) m'"
      by (rule inval_loop [OF net _ _ ok _ r(2,3) _ S]) (use sh r in auto)
    then obtain m where "fold_opt (inval_sharer (invalidate (Suc d) net) (net n) n j r) [0..<n] (0, inv_cycle r, wb, h) =
      Some (of_nat (card ?S), m, wb \<or> (\<exists>c. sharers (dir h n j) c \<and> line_state net h c (inv_lineAddr r) = Mst),
            drop_dir n j INV ?S (inval_cells net (inv_lineAddr r) INV ?S h))" "later (inv_cycle r) (2 ^ 33) m"
      using r(1) by auto
    moreover have "cache_children_num (net n) = n" using net by (simp add: two_level_def)
    moreover have "upd_dir n j (\<lambda>e. e\<lparr>numSharers := 0\<rparr>) (drop_dir n j INV ?S g) =
        upd_dir n j (\<lambda>e. e\<lparr>sharers := (\<lambda>_. False), numSharers := 0\<rparr>) g" if "dir g = dir h" for g
      using that by (auto simp: drop_dir_def upd_dir_def fun_eq_iff)
    ultimately show ?thesis using r(1) num
      by (simp add: tcc_sendInvalidates_def) (simp add: drop_dir_def)
  qed
qed

lemma send_INVX:
  assumes net: "two_level net n" and ok: "\<forall>c < n. sa_ok (arr h c)"
    and sh: "\<forall>c. sharers (dir h n j) c \<longrightarrow> c < n \<and> line_state net h c (inv_lineAddr r) \<in> {Est, Mst}"
    and num: "numSharers (dir h n j) = of_nat (card {c. sharers (dir h n j) c})" and ex: "isExclusive (dir h n j)"
    and r: "inv_type r = INVX" "\<not> inv_clflush r" "unat (inv_cycle r) < 2 ^ 62"
  shows "\<exists>m. tcc_sendInvalidates (invalidate (Suc d) net) (net n) n (Some j) r wb h =
      Some (m, wb \<or> (\<exists>c. sharers (dir h n j) c \<and> line_state net h c (inv_lineAddr r) = Mst),
        upd_dir n j (\<lambda>e. e\<lparr>exclusive := False\<rparr>)
          (inval_cells net (inv_lineAddr r) INVX {c. sharers (dir h n j) c} h)) \<and> later (inv_cycle r) (2 ^ 33) m"
proof -
  let ?S = "{c. sharers (dir h n j) c}"
  have lt: "\<forall>c. sharers (dir h n j) c \<longrightarrow> c < n" using sh by simp
  have S: "?S = {c \<in> set [0..<n]. sharers (dir h n j) c}" using lt by auto
  have "\<exists>m'. fold_opt (inval_sharer (invalidate (Suc d) net) (net n) n j r) [0..<n] (0, inv_cycle r, wb, h) =
      Some (0 + of_nat (card ?S), m', wb \<or> (\<exists>c \<in> ?S. line_state net h c (inv_lineAddr r) = Mst),
            drop_dir n j (inv_type r) ?S (inval_cells net (inv_lineAddr r) (inv_type r) ?S h)) \<and>
      later (inv_cycle r) (2 ^ 33) m'"
    by (rule inval_loop [OF net _ _ ok _ r(2,3) _ S]) (use sh r in auto)
  then obtain m where "fold_opt (inval_sharer (invalidate (Suc d) net) (net n) n j r) [0..<n] (0, inv_cycle r, wb, h) =
      Some (of_nat (card ?S), m, wb \<or> (\<exists>c. sharers (dir h n j) c \<and> line_state net h c (inv_lineAddr r) = Mst),
            inval_cells net (inv_lineAddr r) INVX ?S h)" "later (inv_cycle r) (2 ^ 33) m"
    using r(1) by (auto simp: drop_dir_def upd_dir_def)
  moreover have "cache_children_num (net n) = n" using net by (simp add: two_level_def)
  ultimately show ?thesis using r(1) num ex
    by (simp add: tcc_sendInvalidates_def isExclusive_def isEmpty_def)
qed

subsection \<open>Preserving the invariant\<close>

lemma dir_ok_cong:
  assumes "\<And>c. c < n \<Longrightarrow> s c = s' c"
  shows "dir_ok n s b e = dir_ok n s' b e"
proof -
  have *: "(c < n \<and> s c \<noteq> Ist) = (c < n \<and> s' c \<noteq> Ist)" for c using assms by auto
  show ?thesis unfolding dir_ok_def * by (intro conj_cong refl) (metis assms)
qed

lemma coherentD:
  assumes "coherent net n h"
  shows "arrays_ok net n h" "\<forall>c < n. sa_ok (arr h c)" "sa_ok (arr h n)"
    and "c < n \<Longrightarrow> line_state net h c a \<noteq> Ist \<Longrightarrow> line_state net h n a \<noteq> Ist"
    and "dir_ok n (\<lambda>c. if cell h n j = Ist then Ist else line_state net h c (tag h n j)) (cell h n j) (dir h n j)"
  using assms by (auto simp: coherent_def arrays_ok_def)

lemma found_inj: "found net h k a = Some i \<Longrightarrow> found net h k b = Some i \<Longrightarrow> a = b"
  using sa.found_tag by metis

text \<open>A change of the lines of one address, that the shared cache has in line \<open>j\<close>.\<close>
lemma coherent_update:
  assumes coh: "coherent net n h" and j: "found net h n a = Some j" and arr: "arr g = arr h"
    and low: "\<And>c i. c < n \<Longrightarrow> found net h c a \<noteq> Some i \<Longrightarrow> cell g c i = cell h c i"
    and top: "\<And>i. i \<noteq> j \<Longrightarrow> cell g n i = cell h n i" "\<And>i. i \<noteq> j \<Longrightarrow> dir g n i = dir h n i"
    and new: "dir_ok n (\<lambda>c. if cell g n j = Ist then Ist else line_state net g c a) (cell g n j) (dir g n j)"
    and incl: "\<And>c. cell g n j = Ist \<Longrightarrow> c < n \<Longrightarrow> line_state net g c a = Ist"
  shows "coherent net n g"
proof -
  note A = coherentD(1) [OF coh]
  have tj: "tag h n j = a" using sa.found_tag [OF j] .
  have other: "found net h c a \<noteq> Some i" if "b \<noteq> a" "found net h c b = Some i" for c b i
    using that found_inj by blast
  have same: "line_state net g c b = line_state net h c b" if "c < n" "b \<noteq> a" for c b
    by (rule line_state_eqI) (simp add: arr, rule low [OF that(1) other [OF that(2)]])
  have "arrays_ok net n g" unfolding arrays_ok_def sa.indexed_def
  proof (intro allI impI conjI)
    fix k i assume k: "k \<le> n"
    show "sa_ok (arr g k)" using arrays_okD(1) [OF A k] arr by simp
    assume v: "cell g k i \<noteq> Ist"
    show "found net g k (tag g k i) = Some i"
    proof (cases "found net h k a = Some i")
      case True
      then show ?thesis using sa.found_tag [OF True] arr by simp
    next
      case False
      then have "cell g k i = cell h k i" using k low [of k i] top(1) [of i] j by (cases "k = n") auto
      then show ?thesis using v arrays_okD(2) [OF A k] arr by simp
    qed
  qed
  moreover have "dir_ok n (\<lambda>c. if cell g n i = Ist then Ist else line_state net g c (tag g n i)) (cell g n i) (dir g n i)" for i
  proof (cases "i = j")
    case True
    then show ?thesis using new by (simp add: arr tj cong: if_cong)
  next
    case False
    have eq: "cell g n i = cell h n i" "dir g n i = dir h n i" using top False by simp_all
    have "(if cell h n i = Ist then Ist else line_state net g c (tag h n i)) =
          (if cell h n i = Ist then Ist else line_state net h c (tag h n i))" if "c < n" for c
    proof (cases "cell h n i = Ist")
      case v: False
      then have "found net h n (tag h n i) = Some i" using arrays_okD(2) [OF A] by simp
      then have "tag h n i \<noteq> a" using j False by auto
      then show ?thesis using same [OF that] by simp
    qed simp
    then show ?thesis using coherentD(5) [OF coh, of i] unfolding eq arr by (subst dir_ok_cong) auto
  qed
  moreover have "line_state net g n b \<noteq> Ist" if "c < n" "line_state net g c b \<noteq> Ist" for c b
  proof (cases "b = a")
    case True
    then show ?thesis using that incl j arr by (auto simp: line_state_def)
  next
    case False
    then have "line_state net h n b \<noteq> Ist" using that same coherentD(4) [OF coh] by metis
    moreover have "line_state net g n b = line_state net h n b"
      by (rule line_state_eqI, simp add: arr, rule top(1)) (use other [OF False] j in blast)
    ultimately show ?thesis by simp
  qed
  ultimately show ?thesis by (auto simp: coherent_def)
qed

text \<open>Changes of the arrays that keep the valid lines.\<close>
lemma coherent_arr:
  assumes coh: "coherent net n h" and same: "cell g = cell h" "dir g = dir h"
    and ok: "\<And>k. k \<le> n \<Longrightarrow> sa_ok (arr g k)"
    and tags: "\<And>k i. k \<le> n \<Longrightarrow> cell h k i \<noteq> Ist \<Longrightarrow> tag g k i = tag h k i \<and> found net g k (tag h k i) = Some i"
    and st: "\<And>k a. k \<le> n \<Longrightarrow> line_state net g k a = line_state net h k a"
  shows "coherent net n g"
proof -
  have "arrays_ok net n g" using ok tags by (auto simp: arrays_ok_def sa.indexed_def same)
  moreover have "dir_ok n (\<lambda>c. if cell g n j = Ist then Ist else line_state net g c (tag g n j)) (cell g n j) (dir g n j)" for j
    using coherentD(5) [OF coh, of j] tags [of n j] st unfolding same by (subst dir_ok_cong) auto
  moreover have "line_state net g n a \<noteq> Ist" if "c < n" "line_state net g c a \<noteq> Ist" for c a
    using that st [of c] st [of n] coherentD(4) [OF coh] by simp
  ultimately show ?thesis by (auto simp: coherent_def)
qed

lemma found_set_arr:
  "found net (set_arr k a h) k' x = (if k' = k then sa_find (arr_hash (net k)) x a else found net h k' x)"
  by simp

lemma lookup_coherent:
  assumes coh: "coherent net n h" and k: "k \<le> n"
  shows "\<exists>a. sa_lookup (arr_hash (net k)) x upd (arr h k) = Some (found net h k x, a) \<and>
    coherent net n (set_arr k a h) \<and> (\<forall>k' y. found net (set_arr k a h) k' y = found net h k' y) \<and>
    (\<forall>k' y. line_state net (set_arr k a h) k' y = line_state net h k' y) \<and> (\<forall>k' i. tag (set_arr k a h) k' i = tag h k' i)"
proof -
  note A = coherentD(1) [OF coh]
  obtain a where a: "sa_lookup (arr_hash (net k)) x upd (arr h k) = Some (found net h k x, a)" "sa_ok a"
      "(!) (sa_array a) = (!) (sa_array (arr h k))"
      "\<forall>y. sa_find (arr_hash (net k)) y a = found net h k y"
    using sa.lookup_ok [OF arrays_okD(1) [OF A k], of "arr_hash (net k)" x upd] by blast
  have f: "found net (set_arr k a h) k' y = found net h k' y" for k' y using a(4) by simp
  have ls: "line_state net (set_arr k a h) k' y = line_state net h k' y" for k' y
    using f [of k' y] by (simp add: line_state_def cong: option.case_cong)
  have tg: "tag (set_arr k a h) k' i = tag h k' i" for k' i using a(3) by (simp add: fun_eq_iff)
  have "coherent net n (set_arr k a h)"
    by (rule coherent_arr [OF coh]) (use a(2) arrays_okD [OF A] f ls tg in auto)
  then show ?thesis using a(1) f ls tg by blast
qed

text \<open>An insertion over an invalid line.\<close>
lemma postinsert_coherent:
  assumes coh: "coherent net n h" and k: "k \<le> n" and c: "cell h k c = Ist"
    and ready: "sa_ready (arr_hash (net k)) x c (arr h k)"
  shows "\<exists>a. sa_postinsert x c (arr h k) = Some a \<and> coherent net n (set_arr k a h) \<and>
    found net (set_arr k a h) k x = Some c \<and>
    (\<forall>k' y. line_state net (set_arr k a h) k' y = line_state net h k' y)"
proof -
  note A = coherentD(1) [OF coh]
  let ?f = "arr_hash (net k)" and ?V = "\<lambda>i. cell h k i \<noteq> Ist"
  have ok: "sa_ok (arr h k)" "sa.indexed ?f ?V (arr h k)" using A k by (auto simp: arrays_ok_def)
  have x: "found net h k x = None" using ready by (simp add: sa_ready_def)
  obtain a where a: "sa_postinsert x c (arr h k) = Some a" "sa_ok a" "(!) (sa_array a) = ((!) (sa_array (arr h k)))(c := x)"
      "sa_find ?f x a = Some c" "\<forall>y i. y \<noteq> x \<longrightarrow> found net h k y = Some i \<longrightarrow> i \<noteq> c \<longrightarrow> sa_find ?f y a = Some i"
    using sa.postinsert_ok [OF ok(1) ready] by blast
  have idx: "sa.indexed ?f (\<lambda>i. ?V i \<or> i = c) a" by (rule sa.indexed_postinsert [OF ok(1) ready ok(2) _ a(1) x]) (simp add: c)
  have ls: "line_state net (set_arr k a h) k' y = line_state net h k' y" for k' y
  proof (cases "k' = k \<and> y \<noteq> x")
    case True
    show ?thesis
    proof (cases "line_state net h k y = Ist")
      case False
      then obtain i where i: "found net h k y = Some i" "cell h k i \<noteq> Ist" using line_state_valid by metis
      then have "i \<noteq> c" using c by auto
      then show ?thesis using True a(5) i by (simp add: line_state_def)
    next
      case inv: True
      have "cell h k i = Ist" if i: "sa_find ?f y a = Some i" for i
      proof (rule ccontr)
        assume v: "cell h k i \<noteq> Ist"
        have "sa_array a ! i = y" using sa.found_tag [OF i] .
        moreover have "i \<noteq> c" using v c by auto
        ultimately have "tag h k i = y" using a(3) by (simp add: fun_eq_iff)
        then have "found net h k y = Some i" using arrays_okD(2) [OF A k v] by simp
        then show False using inv v by (simp add: line_state_def)
      qed
      then show ?thesis using True inv by (simp add: line_state_def split: option.split)
    qed
  next
    case False
    then show ?thesis using a(4) c x by (auto simp: line_state_def cong: option.case_cong)
  qed
  have "coherent net n (set_arr k a h)"
  proof (rule coherent_arr [OF coh])
    fix k' i assume k': "k' \<le> n" "cell h k' i \<noteq> Ist"
    show "tag (set_arr k a h) k' i = tag h k' i \<and> found net (set_arr k a h) k' (tag h k' i) = Some i"
    proof (cases "k' = k")
      case True
      then have "i \<noteq> c" using k' c by auto
      then have t: "sa_array a ! i = tag h k i" using a(3) by (simp add: fun_eq_iff)
      then show ?thesis using True idx k' by (auto simp: sa.indexed_def)
    qed (use arrays_okD(2) [OF A k'] in simp)
  qed (use a(2) arrays_okD(1) [OF A] ls in auto)
  then show ?thesis using a(1,4) ls by auto
qed

end
