(* ===== verification/Coherence_Shared.thy ===== *)
theory Coherence_Shared
  imports Coherence_Invariant
begin

text \<open>
  The shared cache of the two-level hierarchy: finding a line or making room for it, fetching it from the
  memory, and what an update of a directory entry must satisfy.
\<close>

subsection \<open>The memory and the parents\<close>

lemma bcc_getParentId_1 [simp]: "bcc_getParentId la (Suc 0) = 0"
  by (simp add: bcc_getParentId_def)

definition mem_state :: "CacheReq \<Rightarrow> MESIState" where
  "mem_state req = (case rq_type req of GETS \<Rightarrow> if rq_is NOEXCL req then Sst else Est | GETX \<Rightarrow> Mst | _ \<Rightarrow> Ist)"

text \<open>The accesses that reach the memory.\<close>
definition is_memory :: "'m hier access_fun \<Rightarrow> bool" where
  "is_memory acc \<longleftrightarrow> (\<forall>req h. rq_type req \<noteq> OFFLOAD \<longrightarrow> unat (rq_cycle req) < 2 ^ 63 \<longrightarrow>
     (\<exists>r. acc (MemoryObj 0) req h = Some (r, req, set_state req (mem_state req) h)))"

lemma is_memoryD:
  "is_memory acc \<Longrightarrow> rq_type req \<noteq> OFFLOAD \<Longrightarrow> unat (rq_cycle req) < 2 ^ 63 \<Longrightarrow>
   \<exists>r. acc (MemoryObj 0) req h = Some (r, req, set_state req (mem_state req) h)"
  by (simp add: is_memory_def)

lemma SimpleMemory_ok: "0 < lat \<Longrightarrow> is_memory (mem_access (Suc d) net (\<lambda>_. SimpleMemory_access lat) wp nc levels)"
proof -
  have "x < x + ucast lat" if "0 < lat" "unat (x :: 64 word) < 2 ^ 63" for x
    using that add32(1) [OF that(2), of lat] by (simp add: word_less_nat_alt unat_gt_0 word_gt_0)
  then show ?thesis if "0 < lat" using that
    by (auto simp: is_memory_def mem_access.simps SimpleMemory_access_def mem_state_def split: AccessType.split)
qed

lemma parents_two_level:
  assumes "two_level net n"
  shows "bcc_parent (net n) la = Some (MemoryObj 0)" "c < n \<Longrightarrow> bcc_parent (net c) la = Some (CacheObj n)"
  using assms by (auto simp: two_level_def bcc_parent_def)

lemma dir_ok_empty: "dir_ok n (\<lambda>_. Ist) b e \<longleftrightarrow> (\<forall>c. \<not> sharers e c) \<and> numSharers e = 0"
proof (cases "\<forall>c. \<not> sharers e c")
  case True
  then have "Collect (sharers e) = {}" by simp
  then show ?thesis using True by (simp add: dir_ok_def)
qed (auto simp: dir_ok_def)

lemma dir_okD:
  assumes "dir_ok n s b e"
  shows "sharers e c \<longleftrightarrow> c < n \<and> s c \<noteq> Ist" "numSharers e = of_nat (card {c. sharers e c})"
    "exclusive e \<Longrightarrow> card {c. sharers e c} \<le> 1" "sharers e c \<Longrightarrow> exclusive e \<Longrightarrow> s c \<in> {Est, Mst} \<and> b \<in> {Est, Mst}"
    "sharers e c \<Longrightarrow> \<not> exclusive e \<Longrightarrow> s c = Sst"
  using assms unfolding dir_ok_def by metis+

subsection \<open>Evictions from the shared cache\<close>

lemma shared_evict:
  assumes net: "two_level net n" and coh: "coherent net n h" and mem: "is_memory acc"
    and t: "unat cyc < 2 ^ 62"
  shows "\<exists>r g. cc_processEviction acc (invalidate (Suc d) net) (net n) n trigger (tag h n v) v cyc h = Some (r, g) \<and>
    coherent net n g \<and> arr g = arr h \<and> cell g n v = Ist \<and>
    (\<forall>c i. c < n \<longrightarrow> cell g c i = cell h c i \<or> cell g c i = Ist)"
proof -
  let ?a = "tag h n v" and ?e = "dir h n v"
  let ?r = "\<lparr>inv_lineAddr = ?a, inv_type = INV, inv_cycle = cyc, inv_srcId = srcId trigger, inv_clflush = False\<rparr>"
  have kind: "cc_kind (net n) = MESICC" "\<not> nonInclusiveHack (net n)" using net by (simp_all add: two_level_def)
  note D = dir_okD [OF coherentD(5) [OF coh, of v]]
  have sh: "\<forall>c. sharers ?e c \<longrightarrow> c < n \<and> line_state net h c (inv_lineAddr ?r) \<noteq> Ist"
    using D(1) by (auto split: if_splits)
  define wb where "wb \<longleftrightarrow> (\<exists>c. sharers ?e c \<and> line_state net h c ?a = Mst)"
  define h1 where "h1 = upd_dir n v (\<lambda>e. e\<lparr>sharers := (\<lambda>_. False), numSharers := 0\<rparr>) (inval_cells net ?a INV {c. sharers ?e c} h)"
  obtain m where m: "tcc_processEviction (invalidate (Suc d) net) (net n) n ?a v cyc (srcId trigger) h = Some (m, wb, h1)"
      "later cyc (2 ^ 33) m"
    using send_INV [OF net coherentD(2) [OF coh] sh D(2), of d False] kind t
    by (auto simp: tcc_processEviction_def wb_def h1_def)
  have wbD: "cell h n v = Mst \<or> cell h n v = Est" if wb
    using that D(4,5) by (fastforce simp: wb_def split: if_splits)
  have nn: "cell h1 n = cell h n" using D(1) by (auto simp: h1_def inval_cells_cell fun_eq_iff)
  show ?thesis
  proof (cases "cell h n v = Ist")
    case True
    then have ns: "\<forall>c. \<not> sharers ?e c" "numSharers ?e = 0" using coherentD(5) [OF coh, of v] by (auto simp: dir_ok_empty)
    then have "{c. sharers ?e c} = {}" "?e\<lparr>sharers := (\<lambda>_. False), numSharers := 0\<rparr> = ?e" by (auto simp: fun_eq_iff)
    then have "h1 = h" by (simp add: h1_def upd_dir_def)
    moreover have "\<not> wb" using ns by (simp add: wb_def)
    ultimately show ?thesis using m True kind coh by (simp add: cc_processEviction_def bcc_processEviction_def)
  next
    case False
    have fv: "found net h n ?a = Some v" using arrays_okD(2) [OF coherentD(1) [OF coh]] False by simp
    define h2 where "h2 = (if wb then set_cell n v Mst h1 else h1)"
    let ?ty = "if cell h2 n v = Mst then PUTX else PUTS"
    let ?req = "bcc_req (net n) ?a ?ty (n, v) m (srcId trigger) 0 (threadId trigger) (isPIMInst trigger) h2"
    have "unat (rq_cycle ?req) < 2 ^ 63" "rq_type ?req \<noteq> OFFLOAD" using m(2) t by (simp_all add: bcc_req_def later_def)
    from is_memoryD [OF mem this(2,1), of h2] obtain r where
      r: "acc (MemoryObj 0) ?req h2 = Some (r, ?req, set_state ?req (mem_state ?req) h2)" by blast
    have ms: "set_state ?req (mem_state ?req) h2 = set_cell n v Ist h2"
      by (simp add: mem_state_def set_state_def bcc_req_def)
    define g where "g = set_cell n v Ist h2"
    have v2: "cell h2 n v \<noteq> Ist" using False nn by (simp add: h2_def)
    have ev: "cc_processEviction acc (invalidate (Suc d) net) (net n) n trigger ?a v cyc h = Some (r, g)"
      using m kind wbD nn r ms v2 parents_two_level(1) [OF net]
      by (simp add: cc_processEviction_def bcc_processEviction_def g_def h2_def split: if_splits)
    have lo: "cell g c i = (if sharers ?e c \<and> found net h c ?a = Some i then Ist else cell h c i)" if "c < n" for c i
      using that by (simp add: g_def h2_def h1_def inval_cells_cell inv_result_def)
    have arr: "arr g = arr h" by (simp add: g_def h2_def h1_def)
    have "coherent net n g"
    proof (rule coherent_update [OF coh fv arr])
      show "line_state net g c ?a = Ist" if "c < n" for c
      proof (cases "sharers ?e c")
        case True
        then show ?thesis using lo that by (simp add: line_state_def arr split: option.split)
      next
        case no: False
        then have "line_state net h c ?a = Ist" using D(1) [of c] that False by auto
        moreover have "line_state net g c ?a = line_state net h c ?a"
          by (rule line_state_eqI) (simp_all add: arr lo that no)
        ultimately show ?thesis by simp
      qed
    qed (use lo nn in \<open>auto simp: g_def h2_def h1_def dir_ok_empty\<close>)
    then show ?thesis using ev arr lo by (auto simp: g_def)
  qed
qed

text \<open>Finding or making a line for a get, in any cache whose evictions keep the invariant and \<open>P\<close>.\<close>
lemma make_line:
  assumes coh: "coherent net n h" and k: "k \<le> n" and ty: "rq_type req = GETS \<or> rq_type req = GETX"
    and alloc: "cc_shouldAllocate (net k) req = Some True" and P: "P h" "\<And>h a. P h \<Longrightarrow> P (set_arr k a h)"
    and evict: "\<And>h v. coherent net n h \<Longrightarrow> P h \<Longrightarrow>
      \<exists>r g. cc_processEviction acc invf (net k) k req (tag h k v) v cyc h = Some (r, g) \<and>
        coherent net n g \<and> arr g k = arr h k \<and> cell g k v = Ist \<and> P g"
  shows "\<exists>j g. cache_line acc invf (net k) WRITEBACK k req cyc h = Some (Some j, g) \<and>
    coherent net n g \<and> found net g k (lineAddr req) = Some j \<and> P g"
proof -
  let ?x = "lineAddr req"
  obtain a where a: "sa_lookup (arr_hash (net k)) ?x True (arr h k) = Some (found net h k ?x, a)"
      "coherent net n (set_arr k a h)" "\<forall>k' y. found net (set_arr k a h) k' y = found net h k' y"
    using lookup_coherent [OF coh k, of ?x True] by blast
  let ?h1 = "set_arr k a h"
  have fn: "sa_find (arr_hash (net k)) ?x a = found net h k ?x" using a(3) [rule_format, of k ?x] by simp
  show ?thesis
  proof (cases "found net h k ?x")
    case (Some j)
    then show ?thesis using a(1,2) ty fn P by (intro exI [of _ j] exI [of _ ?h1]) (simp add: cache_line_def)
  next
    case None
    let ?val = "\<lambda>i. cc_isValid (net k) k i ?h1" and ?sh = "\<lambda>i. cc_numSharers (net k) k i ?h1"
    have ok1: "sa_ok (arr ?h1 k)" using arrays_okD(1) [OF coherentD(1) [OF a(2)] k] .
    have none1: "sa_find (arr_hash (net k)) ?x (arr ?h1 k) = None" using fn None by simp
    obtain v a2 where p: "sa_preinsert (arr_hash (net k)) ?val ?sh ?x (arr ?h1 k) = Some (v, tag ?h1 k v, a2)" "sa_ok a2"
        "(!) (sa_array a2) = (!) (sa_array (arr ?h1 k))"
        "\<forall>y. sa_find (arr_hash (net k)) y a2 = found net ?h1 k y" "sa_ready (arr_hash (net k)) ?x v a2"
      using sa.preinsert_ok [OF ok1 none1, of ?val ?sh] by auto
    let ?h2 = "set_arr k a2 ?h1"
    have tg: "tag ?h2 l i = tag ?h1 l i" for l i using p(3) by (simp add: fun_eq_iff)
    have fd: "found net ?h2 l y = found net ?h1 l y" for l y using p(4) by simp
    have ls: "line_state net ?h2 l y = line_state net ?h1 l y" for l y
      using fd [of l y] by (simp add: line_state_def cong: option.case_cong)
    have ok2: "sa_ok (arr ?h2 l)" if "l \<le> n" for l
      using p(2) arrays_okD(1) [OF coherentD(1) [OF coh] that] by simp
    have coh2: "coherent net n ?h2"
      by (rule coherent_arr [OF a(2) _ _ ok2]) (use arrays_okD(2) [OF coherentD(1) [OF a(2)]] tg fd ls in auto)
    obtain r h3 where ev: "cc_processEviction acc invf (net k) k req (tag ?h2 k v) v cyc ?h2 = Some (r, h3)"
        "coherent net n h3" "arr h3 k = arr ?h2 k" "cell h3 k v = Ist" "P h3"
      using evict [OF coh2, of v] P by blast
    have rdy: "sa_ready (arr_hash (net k)) ?x v (arr h3 k)" using p(5) ev(3) by simp
    obtain a3 where a3: "sa_postinsert ?x v (arr h3 k) = Some a3" "coherent net n (set_arr k a3 h3)"
        "found net (set_arr k a3 h3) k ?x = Some v"
      using postinsert_coherent [OF ev(2) k ev(4) rdy] by blast
    have "cache_line acc invf (net k) WRITEBACK k req cyc h = Some (Some v, set_arr k a3 h3)"
      using a(1) ty None alloc p(1) ev(1) a3(1) p(3) by (simp add: cache_line_def fun_eq_iff)
    then show ?thesis using a3 ev(5) P(2) by blast
  qed
qed

lemma shared_line:
  assumes net: "two_level net n" and coh: "coherent net n h" and mem: "is_memory acc"
    and t: "unat cyc < 2 ^ 62" and ty: "rq_type req = GETS \<or> rq_type req = GETX"
  shows "\<exists>j g. cache_line acc (invalidate (Suc d) net) (net n) WRITEBACK n req cyc h = Some (Some j, g) \<and>
    coherent net n g \<and> found net g n (lineAddr req) = Some j \<and> (\<forall>c < n. arr g c = arr h c) \<and>
    (\<forall>c i. c < n \<longrightarrow> cell g c i = cell h c i \<or> cell g c i = Ist)"
proof (rule make_line [OF coh order_refl ty])
  show "cc_shouldAllocate (net n) req = Some True" using ty net by (auto simp: cc_shouldAllocate_def two_level_def)
  show "\<exists>r g. cc_processEviction acc (invalidate (Suc d) net) (net n) n req (tag h' n v) v cyc h' = Some (r, g) \<and>
      coherent net n g \<and> arr g n = arr h' n \<and> cell g n v = Ist \<and> (\<forall>c<n. arr g c = arr h c) \<and>
      (\<forall>c i. c < n \<longrightarrow> cell g c i = cell h c i \<or> cell g c i = Ist)"
    if "coherent net n h'"
      and "(\<forall>c<n. arr h' c = arr h c) \<and> (\<forall>c i. c < n \<longrightarrow> cell h' c i = cell h c i \<or> cell h' c i = Ist)" for h' v
    using shared_evict [OF net that(1) mem t, of d req v] that(2) by metis
qed simp_all

text \<open>The state of a line of the shared cache may change between valid states, except that an exclusive
  line stays exclusive.\<close>
lemma coherent_set_top:
  assumes coh: "coherent net n h" and j: "found net h n x = Some j"
    and b: "b \<noteq> Ist" "cell h n j \<in> {Est, Mst} \<longrightarrow> b \<in> {Est, Mst}"
  shows "coherent net n (set_cell n j b h)"
proof (rule coherent_update [OF coh j])
  have tj: "tag h n j = x" using sa.found_tag [OF j] .
  have ls: "line_state net (set_cell n j b h) c x = line_state net h c x" if "c < n" for c
    by (rule line_state_eqI) (use that in auto)
  show "dir_ok n (\<lambda>c. if cell (set_cell n j b h) n j = Ist then Ist else line_state net (set_cell n j b h) c x)
    (cell (set_cell n j b h) n j) (dir (set_cell n j b h) n j)"
  proof (cases "cell h n j = Ist")
    case True
    then have "line_state net h n x = Ist" using j by (simp add: line_state_def)
    then have none: "line_state net h c x = Ist" if "c < n" for c using coherentD(4) [OF coh that] by blast
    have "dir_ok n (\<lambda>_. Ist) b (dir h n j)" using coherentD(5) [OF coh, of j] True by (simp add: dir_ok_empty)
    then show ?thesis using b none ls by (subst dir_ok_cong [of n _ "\<lambda>_. Ist"]) simp_all
  next
    case False
    have "dir_ok n (\<lambda>c. line_state net h c x) b (dir h n j)"
      using coherentD(5) [OF coh, of j] b False unfolding tj by (auto simp: dir_ok_def)
    then show ?thesis using b ls by (subst dir_ok_cong [of n _ "\<lambda>c. line_state net h c x"]) simp_all
  qed
qed (use b in auto)

text \<open>Fetching a line into the shared cache.\<close>
lemma shared_fetch:
  assumes net: "two_level net n" and coh: "coherent net n h" and mem: "is_memory acc"
    and t: "unat cyc < 2 ^ 62" and ty: "rq_type req = GETS \<or> rq_type req = GETX"
    and j: "found net h n (lineAddr req) = Some j"
  shows "\<exists>r b. bcc_processAccess acc (net n) n j cyc flags req h = Some (r, set_cell n j b h) \<and> later cyc (2 ^ 32) r \<and>
    b \<noteq> Ist \<and> (rq_type req = GETX \<longrightarrow> b = Mst) \<and> coherent net n (set_cell n j b h)"
proof -
  let ?x = "lineAddr req" and ?s = "cell h n j"
  let ?q = "\<lambda>ty. bcc_req (net n) ?x ty (n, j) cyc (srcId req) flags (threadId req) (isPIMInst req) h"
  note coh' = coherent_set_top [OF coh j]
  have mm: "\<exists>r. acc (MemoryObj 0) (?q ty) h = Some (r, ?q ty, set_cell n j (mem_state (?q ty)) h)" if "ty \<noteq> OFFLOAD" for ty
    using is_memoryD [OF mem, of "?q ty" h] that t by (auto simp: bcc_req_def set_state_def)
  have ft: "\<exists>r. bcc_fetch acc (net n) n ?x j ty cyc flags req h = Some (r, set_cell n j (mem_state (?q ty)) h) \<and> later cyc (2 ^ 32) r"
    if "ty \<noteq> OFFLOAD" for ty
    using mm [OF that] later_add32 [of cyc] t parents_two_level(1) [OF net] by (auto simp: bcc_fetch_def)
  have same: "set_cell n j b h = h" if "?s = b" for b using that by (auto simp: set_cell_def)
  show ?thesis
  proof (cases "rq_type req = GETS")
    case True
    obtain r where r: "bcc_fetch acc (net n) n ?x j GETS cyc flags req h = Some (r, set_cell n j (mem_state (?q GETS)) h)"
        "later cyc (2 ^ 32) r" using ft [of GETS] by blast
    have st: "mem_state (?q GETS) = Sst \<or> mem_state (?q GETS) = Est" by (simp add: mem_state_def bcc_req_def)
    show ?thesis
    proof (cases "?s = Ist")
      case inv: True
      show ?thesis
        by (intro exI [of _ r] exI [of _ "mem_state (?q GETS)"])
           (use True inv r st coh' [of "mem_state (?q GETS)"] later_le [OF r(2)] in \<open>auto simp: bcc_processAccess_def\<close>)
    next
      case False
      then show ?thesis using True coh
        by (intro exI [of _ cyc] exI [of _ ?s]) (simp add: bcc_processAccess_def same)
    qed
  next
    case False
    then have X: "rq_type req = GETX" using ty by simp
    obtain r where r: "bcc_fetch acc (net n) n ?x j GETX cyc flags req h = Some (r, set_cell n j Mst h)"
        "later cyc (2 ^ 32) r" using ft [of GETX] by (auto simp: mem_state_def bcc_req_def)
    show ?thesis
    proof (cases "?s = Ist \<or> ?s = Sst")
      case True
      then show ?thesis
        by (intro exI [of _ r] exI [of _ Mst])
           (use X r coh' [of Mst] later_le [OF r(2)] in \<open>auto simp: bcc_processAccess_def\<close>)
    next
      case no: False
      then have "?s = Est \<or> ?s = Mst" by (cases ?s) auto
      then show ?thesis using X no coh' [of Mst] same [of Mst]
        by (intro exI [of _ cyc] exI [of _ Mst]) (auto simp: bcc_processAccess_def)
    qed
  qed
qed

subsection \<open>The directory of the shared cache\<close>

text \<open>What is known of line \<open>j\<close>, that holds address \<open>a\<close>, when child \<open>c\<close> asks for its line \<open>i\<close> of \<open>a\<close>.\<close>
definition asks :: "(nat \<Rightarrow> node) \<Rightarrow> nat \<Rightarrow> 'm hier \<Rightarrow> Address \<Rightarrow> nat \<Rightarrow> nat \<Rightarrow> nat \<Rightarrow> CacheReq \<Rightarrow> bool" where
  "asks net n h a j c i req \<longleftrightarrow> two_level net n \<and> coherent net n h \<and> found net h n a = Some j \<and> cell h n j \<noteq> Ist \<and>
     c < n \<and> found net h c a = Some i \<and> childId req = c \<and> state_ptr req = (c, i) \<and> lineAddr req = a"

lemma asksD:
  assumes "asks net n h a j c i req"
  shows "two_level net n" "coherent net n h" "found net h n a = Some j" "cell h n j \<noteq> Ist" "c < n"
    "found net h c a = Some i" "childId req = c" "state_ptr req = (c, i)" "lineAddr req = a"
    "dir_ok n (\<lambda>c. line_state net h c a) (cell h n j) (dir h n j)" "line_state net h c a = cell h c i"
proof -
  show 1: "two_level net n" "coherent net n h" "found net h n a = Some j" "cell h n j \<noteq> Ist" "c < n"
    "found net h c a = Some i" "childId req = c" "state_ptr req = (c, i)" "lineAddr req = a"
    using assms by (simp_all add: asks_def)
  show "dir_ok n (\<lambda>c. line_state net h c a) (cell h n j) (dir h n j)"
    using coherentD(5) [OF 1(2), of j] 1(4) sa.found_tag [OF 1(3)] by simp
  show "line_state net h c a = cell h c i" using 1(6) by (rule line_state_found)
qed

text \<open>The end of every directory access: child \<open>c\<close> gets state \<open>s\<close>, the entry becomes \<open>e\<close>.\<close>
lemma directory_update:
  assumes q: "asks net n h a j c i req" and arr: "arr g = arr h"
    and low: "\<And>c i. c < n \<Longrightarrow> found net h c a \<noteq> Some i \<Longrightarrow> cell g c i = cell h c i"
    and top: "cell g n = cell h n" "\<And>i. i \<noteq> j \<Longrightarrow> dir g n i = dir h n i"
    and new: "dir_ok n (\<lambda>k. if k = c then s else line_state net g k a) (cell h n j) (dir g n j)"
  shows "coherent net n (set_cell c i s g)"
proof -
  note D = asksD [OF q]
  have ls: "line_state net (set_cell c i s g) k a = (if k = c then s else line_state net g k a)" for k
    using D(6) arr by (auto simp: line_state_def split: option.split)
  show ?thesis
    by (rule coherent_update [OF D(2,3)]) (use arr low top new D(4,5,6) ls in auto)
qed

lemma inval_state:
  assumes "\<forall>c. sharers e c \<longleftrightarrow> c < n \<and> line_state net h c a \<noteq> Ist" and "k < n" and "S = {c. sharers e c} - X"
  shows "line_state net (upd_dir n' j f (inval_cells net a ty S h)) k a =
    (if k \<in> S then inv_result ty else line_state net h k a)"
proof (cases "k \<in> S")
  case True
  then have "line_state net h k a \<noteq> Ist" using assms by auto
  then obtain i where "found net h k a = Some i" using line_state_valid by blast
  then show ?thesis using True by (simp add: line_state_def inval_cells_cell)
qed (auto intro!: line_state_eqI simp: inval_cells_cell)

lemma exclusive_iff:
  assumes net: "two_level net n" and d: "dir_ok n s b e"
  shows "isExclusive e \<longleftrightarrow> exclusive e \<and> (\<exists>c. sharers e c)" and "isEmpty e \<longleftrightarrow> (\<forall>c. \<not> sharers e c)"
proof -
  note D = dir_okD [OF d]
  have lt: "\<forall>c. sharers e c \<longrightarrow> c < n" using D(1) by blast
  note card = card_sharers [OF net lt D(2)]
  have ex: "card {c. sharers e c} = 0 \<longleftrightarrow> (\<forall>c. \<not> sharers e c)" using card(1) by simp
  show "isEmpty e \<longleftrightarrow> (\<forall>c. \<not> sharers e c)" using card(2) [of 0] ex by (simp add: isEmpty_def)
  show "isExclusive e \<longleftrightarrow> exclusive e \<and> (\<exists>c. sharers e c)"
    using card(2) [of 1] ex D(3) by (auto simp: isExclusive_def)
qed

end
