(* ===== verification/Coherence_Properties.thy ===== *)
theory Coherence_Properties
  imports Coherence_Shared
begin

text \<open>
  Accesses in the two-level hierarchy: directory accesses, write-backs and fetches keep the invariant, none
  of them fails an assertion, and every access gives its cache the permission it asked for.
\<close>

subsection \<open>Directory accesses\<close>

lemma dir_okI:
  assumes "\<And>c. sharers e c \<longleftrightarrow> c < n \<and> s c \<noteq> Ist" and "numSharers e = of_nat (card {c. sharers e c})"
    and "exclusive e \<Longrightarrow> card {c. sharers e c} \<le> 1"
    and "\<And>c. sharers e c \<Longrightarrow> exclusive e \<Longrightarrow> s c \<in> {Est, Mst} \<and> b \<in> {Est, Mst}"
    and "\<And>c. sharers e c \<Longrightarrow> \<not> exclusive e \<Longrightarrow> s c = Sst"
  shows "dir_ok n s b e"
  unfolding dir_ok_def using assms(2-5) by (intro conjI allI impI assms(1)) (simp_all split: if_split)

lemma dir_ok_single:
  assumes "c < n" and "s c \<in> {Est, Mst}" and "b \<in> {Est, Mst}" and "\<forall>k < n. k \<noteq> c \<longrightarrow> s k = Ist"
    and "exclusive e" and "sharers e = (\<lambda>k. k = c)" and "numSharers e = 1"
  shows "dir_ok n s b e"
  using assms by (auto simp: dir_ok_def)

lemma dir_ok_add:
  assumes "c < n" and "\<not> sharers e c" and "\<forall>k. sharers e k \<longrightarrow> k < n" and "numSharers e = of_nat (card {k. sharers e k})"
    and s: "\<forall>k < n. s k = (if k = c \<or> sharers e k then Sst else Ist)"
    and e': "sharers e' = (sharers e)(c := True)" "numSharers e' = numSharers e + 1" "\<not> exclusive e'"
  shows "dir_ok n s b e'"
proof -
  have "finite {k. sharers e k}" by (rule finite_subset [of _ "{..<n}"]) (use assms(3) in auto)
  moreover have S: "{k. sharers e' k} = insert c {k. sharers e k}" using e'(1) by auto
  ultimately have "card {k. sharers e' k} = Suc (card {k. sharers e k})" using assms(2) by simp
  then have num: "numSharers e' = of_nat (card {k. sharers e' k})" using e'(2) assms(4) by simp
  have sh: "sharers e' k \<longleftrightarrow> k = c \<or> sharers e k" for k using e'(1) by simp
  show ?thesis
  proof (rule dir_okI)
    show "sharers e' k \<longleftrightarrow> k < n \<and> s k \<noteq> Ist" for k using sh [of k] s assms(1,3) by (cases "k < n") auto
    show "s k = Sst" if "sharers e' k" for k using that sh [of k] s assms(1,3) by auto
  qed (use num e'(3) in simp_all)
qed

lemma dir_ok_remove:
  assumes d: "dir_ok n s b e" and c: "sharers e c" and s: "\<forall>k < n. s' k = (if k = c then Ist else s k)"
    and e': "sharers e' = (sharers e)(c := False)" "numSharers e' = numSharers e - 1" "exclusive e' = exclusive e"
  shows "dir_ok n s' b e'"
proof -
  note D = dir_okD [OF d]
  have fin: "finite {k. sharers e k}" by (rule finite_subset [of _ "{..<n}"]) (use D(1) in auto)
  have S: "{k. sharers e k} = insert c {k. sharers e' k}" "c \<notin> {k. sharers e' k}" using e'(1) c by auto
  then have card: "card {k. sharers e k} = Suc (card {k. sharers e' k})" using fin by (metis card_insert_disjoint finite_insert)
  then have num: "numSharers e' = of_nat (card {k. sharers e' k})" using e'(2) D(2) by simp
  have sh: "sharers e' k \<longleftrightarrow> k \<noteq> c \<and> sharers e k" for k using e'(1) by simp
  have one: "exclusive e' \<longrightarrow> card {k. sharers e' k} \<le> 1" using D(3) card e'(3) by simp
  show ?thesis
  proof (rule dir_okI)
    show "sharers e' k \<longleftrightarrow> k < n \<and> s' k \<noteq> Ist" for k using sh [of k] s D(1) [of k] by (cases "k < n") auto
    show "s' k \<in> {Est, Mst} \<and> b \<in> {Est, Mst}" if "sharers e' k" "exclusive e'" for k
      using that sh [of k] s D(1,4) [of k] e'(3) by auto
    show "s' k = Sst" if "sharers e' k" "\<not> exclusive e'" for k
      using that sh [of k] s D(1,5) [of k] e'(3) by auto
  qed (use num one in simp_all)
qed

text \<open>Giving a line to one more reader.\<close>
lemma directory_GETS:
  assumes q: "asks net n h a j c i req" and ty: "rq_type req = GETS" and ci: "cell h c i = Ist"
    and t: "unat cyc < 2 ^ 62"
  shows "\<exists>r wb g. tcc_processAccess (invalidate (Suc d) net) (net n) n j (bcc_isExclusive n j h) cyc flags req h =
      Some (r, wb, g) \<and> later cyc (2 ^ 33) r \<and> arr g = arr h \<and> cell g n = cell h n \<and>
      (cell g c i = Sst \<or> cell g c i = Est) \<and> (wb \<longrightarrow> cell h n j \<in> {Est, Mst}) \<and> coherent net n g"
proof -
  note A = asksD [OF q]
  let ?e = "dir h n j"
  let ?S = "{c. sharers ?e c}"
  note D = dir_okD [OF A(10)] and ex = exclusive_iff [OF A(1,10)]
  have nc: "\<not> sharers ?e c" using D(1) A(11) ci by simp
  have fin: "finite ?S" using D(1) by simp
  have nn: "c \<noteq> n" using A(5) by simp
  show ?thesis
  proof (cases "isEmpty ?e \<and> bcc_isExclusive n j h \<and> flags AND NOEXCL = 0")
    case True
    then have none: "\<forall>c. \<not> sharers ?e c" "\<forall>k < n. line_state net h k a = Ist" using ex(2) D(1) by auto
    let ?g = "upd_dir n j (\<lambda>e. e\<lparr>exclusive := True, sharers := (sharers e)(c := True), numSharers := 1\<rparr>) h"
    have b: "cell h n j \<in> {Est, Mst}" using True by (auto simp: bcc_isExclusive_def)
    have lsg: "line_state net ?g k a = line_state net h k a" for k by (simp add: line_state_def cong: option.case_cong)
    have "dir_ok n (\<lambda>k. if k = c then Est else line_state net ?g k a) (cell h n j) (dir ?g n j)"
      unfolding lsg by (rule dir_ok_single [of c]) (use none b A(5) in \<open>auto simp: fun_eq_iff\<close>)
    then have "coherent net n (set_cell c i Est ?g)" by (intro directory_update [OF q]) auto
    then show ?thesis using True ty A(7,8) nn
      by (intro exI [of _ cyc] exI [of _ False] exI [of _ "set_cell c i Est ?g"])
         (simp add: tcc_processAccess_def Let_def set_state_def)
  next
    case False
    have shr: "\<forall>c. sharers ?e c \<longleftrightarrow> c < n \<and> line_state net h c a \<noteq> Ist" using D(1) by simp
    let ?r = "\<lparr>inv_lineAddr = a, inv_type = INVX, inv_cycle = cyc, inv_srcId = srcId req, inv_clflush = False\<rparr>"
    obtain r wb h1 where h1: "(if isExclusive ?e then tcc_sendInvalidates (invalidate (Suc d) net) (net n) n (Some j) ?r False h
          else Some (cyc, False, h)) = Some (r, wb, h1)" "later cyc (2 ^ 33) r" "wb \<longrightarrow> cell h n j \<in> {Est, Mst}"
        "arr h1 = arr h" "cell h1 n = cell h n" "\<And>i. i \<noteq> j \<Longrightarrow> dir h1 n i = dir h n i"
        "\<And>c i. c < n \<Longrightarrow> found net h c a \<noteq> Some i \<Longrightarrow> cell h1 c i = cell h c i"
        "\<And>k. k < n \<Longrightarrow> line_state net h1 k a = (if sharers ?e k then Sst else Ist)"
        "sharers (dir h1 n j) = sharers ?e" "numSharers (dir h1 n j) = numSharers ?e" "\<not> isExclusive (dir h1 n j)"
    proof (cases "isExclusive ?e")
      case True
      then have E: "exclusive ?e" using ex(1) by simp
      have sh: "\<forall>c. sharers ?e c \<longrightarrow> c < n \<and> line_state net h c (inv_lineAddr ?r) \<in> {Est, Mst}"
        using D(1,4) E by simp
      let ?h1 = "upd_dir n j (\<lambda>e. e\<lparr>exclusive := False\<rparr>) (inval_cells net a INVX ?S h)"
      obtain r where r: "tcc_sendInvalidates (invalidate (Suc d) net) (net n) n (Some j) ?r False h =
          Some (r, \<exists>c. sharers ?e c \<and> line_state net h c a = Mst, ?h1)" "later cyc (2 ^ 33) r"
        using send_INVX [OF A(1) coherentD(2) [OF A(2)] sh D(2) True, of d False] t by auto
      have ls: "line_state net ?h1 k a = (if sharers ?e k then Sst else Ist)" if "k < n" for k
        using inval_state [OF shr that, of ?S "{}"] shr that by (auto simp: inv_result_def)
      show thesis
        by (rule that [of r _ ?h1]) (use True r ls D(1,4) E in \<open>auto simp: inval_cells_cell isExclusive_def\<close>)
    next
      case no: False
      have ls: "line_state net h k a = (if sharers ?e k then Sst else Ist)" if "k < n" for k
        using D(1,5) [of k] no ex(1) that by auto
      show thesis by (rule that [of cyc False h]) (use no ls in auto)
    qed
    let ?f = "\<lambda>e. e\<lparr>sharers := (sharers e)(c := True), numSharers := numSharers e + 1, exclusive := False\<rparr>"
    let ?g = "upd_dir n j ?f h1"
    have lsg: "line_state net ?g k a = line_state net h1 k a" for k by (simp add: line_state_def cong: option.case_cong)
    have "dir_ok n (\<lambda>k. if k = c then Sst else line_state net ?g k a) (cell h n j) (dir ?g n j)"
      unfolding lsg by (rule dir_ok_add [of c _ ?e]) (use h1(8-10) D(1,2) A(5) nc in auto)
    then have "coherent net n (set_cell c i Sst ?g)"
      by (intro directory_update [OF q]) (use h1(4-7) in auto)
    then show ?thesis using False ty A nn nc h1
      by (auto simp: tcc_processAccess_def Let_def set_state_def)
  qed
qed

text \<open>Giving a line to a writer: every other copy is invalidated.\<close>
lemma directory_GETX:
  assumes q: "asks net n h a j c i req" and ty: "rq_type req = GETX" and ci: "cell h c i = Ist \<or> cell h c i = Sst"
    and top: "cell h n j = Mst" and t: "unat cyc < 2 ^ 62"
  shows "\<exists>r wb g. tcc_processAccess (invalidate (Suc d) net) (net n) n j (bcc_isExclusive n j h) cyc flags req h =
      Some (r, wb, g) \<and> later cyc (2 ^ 33) r \<and> arr g = arr h \<and> cell g n = cell h n \<and> cell g c i = Mst \<and> coherent net n g"
proof -
  note A = asksD [OF q]
  let ?e = "dir h n j"
  note D = dir_okD [OF A(10)] and ex = exclusive_iff [OF A(1,10)]
  let ?S = "{c. sharers ?e c} - {c}"
  have nn: "c \<noteq> n" using A(5) by simp
  have nx: "\<not> isExclusive ?e" if "sharers ?e c" using that D(4) [of c] ci A(11) ex(1) by auto
  define h1 where "h1 = (if sharers ?e c then tcc_remove n j c h else h)"
  have h1: "arr h1 = arr h" "cell h1 = cell h" "\<And>i. i \<noteq> j \<Longrightarrow> dir h1 n i = dir h n i"
      "{k. sharers (dir h1 n j) k} = ?S" "\<And>k. line_state net h1 k a = line_state net h k a"
    by (auto simp: h1_def tcc_remove_def line_state_def cong: option.case_cong)
  have fin: "finite {c. sharers ?e c}" by (rule finite_subset [of _ "{..<n}"]) (use D(1) in auto)
  have num: "numSharers (dir h1 n j) = of_nat (card {k. sharers (dir h1 n j) k})"
  proof (cases "sharers ?e c")
    case True
    then have "card {c. sharers ?e c} = Suc (card ?S)" using fin by (metis card_Suc_Diff1 mem_Collect_eq)
    then have "numSharers ?e = of_nat (Suc (card ?S))" by (simp only: D(2))
    then have "numSharers ?e - 1 = of_nat (card ?S)" by (simp only: of_nat_Suc add_diff_cancel_left')
    moreover have "numSharers (dir h1 n j) = numSharers ?e - 1" using True by (simp add: h1_def tcc_remove_def)
    ultimately show ?thesis unfolding h1(4) by (simp only:)
  qed (use D(2) in \<open>simp add: h1_def\<close>)
  let ?r = "\<lparr>inv_lineAddr = a, inv_type = INV, inv_cycle = cyc, inv_srcId = srcId req, inv_clflush = False\<rparr>"
  have ok1: "\<forall>c < n. sa_ok (arr h1 c)" using coherentD(2) [OF A(2)] h1(1) by simp
  have sh: "\<forall>k. sharers (dir h1 n j) k \<longrightarrow> k < n \<and> line_state net h1 k (inv_lineAddr ?r) \<noteq> Ist"
    using h1(4,5) D(1) by auto
  define h2 where "h2 = upd_dir n j (\<lambda>e. e\<lparr>sharers := (\<lambda>_. False), numSharers := 0\<rparr>) (inval_cells net a INV ?S h1)"
  obtain r wb where r: "tcc_sendInvalidates (invalidate (Suc d) net) (net n) n (Some j) ?r False h1 = Some (r, wb, h2)"
      "later cyc (2 ^ 33) r"
    using send_INV [OF A(1) ok1 sh num, of d False] t h1(4) by (auto simp: h2_def)
  let ?f = "\<lambda>e. e\<lparr>sharers := (sharers e)(c := True), numSharers := numSharers e + 1, exclusive := True\<rparr>"
  let ?g = "upd_dir n j ?f h2"
  have ls2: "line_state net ?g k a = Ist" if "k < n" "k \<noteq> c" for k
  proof -
    have *: "\<forall>c. sharers ?e c \<longleftrightarrow> c < n \<and> line_state net h1 c a \<noteq> Ist" using D(1) h1(5) by simp
    have "line_state net ?g k a = line_state net h2 k a" by (simp add: line_state_def cong: option.case_cong)
    also have "\<dots> = Ist" unfolding h2_def inval_state [OF * that(1) refl] using that D(1) [of k] h1(5)
      by (auto simp: inv_result_def)
    finally show ?thesis .
  qed
  have "dir_ok n (\<lambda>k. if k = c then Mst else line_state net ?g k a) (cell h n j) (dir ?g n j)"
    by (rule dir_ok_single [of c]) (use top A(5) ls2 in \<open>auto simp: h2_def fun_eq_iff\<close>)
  moreover have g: "arr ?g = arr h" "cell ?g n = cell h n"
    using h1(1,2) A(5) D(1) by (auto simp: h2_def inval_cells_cell fun_eq_iff)
  ultimately have "coherent net n (set_cell c i Mst ?g)"
    by (intro directory_update [OF q]) (use h1(1-3) in \<open>auto simp: h2_def inval_cells_cell\<close>)
  moreover have "numSharers (dir h2 n j) = 0" by (simp add: h2_def)
  then have "tcc_processAccess (invalidate (Suc d) net) (net n) n j (bcc_isExclusive n j h) cyc flags req h =
      Some (r, wb, set_cell c i Mst ?g)"
    using ty A(7-9) nx top r(1) unfolding h1_def
    by (cases "sharers ?e c") (simp_all add: tcc_processAccess_def Let_def set_state_def bcc_isExclusive_def)
  ultimately show ?thesis using r(2) nn g by auto
qed

text \<open>Taking a line back.\<close>
lemma directory_PUT:
  assumes q: "asks net n h a j c i req" and ci: "cell h c i \<noteq> Ist" and keep: "flags AND PUTX_KEEPEXCL = 0"
    and ty: "rq_type req = (if cell h c i = Mst then PUTX else PUTS)"
  shows "tcc_processAccess invf (net n) n j ex cyc flags req h = Some (cyc, False, set_cell c i Ist (tcc_remove n j c h))"
    and "coherent net n (set_cell c i Ist (tcc_remove n j c h))"
proof -
  note A = asksD [OF q]
  let ?e = "dir h n j" and ?g = "tcc_remove n j c h"
  note D = dir_okD [OF A(10)] and ex = exclusive_iff [OF A(1,10)]
  have c: "sharers ?e c" using D(1) A(5,11) ci by simp
  have "isExclusive ?e" if "cell h c i = Mst" using that D(5) [OF c] A(11) ex(1) c by auto
  then show "tcc_processAccess invf (net n) n j ex cyc flags req h = Some (cyc, False, set_cell c i Ist ?g)"
    using ty A(7,8) c keep by (simp add: tcc_processAccess_def Let_def set_state_def split: if_splits)
  have ls: "line_state net ?g k a = line_state net h k a" for k
    by (simp add: line_state_def tcc_remove_def cong: option.case_cong)
  have "dir_ok n (\<lambda>k. if k = c then Ist else line_state net ?g k a) (cell h n j) (dir ?g n j)"
    unfolding ls by (rule dir_ok_remove [OF A(10) c]) (simp_all add: tcc_remove_def)
  then show "coherent net n (set_cell c i Ist ?g)"
    by (intro directory_update [OF q]) (auto simp: tcc_remove_def)
qed

subsection \<open>Accesses to the shared cache\<close>

text \<open>A plain request of child \<open>c\<close> for the state of its line \<open>i\<close>.\<close>
definition child_req :: "(nat \<Rightarrow> node) \<Rightarrow> nat \<Rightarrow> 'm hier \<Rightarrow> nat \<Rightarrow> nat \<Rightarrow> CacheReq \<Rightarrow> bool" where
  "child_req net n h c i req \<longleftrightarrow> two_level net n \<and> coherent net n h \<and> c < n \<and> found net h c (lineAddr req) = Some i \<and>
     childId req = c \<and> state_ptr req = (c, i) \<and> initialState req = cell h c i \<and> \<not> rq_is PTW req \<and>
     \<not> rq_is PREFETCH req \<and> \<not> nonCacheable req \<and> unat (rq_cycle req) < 2 ^ 61"

lemma child_reqD:
  assumes "child_req net n h c i req"
  shows "two_level net n" "coherent net n h" "c < n" "found net h c (lineAddr req) = Some i" "childId req = c"
    "state_ptr req = (c, i)" "initialState req = cell h c i" "\<not> rq_is PTW req" "\<not> rq_is PREFETCH req"
    "\<not> nonCacheable req" "unat (rq_cycle req) < 2 ^ 61" "c \<noteq> n" "cc_kind (net n) = MESICC"
  using assms by (auto simp: child_req_def two_level_def)

lemma child_req_start:
  assumes "child_req net n h c i req" and "rq_type req \<noteq> OFFLOAD"
  shows "cc_startAccess (net n) req h = Some (False, req)"
  using child_reqD [OF assms(1)] assms(2)
  by (cases "rq_type req") (simp_all add: cc_startAccess_def CheckForMESIRace_def get_state_def Let_def)

lemma writeback_ok:
  assumes "coherent net n g" and "found net g n a = Some j" and "wb \<longrightarrow> cell g n j \<in> {Est, Mst}" and "cell g n j \<noteq> Ist"
    and c: "c \<noteq> n"
  shows "\<exists>g'. (if wb then bcc_processWritebackOnAccess n j g else Some g) = Some g' \<and> coherent net n g' \<and>
    arr g' = arr g \<and> cell g' c = cell g c"
  using assms(1,3,4) coherent_set_top [OF assms(1,2), of Mst] c by (auto simp: bcc_processWritebackOnAccess_def)

lemma shared_get:
  assumes q: "child_req net n h c i req" and mem: "is_memory acc"
    and ty: "rq_type req = GETS \<and> cell h c i = Ist \<or> rq_type req = GETX \<and> (cell h c i = Ist \<or> cell h c i = Sst)"
  shows "\<exists>r q' g. cache_access_step acc (invalidate (Suc d) net) (net n) WRITEBACK False n req h = Some (r, q', g) \<and>
    coherent net n g \<and> (\<forall>k < n. arr g k = arr h k) \<and> rq_cycle req \<le> r \<and>
    (if rq_type req = GETX then cell g c i = Mst else cell g c i = Sst \<or> cell g c i = Est)"
proof -
  note Q = child_reqD [OF q]
  let ?x = "lineAddr req" and ?t = "rq_cycle req + ucast (accLat (net n))" and ?fl = "rq_flags req AND NOT PREFETCH"
  have gt: "rq_type req = GETS \<or> rq_type req = GETX" using ty by auto
  have t: "later (rq_cycle req) (2 ^ 32) ?t" by (rule later_add32) (use Q(11) in simp)
  then have t62: "unat ?t < 2 ^ 62 - 2 ^ 32" using Q(11) by (simp add: later_def)
  obtain j h1 where h1: "cache_line acc (invalidate (Suc d) net) (net n) WRITEBACK n req ?t h = Some (Some j, h1)"
      "coherent net n h1" "found net h1 n ?x = Some j" "\<forall>k < n. arr h1 k = arr h k"
      "\<forall>k i. k < n \<longrightarrow> cell h1 k i = cell h k i \<or> cell h1 k i = Ist"
    using shared_line [OF Q(1,2) mem _ gt, of ?t d] t62 by auto
  obtain r1 b where r1: "bcc_processAccess acc (net n) n j ?t ?fl req h1 = Some (r1, set_cell n j b h1)" "later ?t (2 ^ 32) r1"
      "b \<noteq> Ist" "rq_type req = GETX \<longrightarrow> b = Mst" "coherent net n (set_cell n j b h1)"
    using shared_fetch [OF Q(1) h1(2) mem _ gt h1(3), of ?t ?fl] t62 by auto
  let ?h2 = "set_cell n j b h1"
  have r62: "unat r1 < 2 ^ 62" using r1(2) t62 by (simp add: later_def)
  have asks: "asks net n ?h2 ?x j c i req" using Q h1 r1 by (simp add: asks_def)
  have ci: "cell ?h2 c i = Ist \<or> rq_type req = GETX \<and> cell ?h2 c i = Sst" using ty h1(5) [rule_format, OF Q(3), of i] Q(12) by auto
  have "\<exists>r2 wb g. tcc_processAccess (invalidate (Suc d) net) (net n) n j (bcc_isExclusive n j ?h2) r1 ?fl req ?h2 =
      Some (r2, wb, g) \<and> later r1 (2 ^ 33) r2 \<and> arr g = arr ?h2 \<and> cell g n = cell ?h2 n \<and> coherent net n g \<and>
      (wb \<longrightarrow> cell g n j \<in> {Est, Mst}) \<and>
      (if rq_type req = GETX then cell g c i = Mst else cell g c i = Sst \<or> cell g c i = Est)"
  proof (cases "rq_type req = GETX")
    case True
    then show ?thesis using directory_GETX [OF asks True _ _ r62, of d ?fl] ci r1(4) by auto
  next
    case False
    then have "rq_type req = GETS" "cell ?h2 c i = Ist" using gt ci by auto
    from directory_GETS [OF asks this r62, of d ?fl] show ?thesis using False by auto
  qed
  then obtain r2 wb g where g: "tcc_processAccess (invalidate (Suc d) net) (net n) n j (bcc_isExclusive n j ?h2) r1 ?fl req ?h2 =
      Some (r2, wb, g)" "later r1 (2 ^ 33) r2" "arr g = arr ?h2" "cell g n = cell ?h2 n" "coherent net n g"
      "wb \<longrightarrow> cell g n j \<in> {Est, Mst}"
      "if rq_type req = GETX then cell g c i = Mst else cell g c i = Sst \<or> cell g c i = Est" by blast
  obtain g' where g': "(if wb then bcc_processWritebackOnAccess n j g else Some g) = Some g'" "coherent net n g'"
      "arr g' = arr g" "cell g' c = cell g c"
    using writeback_ok [OF g(5) _ g(6) _ Q(12), of ?x] h1(3) g(3,4) r1(3) by auto
  have "mesicc_processAccess acc (invalidate (Suc d) net) (net n) n req (Some j) ?t h1 = Some (r2, g')"
    using Q(8,9) gt r1(1) g(1) g'(1) by (auto simp: mesicc_processAccess_def Let_def)
  moreover have "rq_cycle req \<le> r2" using later_trans [OF later_trans [OF t r1(2)] g(2)] by (rule later_le)
  ultimately show ?thesis
    using child_req_start [OF q] gt Q(10,13) h1(1,4) g(3,7) g'(2-4)
    by (auto simp: cache_access_step_def cc_processAccess_def Let_def)
qed

end
