(* ===== verification/Coherence_Safety.thy ===== *)
theory Coherence_Safety
  imports Coherence_Properties
begin

text \<open>
  Accesses of the cores to the two-level hierarchy: every access returns, keeps the invariant and gives
  the permission it asks for, whence a line is never writable in one cache and readable in another.
\<close>

subsection \<open>Write-backs to the shared cache\<close>

lemma shared_put:
  assumes q: "child_req net n h c i req" and ci: "cell h c i \<noteq> Ist" and fl: "rq_flags req = 0"
    and ty: "rq_type req = (if cell h c i = Mst then PUTX else PUTS)"
  shows "\<exists>r q' g. cache_access_step acc (invalidate (Suc d) net) (net n) WRITEBACK False n req h = Some (r, q', g) \<and>
    coherent net n g \<and> (\<forall>k < n. arr g k = arr h k) \<and> cell g c i = Ist"
proof -
  note Q = child_reqD [OF q]
  let ?x = "lineAddr req" and ?t = "rq_cycle req + ucast (accLat (net n))"
  have "line_state net h c ?x \<noteq> Ist" using Q(4) ci by (simp add: line_state_def)
  then have "line_state net h n ?x \<noteq> Ist" by (rule coherentD(4) [OF Q(2,3)])
  then obtain j where j: "found net h n ?x = Some j" "cell h n j \<noteq> Ist" using line_state_valid [of net h n ?x] by metis
  obtain a where a: "sa_lookup (arr_hash (net n)) ?x False (arr h n) = Some (Some j, a)"
      "coherent net n (set_arr n a h)" "\<forall>k' y. found net (set_arr n a h) k' y = found net h k' y"
    using lookup_coherent [OF Q(2), of n ?x False] j(1) by auto
  let ?h1 = "set_arr n a h"
  have fd: "found net ?h1 n ?x = Some j" "found net ?h1 c ?x = Some i" using a(3) [rule_format, of n ?x] a(3) [rule_format, of c ?x] j(1) Q(4) by simp_all
  have q1: "asks net n ?h1 ?x j c i req" unfolding asks_def using Q(1,3,5,6) a(2) fd j(2) by simp
  note A = asksD [OF q1]
  define h2 where "h2 = (if rq_type req = PUTX \<and> cell h n j = Est then set_cell n j Mst ?h1 else ?h1)"
  have top: "cell h n j \<in> {Est, Mst}" if "rq_type req = PUTX"
    using dir_okD(1,4,5) [OF A(10), of c] A(11) ty ci Q(3) that by (auto split: if_splits)
  have coh2: "coherent net n h2" using a(2) coherent_set_top [OF a(2) fd(1), of Mst] by (simp add: h2_def)
  have f2: "arr h2 = arr ?h1" "cell h2 c = cell h c" "cell h2 n j \<noteq> Ist" using Q(12) j(2) by (auto simp: h2_def)
  then have q2: "asks net n h2 ?x j c i req" unfolding asks_def using Q(1,3,5,6) coh2 fd by simp
  have line: "cache_line acc (invalidate (Suc d) net) (net n) WRITEBACK n req ?t h = Some (Some j, ?h1)"
    using a(1) ty by (auto simp: cache_line_def)
  have bcc: "bcc_processAccess acc (net n) n j ?t 0 req ?h1 = Some (?t, h2)"
    using ty top j(2) by (auto simp: bcc_processAccess_def h2_def)
  have "rq_type req = (if cell h2 c i = Mst then PUTX else PUTS)" "cell h2 c i \<noteq> Ist" using ty ci f2 by auto
  note put = directory_PUT [OF q2 this(2) _ this(1), of 0]
  let ?g = "set_cell c i Ist (tcc_remove n j c h2)"
  have "?t \<ge> rq_cycle req" using Q(11) by (intro add32) simp
  moreover have "mesicc_processAccess acc (invalidate (Suc d) net) (net n) n req (Some j) ?t ?h1 = Some (?t, ?g)"
    using Q(8,9) fl ty bcc put(1) j(2) by (auto simp: mesicc_processAccess_def bcc_isValid_def Let_def)
  moreover have "rq_type req \<noteq> OFFLOAD" using ty by auto
  ultimately have "\<exists>q'. cache_access_step acc (invalidate (Suc d) net) (net n) WRITEBACK False n req h = Some (?t, q', ?g)"
    using child_req_start [OF q] Q(10,13) line by (auto simp: cache_access_step_def cc_processAccess_def Let_def)
  moreover have "\<forall>k < n. arr ?g k = arr h k" using f2(1) by (simp add: tcc_remove_def)
  ultimately show ?thesis using put(2) by auto
qed

subsection \<open>The first-level caches\<close>

text \<open>Accesses that reach the shared cache above the memory.\<close>
definition is_shared :: "(nat \<Rightarrow> node) \<Rightarrow> nat \<Rightarrow> 'm hier access_fun \<Rightarrow> bool" where
  "is_shared net n acc \<longleftrightarrow> (\<exists>mem d. is_memory mem \<and>
     (\<forall>req h. acc (CacheObj n) req h = cache_access_step mem (invalidate (Suc d) net) (net n) WRITEBACK False n req h))"

lemma SimpleMemory_shared:
  "0 < lat \<Longrightarrow> is_shared net n (mem_access (Suc (Suc d)) net (\<lambda>_. SimpleMemory_access lat) WRITEBACK False (Suc lv))"
  unfolding is_shared_def
  by (intro exI [of _ "mem_access (Suc d) net (\<lambda>_. SimpleMemory_access lat) WRITEBACK False (Suc lv)"] exI [of _ lv])
     (simp add: SimpleMemory_ok mem_access.simps(2))

text \<open>A request of first-level cache \<open>c\<close> for its line \<open>i\<close>.\<close>
lemma bcc_child_req:
  assumes "two_level net n" and "coherent net n h" and "c < n" and "found net h c a = Some i"
    and "flags AND PTW = 0" and "flags AND PREFETCH = 0" and "unat cyc < 2 ^ 61"
  shows "child_req net n h c i (bcc_req (net c) a ty (c, i) cyc src flags tid pim h)"
  using assms by (simp add: child_req_def bcc_req_def rq_is_def two_level_def)

lemma first_evict:
  assumes net: "two_level net n" and coh: "coherent net n h" and c: "c < n" and sh: "is_shared net n acc"
    and t: "unat cyc < 2 ^ 61"
  shows "\<exists>r g. cc_processEviction acc invf (net c) c trigger (tag h c v) v cyc h = Some (r, g) \<and>
    coherent net n g \<and> arr g c = arr h c \<and> cell g c v = Ist"
proof -
  have kind: "cc_kind (net c) = MESITerminalCC" using net c by (simp add: two_level_def)
  show ?thesis
  proof (cases "cell h c v = Ist")
    case True
    then show ?thesis using kind coh by (simp add: cc_processEviction_def bcc_processEviction_def)
  next
    case False
    obtain mem d where acc: "\<And>req h. acc (CacheObj n) req h =
        cache_access_step mem (invalidate (Suc d) net) (net n) WRITEBACK False n req h"
      using sh unfolding is_shared_def by blast
    let ?q = "bcc_req (net c) (tag h c v) (if cell h c v = Mst then PUTX else PUTS) (c, v) cyc (srcId trigger) 0
      (threadId trigger) (isPIMInst trigger) h"
    have fd: "found net h c (tag h c v) = Some v" using arrays_okD(2) [OF coherentD(1) [OF coh]] c False by simp
    have "child_req net n h c v ?q" using net coh c fd t by (intro bcc_child_req) simp_all
    from shared_put [OF this False, of mem d] obtain r q' g where
      "acc (CacheObj n) ?q h = Some (r, q', g)" "coherent net n g" "\<forall>k < n. arr g k = arr h k" "cell g c v = Ist"
      unfolding acc by (auto simp: bcc_req_def)
    then show ?thesis using kind c False parents_two_level(2) [OF net c]
      by (simp add: cc_processEviction_def bcc_processEviction_def)
  qed
qed

text \<open>The entry of the directory for a line that is valid in a first-level cache.\<close>
lemma coherent_entry:
  assumes coh: "coherent net n h" and c: "c < n" and v: "line_state net h c a \<noteq> Ist"
  obtains j where "found net h n a = Some j" "cell h n j \<noteq> Ist"
    "dir_ok n (\<lambda>k. line_state net h k a) (cell h n j) (dir h n j)" "sharers (dir h n j) c"
proof -
  have "line_state net h n a \<noteq> Ist" using v by (rule coherentD(4) [OF coh c])
  then obtain j where j: "found net h n a = Some j" "cell h n j \<noteq> Ist" using line_state_valid [of net h n a] by metis
  have d: "dir_ok n (\<lambda>k. line_state net h k a) (cell h n j) (dir h n j)"
    using coherentD(5) [OF coh, of j] j sa.found_tag [OF j(1)] by simp
  have "sharers (dir h n j) c" using dir_okD(1) [OF d, of c] c v by simp
  with j d show thesis by (rule that)
qed

text \<open>An exclusive line becomes modified without a request.\<close>
lemma coherent_silent:
  assumes coh: "coherent net n h" and c: "c < n" and i: "found net h c a = Some i" and ci: "cell h c i \<in> {Est, Mst}"
  shows "coherent net n (set_cell c i Mst h)"
proof -
  have lc: "line_state net h c a = cell h c i" using i by (simp add: line_state_def)
  then have v: "line_state net h c a \<noteq> Ist" using ci by auto
  obtain j where j: "found net h n a = Some j" "cell h n j \<noteq> Ist"
    "dir_ok n (\<lambda>k. line_state net h k a) (cell h n j) (dir h n j)" and sc: "sharers (dir h n j) c"
    by (rule coherent_entry [OF coh c v])
  note D = dir_okD [OF j(3)]
  have ex: "exclusive (dir h n j)" using D(5) [OF sc] lc ci by fastforce
  have ls: "line_state net (set_cell c i Mst h) k a = (if k = c then Mst else line_state net h k a)" for k
    using i by (auto simp: line_state_def split: option.split)
  have "dir_ok n (\<lambda>k. if k = c then Mst else line_state net h k a) (cell h n j) (dir h n j)"
    by (rule dir_okI) (use D c sc ex in \<open>simp_all split: if_splits\<close>)
  then show ?thesis by (intro coherent_update [OF coh j(1)]) (use c i j(2) ls in auto)
qed

lemma first_fetch:
  assumes net: "two_level net n" and coh: "coherent net n h" and c: "c < n" and sh: "is_shared net n acc"
    and i: "found net h c (lineAddr req) = Some i" and t: "unat cyc < 2 ^ 61"
    and fl: "flags AND PTW = 0" "flags AND PREFETCH = 0"
    and ty: "ty = GETS \<and> cell h c i = Ist \<or> ty = GETX \<and> (cell h c i = Ist \<or> cell h c i = Sst)"
  shows "\<exists>r g. bcc_fetch acc (net c) c (lineAddr req) i ty cyc flags req h = Some (r, g) \<and> coherent net n g \<and>
    arr g c = arr h c \<and> cyc \<le> r \<and> (if ty = GETX then cell g c i = Mst else cell g c i = Sst \<or> cell g c i = Est)"
proof -
  obtain mem d where mem: "is_memory mem" and acc: "\<And>req h. acc (CacheObj n) req h =
      cache_access_step mem (invalidate (Suc d) net) (net n) WRITEBACK False n req h"
    using sh unfolding is_shared_def by blast
  let ?q = "bcc_req (net c) (lineAddr req) ty (c, i) cyc (srcId req) flags (threadId req) (isPIMInst req) h"
  have "child_req net n h c i ?q" using net coh c i fl t by (intro bcc_child_req) simp_all
  from shared_get [OF this mem, of d] ty obtain r q' g where
    g: "acc (CacheObj n) ?q h = Some (r, q', g)" "coherent net n g" "\<forall>k < n. arr g k = arr h k"
      "if ty = GETX then cell g c i = Mst else cell g c i = Sst \<or> cell g c i = Est"
    unfolding acc by (auto simp: bcc_req_def)
  have "cyc \<le> cyc + ucast (x :: 32 word)" for x using t by (intro add32) simp
  then show ?thesis using g c parents_two_level(2) [OF net c] by (auto simp: bcc_fetch_def)
qed

text \<open>What a get leaves in the first-level cache.\<close>
definition granted :: "AccessType \<Rightarrow> MESIState \<Rightarrow> bool" where
  "granted ty s \<longleftrightarrow> (if ty = GETX then s = Mst else s \<noteq> Ist)"

lemma first_get:
  assumes net: "two_level net n" and coh: "coherent net n h" and c: "c < n" and sh: "is_shared net n acc"
    and i: "found net h c (lineAddr req) = Some i" and t: "unat cyc < 2 ^ 61"
    and fl: "flags AND PTW = 0" "flags AND PREFETCH = 0" and ty: "rq_type req = GETS \<or> rq_type req = GETX"
  shows "\<exists>r g. bcc_processAccess acc (net c) c i cyc flags req h = Some (r, g) \<and> coherent net n g \<and>
    arr g c = arr h c \<and> cyc \<le> r \<and> granted (rq_type req) (cell g c i)"
proof -
  note fetch = first_fetch [OF net coh c sh i t fl]
  consider (hit) "rq_type req = GETS" "cell h c i \<noteq> Ist" | (miss) "rq_type req = GETS" "cell h c i = Ist"
    | (up) "rq_type req = GETX" "cell h c i = Ist \<or> cell h c i = Sst" | (own) "rq_type req = GETX" "cell h c i \<in> {Est, Mst}"
    using ty by (cases "cell h c i") auto
  then show ?thesis
  proof cases
    case hit
    then show ?thesis using coh by (simp add: bcc_processAccess_def granted_def)
  next
    case miss
    then show ?thesis using fetch [of GETS] by (auto simp: bcc_processAccess_def granted_def)
  next
    case up
    then show ?thesis using fetch [of GETX] by (auto simp: bcc_processAccess_def granted_def)
  next
    case own
    then show ?thesis using coh coherent_silent [OF coh c i] by (auto simp: bcc_processAccess_def granted_def)
  qed
qed

text \<open>A plain load or store request of a core to its first-level cache.\<close>
definition core_req :: "'m hier \<Rightarrow> CacheReq \<Rightarrow> bool" where
  "core_req h req \<longleftrightarrow> (rq_type req = GETS \<or> rq_type req = GETX) \<and> get_state req h = initialState req \<and>
     \<not> rq_is PTW req \<and> \<not> rq_is PREFETCH req \<and> \<not> nonCacheable req \<and> unat (rq_cycle req) < 2 ^ 60"

lemma first_access:
  assumes net: "two_level net n" and coh: "coherent net n h" and c: "c < n" and sh: "is_shared net n acc"
    and q: "core_req h req"
  shows "\<exists>r q' g. cache_access_step acc invf (net c) WRITEBACK False c req h = Some (r, q', g) \<and> coherent net n g \<and>
    rq_cycle req \<le> r \<and> granted (rq_type req) (line_state net g c (lineAddr req))"
proof -
  have Q: "rq_type req = GETS \<or> rq_type req = GETX" "get_state req h = initialState req" "rq_flags req AND PTW = 0"
    "rq_flags req AND PREFETCH = 0" "\<not> nonCacheable req" "unat (rq_cycle req) < 2 ^ 60"
    using q by (auto simp: core_req_def rq_is_def)
  let ?t = "rq_cycle req + ucast (accLat (net c))"
  have t: "later (rq_cycle req) (2 ^ 32) ?t" by (rule later_add32) (use Q(6) in simp)
  then have t61: "unat ?t < 2 ^ 61" using Q(6) by (simp add: later_def)
  have kind: "cc_kind (net c) = MESITerminalCC" using net c by (simp add: two_level_def)
  have "\<exists>i g. cache_line acc invf (net c) WRITEBACK c req ?t h = Some (Some i, g) \<and> coherent net n g \<and>
      found net g c (lineAddr req) = Some i \<and> True"
    by (rule make_line [OF coh _ Q(1)]) (use first_evict [OF net _ c sh t61] c kind in \<open>auto simp: cc_shouldAllocate_def\<close>)
  then obtain i h1 where h1: "cache_line acc invf (net c) WRITEBACK c req ?t h = Some (Some i, h1)" "coherent net n h1"
    "found net h1 c (lineAddr req) = Some i" by blast
  obtain r g where g: "bcc_processAccess acc (net c) c i ?t (rq_flags req) req h1 = Some (r, g)" "coherent net n g"
      "arr g c = arr h1 c" "?t \<le> r" "granted (rq_type req) (cell g c i)"
    using first_get [OF net h1(2) c sh h1(3) t61 Q(3,4,1)] by blast
  have "line_state net g c (lineAddr req) = cell g c i" using h1(3) g(3) by (simp add: line_state_def)
  moreover have "rq_cycle req \<le> r" using later_le [OF t] g(4) by (rule order_trans)
  moreover have "cc_startAccess (net c) req h = Some (False, req)"
    using kind Q by (auto simp: cc_startAccess_def CheckForMESIRace_def)
  ultimately show ?thesis using Q(1,5) kind h1(1) g by (auto simp: cache_access_step_def cc_processAccess_def Let_def)
qed

subsection \<open>Single writer, multiple readers\<close>

lemma coherent_swmr:
  assumes coh: "coherent net n h" and c: "c < n" "c' < n" "c \<noteq> c'" and own: "line_state net h c a \<in> {Est, Mst}"
  shows "line_state net h c' a = Ist"
proof -
  have v: "line_state net h c a \<noteq> Ist" using own by auto
  obtain j where d: "dir_ok n (\<lambda>k. line_state net h k a) (cell h n j) (dir h n j)" and sc: "sharers (dir h n j) c"
    by (rule coherent_entry [OF coh c(1) v])
  let ?S = "{c. sharers (dir h n j) c}"
  have "exclusive (dir h n j)" using dir_okD(5) [OF d sc] own by fastforce
  then have "card ?S \<le> 1" by (rule dir_okD(3) [OF d])
  moreover have "?S \<subseteq> {..<n}" using dir_okD(1) [OF d] by blast
  then have "finite ?S" by (rule finite_subset) simp
  ultimately have "c' \<notin> ?S" using sc c(3) by (metis card_le_Suc0_iff_eq One_nat_def mem_Collect_eq)
  then show ?thesis using dir_okD(1) [OF d, of c'] c(2) by simp
qed

end
