(* ===== verification/Filter_Cache.thy ===== *)
theory Filter_Cache
  imports Coherence_Safety
begin

text \<open>
  First-level caches with a filter (\<^verbatim>\<open>src/src/filter_cache.h\<close>): the path of a load or store from the core,
  through the filter and the translation, to the cache hierarchy.  The translation is a virtual call; the
  one in use, a TLB or the memory mapper, is the argument \<open>translate\<close>.  The request that the translation
  receives has fields the code never sets; they come from the argument \<open>junk\<close>.  The local variable that
  stands for the state of the core's line is the cell at \<open>dptr\<close>, outside every cache.  Hit counters and the
  records for the contention simulation are left out.
\<close>

record filter_cache =
  fc_cache :: nat
  fc_srcId :: "32 word"
  fc_reqFlags :: "32 word"

definition FilterEntry_clear :: FilterEntry where
  "FilterEntry_clear = \<lparr>rdAddr = 0, wrAddr = 0, availCycle = 0\<rparr>"

text \<open>The constructor: the node gets its filter, and the filter is cleared.\<close>
definition fc_node :: "bool \<Rightarrow> bool \<Rightarrow> 32 word \<Rightarrow> node \<Rightarrow> node" where
  "fc_node nc enableFilter numSets n = n\<lparr>filter_on := \<not> nc \<and> enableFilter, filter_setMask := numSets - 1\<rparr>"

definition FilterCache :: "nat \<Rightarrow> 32 word \<Rightarrow> 'm hier \<Rightarrow> filter_cache \<times> 'm hier" where
  "FilterCache k numSets h =
     (\<lparr>fc_cache = k, fc_srcId = - 1, fc_reqFlags = 0\<rparr>,
      h\<lparr>filt := (filt h)(k := replicate (unat numSets) FilterEntry_clear)\<rparr>)"

definition setSourceId :: "32 word \<Rightarrow> filter_cache \<Rightarrow> filter_cache" where
  "setSourceId i fc = fc\<lparr>fc_srcId := i\<rparr>"

definition setFlags :: "32 word \<Rightarrow> filter_cache \<Rightarrow> filter_cache" where
  "setFlags flags fc = fc\<lparr>fc_reqFlags := flags\<rparr>"

definition TlbTranslate ::
  "(MemReq \<Rightarrow> 't \<Rightarrow> (Address \<times> MemReq \<times> 't) option) \<Rightarrow> MemReq \<Rightarrow> filter_cache \<Rightarrow> Address \<Rightarrow> bool \<Rightarrow> 64 word \<Rightarrow> bool \<Rightarrow> 't \<Rightarrow>
   (Address \<times> 64 word \<times> 't) option" where
  "TlbTranslate tlb junk fc vLineAddr isLoad startCycle is_pim_inst t = do {
     (pLineAddr, req, t') \<leftarrow> tlb (junk\<lparr>lineAddr := vLineAddr, rq_cycle := startCycle, srcId := fc_srcId fc,
                                       isPIMInst := is_pim_inst, rq_type := (if isLoad then GETS else PUTS)\<rparr>) t;
     Some (pLineAddr, rq_cycle req, t')
   }"

text \<open>The translation in use: a TLB, the memory mapper for the process, or neither, which is a panic.\<close>
datatype 't translation =
    Tlb "MemReq \<Rightarrow> 't \<Rightarrow> (Address \<times> MemReq \<times> 't) option"
  | Mapper "64 word \<Rightarrow> Address \<Rightarrow> 't \<Rightarrow> (Address \<times> 't) option"
  | Untranslated

definition fc_translate ::
  "'t translation \<Rightarrow> MemReq \<Rightarrow> filter_cache \<Rightarrow> Address \<Rightarrow> bool \<Rightarrow> 64 word \<Rightarrow> 64 word \<Rightarrow> bool \<Rightarrow> 't \<Rightarrow>
   (Address \<times> 64 word \<times> 't) option" where
  "fc_translate tr junk fc vLineAddr isLoad cycle procIdx pim t =
     (case tr of
        Tlb tlb \<Rightarrow> TlbTranslate tlb junk fc vLineAddr isLoad cycle pim t
      | Mapper getPhyAddr \<Rightarrow> do {
          (p, t') \<leftarrow> getPhyAddr procIdx vLineAddr t;
          Some (p, cycle, t')
        }
      | Untranslated \<Rightarrow> None)"

definition fc_req :: "bool \<Rightarrow> nat \<times> nat \<Rightarrow> filter_cache \<Rightarrow> Address \<Rightarrow> bool \<Rightarrow> 64 word \<Rightarrow> 64 word \<Rightarrow> 64 word \<Rightarrow> bool \<Rightarrow> CacheReq" where
  "fc_req nc dptr fc pLineAddr isLoad cycle procIdx tid pim =
     \<lparr>lineAddr = pLineAddr, rq_type = (if isLoad then GETS else if nc then PUTX else GETX), childId = 0,
      rq_cycle = cycle, initialState = Ist, srcId = fc_srcId fc, rq_flags = fc_reqFlags fc,
      threadId = push_bit 16 procIdx OR tid, isPIMInst = pim, isFirstPTW = False, isLastPTW = False,
      pageShared = False, pageDirty = False, triggerPageShared = False, triggerPageDirty = False,
      state_ptr = dptr, nonCacheable = False, l1hit = False\<rparr>"

text \<open>The filter after an access to \<open>v\<close> that returned at cycle \<open>resp\<close>.\<close>
definition filter_fill :: "nat \<Rightarrow> Address \<Rightarrow> bool \<Rightarrow> 64 word \<Rightarrow> FilterEntry list \<Rightarrow> FilterEntry list" where
  "filter_fill idx v isLoad resp fs =
     (let e = fs ! idx;
          e1 = e\<lparr>wrAddr := (if isLoad then - 1 else v), rdAddr := v\<rparr>
      in fs[idx := (if rdAddr e \<noteq> v then e1\<lparr>availCycle := resp\<rparr> else e1)])"

definition fc_replace ::
  "'m hier access_fun \<Rightarrow> 't translation \<Rightarrow> MemReq \<Rightarrow> nat \<times> nat \<Rightarrow> node \<Rightarrow> bool \<Rightarrow> filter_cache \<Rightarrow> Address \<Rightarrow> bool \<Rightarrow>
   64 word \<Rightarrow> 64 word \<Rightarrow> 64 word \<Rightarrow> bool \<Rightarrow> 't \<times> 'm hier \<Rightarrow> (64 word \<times> 't \<times> 'm hier) option" where
  "fc_replace acc tr junk dptr n nc fc vLineAddr isLoad curCycle procIdx tid pim s = (case s of (t, h) \<Rightarrow> do {
     (pLineAddr, cycle, t1) \<leftarrow> fc_translate tr junk fc vLineAddr isLoad curCycle procIdx pim t;
     let h0 = set_cell (fst dptr) (snd dptr) Ist h;
     (respCycle, _, h1) \<leftarrow> acc (CacheObj (fc_cache fc)) (fc_req nc dptr fc pLineAddr isLoad cycle procIdx tid pim) h0;
     let k = fc_cache fc;
     let h2 = (if filter_on n
               then h1\<lparr>filt := (filt h1)(k := filter_fill (filter_idx n vLineAddr) vLineAddr isLoad respCycle (filt h1 k))\<rparr>
               else h1);
     Some (respCycle, t1, h2)
   })"

definition fc_load ::
  "'m hier access_fun \<Rightarrow> 't translation \<Rightarrow> MemReq \<Rightarrow> nat \<times> nat \<Rightarrow> node \<Rightarrow> bool \<Rightarrow> nat \<Rightarrow> filter_cache \<Rightarrow> Address \<Rightarrow>
   64 word \<Rightarrow> 64 word \<Rightarrow> 64 word \<Rightarrow> bool \<Rightarrow> 't \<times> 'm hier \<Rightarrow> (64 word \<times> 't \<times> 'm hier) option" where
  "fc_load acc tr junk dptr n nc lineBits fc vAddr curCycle procIdx tid pim s =
     (let v = drop_bit lineBits vAddr; e = filt (snd s) (fc_cache fc) ! filter_idx n v in
      if filter_on n \<and> v = rdAddr e then Some (max curCycle (availCycle e), s)
      else fc_replace acc tr junk dptr n nc fc v True curCycle procIdx tid pim s)"

definition fc_store ::
  "'m hier access_fun \<Rightarrow> 't translation \<Rightarrow> MemReq \<Rightarrow> nat \<times> nat \<Rightarrow> node \<Rightarrow> bool \<Rightarrow> nat \<Rightarrow> filter_cache \<Rightarrow> Address \<Rightarrow>
   64 word \<Rightarrow> 64 word \<Rightarrow> 64 word \<Rightarrow> bool \<Rightarrow> 't \<times> 'm hier \<Rightarrow> (64 word \<times> 't \<times> 'm hier) option" where
  "fc_store acc tr junk dptr n nc lineBits fc vAddr curCycle procIdx tid pim s =
     (let v = drop_bit lineBits vAddr; e = filt (snd s) (fc_cache fc) ! filter_idx n v in
      if filter_on n \<and> v = wrAddr e then Some (max curCycle (availCycle e), s)
      else fc_replace acc tr junk dptr n nc fc v False curCycle procIdx tid pim s)"

definition contextSwitch :: "node \<Rightarrow> filter_cache \<Rightarrow> 'm hier \<Rightarrow> 'm hier" where
  "contextSwitch n fc h =
     (if filter_on n then h\<lparr>filt := (filt h)(fc_cache fc := map (\<lambda>_. FilterEntry_clear) (filt h (fc_cache fc)))\<rparr> else h)"

definition clflush :: "nat \<Rightarrow> (nat \<Rightarrow> node) \<Rightarrow> filter_cache \<Rightarrow> Address \<Rightarrow> 64 word \<Rightarrow> 'm hier \<Rightarrow> (64 word \<times> 'm hier) option" where
  "clflush levels net fc la curCycle h = do {
     (respCycle, _, h') \<leftarrow> clflush_all levels net (fc_cache fc)
       \<lparr>inv_lineAddr = la, inv_type = INV, inv_cycle = curCycle, inv_srcId = fc_srcId fc, inv_clflush = True\<rparr> True h;
     Some (respCycle, h')
   }"

text \<open>The lines of a page, those that the first-level cache holds.\<close>
definition clflush_page ::
  "nat \<Rightarrow> (nat \<Rightarrow> node) \<Rightarrow> nat \<Rightarrow> nat \<Rightarrow> nat \<Rightarrow> filter_cache \<Rightarrow> Address \<Rightarrow> 64 word \<Rightarrow> 'm hier \<Rightarrow> (64 word \<times> 'm hier) option" where
  "clflush_page levels net page_shift lineBits lines fc ppn startCycle h =
     fold_opt (\<lambda>index (max_cycle, h). do {
         let la = push_bit (page_shift - lineBits) ppn + of_nat index;
         (lineId, _) \<leftarrow> sa_lookup (arr_hash (net (fc_cache fc))) la False (arr h (fc_cache fc));
         if lineId = None then Some (max_cycle, h)
         else do {
           (respCycle, h') \<leftarrow> clflush levels net fc la startCycle h;
           Some (if max_cycle > respCycle then max_cycle else respCycle, h')
         }
       }) [0..<lines] (startCycle, h)"

subsection \<open>Accesses of the cores\<close>

text \<open>Accesses that reach the first-level caches above the shared cache.\<close>
definition is_first :: "(nat \<Rightarrow> node) \<Rightarrow> nat \<Rightarrow> 'm hier access_fun \<Rightarrow> bool" where
  "is_first net n acc \<longleftrightarrow> (\<exists>up invf. is_shared net n up \<and>
     (\<forall>c < n. \<forall>req h. acc (CacheObj c) req h = cache_access_step up invf (net c) WRITEBACK False c req h))"

lemma hierarchy_first:
  "0 < lat \<Longrightarrow> is_first net n (mem_access (Suc (Suc (Suc d))) net (\<lambda>_. SimpleMemory_access lat) WRITEBACK False (Suc lv))"
  unfolding is_first_def
  by (intro exI [of _ "mem_access (Suc (Suc d)) net (\<lambda>_. SimpleMemory_access lat) WRITEBACK False (Suc lv)"]
            exI [of _ "invalidate (Suc lv) net"])
     (simp add: SimpleMemory_shared mem_access.simps(2))

text \<open>Only the lines and the directory of the caches of the hierarchy matter.\<close>
lemma coherent_cong:
  assumes "coherent net n h" and "\<And>k. k \<le> n \<Longrightarrow> cell g k = cell h k" and "dir g = dir h" and "arr g = arr h"
  shows "coherent net n g"
proof -
  have ls: "line_state net g k a = line_state net h k a" if "k \<le> n" for k a
    by (rule line_state_eqI) (simp_all add: assms(2,4) that)
  have "arrays_ok net n g" using coherentD(1) [OF assms(1)] assms(2,4) by (simp add: arrays_ok_def)
  moreover have "dir_ok n (\<lambda>c. if cell g n j = Ist then Ist else line_state net g c (tag g n j)) (cell g n j) (dir g n j)" for j
    using coherentD(5) [OF assms(1), of j] assms(2) [of n] ls
    unfolding assms(3,4) by (subst dir_ok_cong [of n _ "\<lambda>c. if cell h n j = Ist then Ist else line_state net h c (tag h n j)"]) simp_all
  moreover have "line_state net g n a \<noteq> Ist" if "c < n" "line_state net g c a \<noteq> Ist" for c a
    using coherentD(4) [OF assms(1) that(1), of a] that ls by simp
  ultimately show ?thesis by (simp add: coherent_def)
qed

lemma fc_replace_ok:
  assumes net: "two_level net n" and coh: "coherent net n h" and acc: "is_first net n acc" and c: "fc_cache fc < n"
    and d: "n < fst dptr" and fl: "fc_reqFlags fc AND PTW = 0" "fc_reqFlags fc AND PREFETCH = 0"
    and tr: "fc_translate tr junk fc v isLoad cur procIdx pim t = Some (p, cyc, t1)" and cyc: "unat cyc < 2 ^ 60"
  shows "\<exists>r g. fc_replace acc tr junk dptr m False fc v isLoad cur procIdx tid pim (t, h) = Some (r, t1, g) \<and>
    coherent net n g \<and> cyc \<le> r \<and> granted (if isLoad then GETS else GETX) (line_state net g (fc_cache fc) p)"
proof -
  let ?h = "set_cell (fst dptr) (snd dptr) Ist h" and ?q = "fc_req False dptr fc p isLoad cyc procIdx tid pim"
  have coh0: "coherent net n ?h" by (rule coherent_cong [OF coh]) (use d in auto)
  have cr: "core_req ?h ?q" using fl cyc by (simp add: core_req_def fc_req_def get_state_def rq_is_def)
  have q: "lineAddr ?q = p" "rq_cycle ?q = cyc" "rq_type ?q = (if isLoad then GETS else GETX)" by (simp_all add: fc_req_def)
  obtain up invf where up: "is_shared net n up"
      "acc (CacheObj (fc_cache fc)) ?q ?h = cache_access_step up invf (net (fc_cache fc)) WRITEBACK False (fc_cache fc) ?q ?h"
    using acc c unfolding is_first_def by blast
  from first_access [OF net coh0 c up(1) cr, of invf, unfolded q, folded up(2)]
  obtain r q' g where g: "acc (CacheObj (fc_cache fc)) ?q ?h = Some (r, q', g)" "coherent net n g"
      "cyc \<le> r" "granted (if isLoad then GETS else GETX) (line_state net g (fc_cache fc) p)" by blast
  define g' where "g' = (if filter_on m then g\<lparr>filt := (filt g)(fc_cache fc :=
      filter_fill (filter_idx m v) v isLoad r (filt g (fc_cache fc)))\<rparr> else g)"
  have "coherent net n g'" by (rule coherent_cong [OF g(2)]) (simp_all add: g'_def)
  moreover have "line_state net g' (fc_cache fc) p = line_state net g (fc_cache fc) p"
    by (rule line_state_eqI) (simp_all add: g'_def)
  moreover have "fc_replace acc tr junk dptr m False fc v isLoad cur procIdx tid pim (t, h) = Some (r, t1, g')"
    using tr g(1) by (simp add: fc_replace_def g'_def Let_def)
  ultimately show ?thesis using g(3,4) by auto
qed

subsection \<open>The filter and invalidations\<close>

lemma drop_bit_not_max: "0 < lb \<Longrightarrow> drop_bit lb (x :: 64 word) \<noteq> - 1"
proof
  assume "0 < lb" and "drop_bit lb x = - 1"
  then have "bit x (lb + 63)" by (simp flip: bit_drop_bit_eq [of lb x, unfolded comp_def, THEN fun_cong])
  then show False using \<open>0 < lb\<close> bit_imp_le_length [of x "lb + 63"] by simp
qed

lemma filter_drop_nth:
  assumes "filter_on m" and "filter_idx m v < length fs"
  shows "rdAddr (filter_drop m a fs ! filter_idx m v) = (if rdAddr (fs ! filter_idx m v) = a \<and> filter_idx m v = filter_idx m a then - 1
      else rdAddr (fs ! filter_idx m v))"
    and "availCycle (filter_drop m a fs ! filter_idx m v) = availCycle (fs ! filter_idx m v)"
  using assms by (cases "filter_idx m a = filter_idx m v"; auto simp: filter_drop_def Let_def)+

text \<open>
  C32. The filter is indexed and tagged by virtual lines, but an invalidation looks for the physical line in it.
  After the invalidation of a valid line the first-level cache no longer holds it, yet a load whose virtual line
  \<open>v\<close> was in the filter still hits there, without any access to the caches, exactly when \<open>v\<close> differs from the
  physical line: the filter only follows the cache when the translation is the identity.
\<close>
theorem filter_hit_after_invalidation:
  assumes "sa_ok (arr h c)" and "cc_kind (net c) = MESITerminalCC" and "found net h c a = Some i"
    and "cell h c i \<noteq> Ist" and "filter_on (net c)" and "fc_cache fc = c" and "0 < lb"
    and "v = drop_bit lb vAddr" and "filter_idx (net c) v < length (filt h c)"
    and "rdAddr (filt h c ! filter_idx (net c) v) = v"
  shows "\<exists>r wb g. invalidate (Suc d) net c
      \<lparr>inv_lineAddr = a, inv_type = INV, inv_cycle = cyc, inv_srcId = src, inv_clflush = False\<rparr> False h = Some (r, wb, g) \<and>
    line_state net g c a = Ist \<and>
    ((\<exists>resp. \<forall>acc tr. fc_load acc tr junk dptr (net c) False lb fc vAddr cur procIdx tid pim (t, g) = Some (resp, t, g)) \<longleftrightarrow> v \<noteq> a)"
proof -
  let ?r = "\<lparr>inv_lineAddr = a, inv_type = INV, inv_cycle = cyc, inv_srcId = src, inv_clflush = False\<rparr>"
  let ?f = "filter_invalidate (net c) c a h"
  let ?g = "set_cell c i Ist ?f"
  have inv: "invalidate (Suc d) net c ?r False h = Some (cyc + ucast (invLat (net c)), cell h c i = Mst, ?g)"
    using invalidate_terminal [of h c net ?r i d False] assms(1-4) by (simp add: inv_result_def)
  have st: "line_state net ?g c a = Ist" using assms(3) by (simp add: line_state_def)
  let ?e = "filt ?g c ! filter_idx (net c) v"
  note nth = filter_drop_nth [OF assms(5,9), of a]
  have e: "rdAddr ?e = (if v = a then - 1 else v)" using nth(1) assms(10) by auto
  show ?thesis
  proof (cases "v = a")
    case True
    have "v \<noteq> - 1" using assms(7,8) drop_bit_not_max by simp
    then have "v \<noteq> rdAddr ?e" using e True by simp
    then have "fc_load (\<lambda>_ _ _. None) Untranslated junk dptr (net c) False lb fc vAddr cur procIdx tid pim (t, ?g) = None"
      using assms(6,8) by (simp add: fc_load_def fc_replace_def fc_translate_def Let_def)
    then have "\<not> (\<exists>resp. \<forall>acc tr. fc_load acc tr junk dptr (net c) False lb fc vAddr cur procIdx tid pim (t, ?g) = Some (resp, t, ?g))"
      by (metis option.distinct(1))
    then show ?thesis using inv st True by auto
  next
    case False
    then have "v = rdAddr ?e" using e by simp
    then have "fc_load acc tr junk dptr (net c) False lb fc vAddr cur procIdx tid pim (t, ?g) = Some (max cur (availCycle ?e), t, ?g)"
      for acc and tr
      using assms(5,6,8) by (simp add: fc_load_def Let_def)
    then show ?thesis using inv st False by auto
  qed
qed

text \<open>A cache with two sets of one line; its second set holds line 5.\<close>
definition sample_array :: SetAssocArray where
  "sample_array = \<lparr>sa_array = [0, 5], sa_rp = LRUPolicy (LRUReplPolicy False 2), sa_assoc = 1, sa_numSets = 2\<rparr>"

definition sample_node :: node where
  "sample_node = \<lparr>cc_kind = MESITerminalCC, bcc_selfId = 0, parents = [CacheObj 1], parentRTTs = [0], children = [],
     childrenRTTs = [], cache_children_num = 0, nonInclusiveHack = False, accLat = 0, invLat = 3, arr_hash = id_hash 0,
     filter_on = True, filter_setMask = 1\<rparr>"

definition sample_hier :: "unit hier" where
  "sample_hier = \<lparr>cell = (\<lambda>_ _. Est), dir = (\<lambda>_ _. entry_clear), arr = (\<lambda>_. sample_array),
     filt = (\<lambda>_. [FilterEntry_clear, \<lparr>rdAddr = 9, wrAddr = - 1, availCycle = 7\<rparr>]), mem = ()\<rparr>"

theorem filter_hit_after_invalidation_witness:
  "\<forall>junk. \<exists>r wb g. invalidate 1 (\<lambda>_. sample_node) 0
      \<lparr>inv_lineAddr = 5, inv_type = INV, inv_cycle = 10, inv_srcId = 0, inv_clflush = False\<rparr> False sample_hier = Some (r, wb, g) \<and>
    line_state (\<lambda>_. sample_node) g 0 5 = Ist \<and>
    (\<exists>resp. \<forall>acc tr. fc_load acc tr junk (2, 0) sample_node False 6 \<lparr>fc_cache = 0, fc_srcId = 0, fc_reqFlags = 0\<rparr> 576 12 0 0 False ((), g) =
       Some (resp, (), g))"
proof
  fix junk
  let ?net = "\<lambda>_ :: nat. sample_node" and ?fc = "\<lparr>fc_cache = 0, fc_srcId = 0, fc_reqFlags = 0\<rparr>"
  have f: "found ?net sample_hier 0 5 = Some 1" "filter_idx sample_node 9 = 1" "drop_bit 6 576 = (9 :: 64 word)"
    by code_simp+
  have g: "sa_ok (arr sample_hier 0)" "cc_kind (?net 0) = MESITerminalCC" "cell sample_hier 0 1 \<noteq> Ist"
    "filter_on (?net 0)" "filter_idx (?net 0) 9 < length (filt sample_hier 0)"
    "rdAddr (filt sample_hier 0 ! filter_idx (?net 0) 9) = 9"
    unfolding f(2) by (simp_all add: sa_ok_def sample_hier_def sample_array_def sample_node_def)
  have "(9 :: 64 word) \<noteq> 5" by simp
  then show "\<exists>r wb g. invalidate 1 ?net 0
      \<lparr>inv_lineAddr = 5, inv_type = INV, inv_cycle = 10, inv_srcId = 0, inv_clflush = False\<rparr> False sample_hier = Some (r, wb, g) \<and>
    line_state ?net g 0 5 = Ist \<and>
    (\<exists>resp. \<forall>acc tr. fc_load acc tr junk (2, 0) sample_node False 6 ?fc 576 12 0 0 False ((), g) = Some (resp, (), g))"
    using filter_hit_after_invalidation [OF g(1,2) f(1) g(3,4), of ?fc 6 9 576 0 10 0 junk "(2, 0)" 12 0 0 False "()"]
      f(3) g(5,6) unfolding One_nat_def by simp
qed

end
