(* ===== verification/System.thy ===== *)
theory System
  imports Walker_Properties Filter_Cache
begin

text \<open>
  The parts put together: cores that load and store through their filters, their data TLBs with the shared
  page-table walker, and the cache hierarchy over the memory of fixed latency.
\<close>

subsection \<open>Runs\<close>

definition data_tlb_access ::
  "'m mem_parent \<Rightarrow> nat \<Rightarrow> MemReq \<Rightarrow> walker \<times> 'm sim \<Rightarrow> (Address \<times> MemReq \<times> walker \<times> 'm sim) option" where
  "data_tlb_access parent core req st = tlb_access parent core False req (fst st) (snd st)"

text \<open>An access of a core, by virtual address and cycle.\<close>
record core_access =
  ca_core :: nat
  ca_load :: bool
  ca_addr :: Address
  ca_cycle :: "64 word"
  ca_proc :: "64 word"
  ca_tid :: "64 word"
  ca_pim :: bool

text \<open>What is fixed in a run: the nodes, the filter caches, the junk of the translation's requests, the address of
  the local variable, and the latency of the memory.\<close>
record config =
  cf_net :: "nat \<Rightarrow> node"
  cf_filters :: "nat \<Rightarrow> filter_cache"
  cf_junk :: MemReq
  cf_dptr :: "nat \<times> nat"
  cf_latency :: "32 word"

definition hierarchy_access :: "config \<Rightarrow> 'h hier access_fun" where
  "hierarchy_access cf = mem_access 3 (cf_net cf) (\<lambda>_. SimpleMemory_access (cf_latency cf)) WRITEBACK False 2"

definition system_access ::
  "'m mem_parent \<Rightarrow> config \<Rightarrow> core_access \<Rightarrow> (walker \<times> 'm sim) \<times> 'h hier \<Rightarrow> (64 word \<times> (walker \<times> 'm sim) \<times> 'h hier) option" where
  "system_access parent cf a st =
     (let c = ca_core a; fc = cf_filters cf c; tr = Tlb (data_tlb_access parent c); n = cf_net cf c;
          lb = sim_line_bits (snd (fst st))
      in if ca_load a
         then fc_load (hierarchy_access cf) tr (cf_junk cf) (cf_dptr cf) n False lb fc (ca_addr a) (ca_cycle a)
                (ca_proc a) (ca_tid a) (ca_pim a) st
         else fc_store (hierarchy_access cf) tr (cf_junk cf) (cf_dptr cf) n False lb fc (ca_addr a) (ca_cycle a)
                (ca_proc a) (ca_tid a) (ca_pim a) st)"

primrec system_run ::
  "'m mem_parent \<Rightarrow> config \<Rightarrow> core_access list \<Rightarrow> (walker \<times> 'm sim) \<times> 'h hier \<Rightarrow>
   (64 word list \<times> (walker \<times> 'm sim) \<times> 'h hier) option" where
  "system_run parent cf [] st = Some ([], st)"
| "system_run parent cf (a # as) st = do {
     (r, st1) \<leftarrow> system_access parent cf a st;
     (rs, st2) \<leftarrow> system_run parent cf as st1;
     Some (r # rs, st2)
   }"

subsection \<open>One access\<close>

text \<open>\<open>n\<close> cores, each with its first-level cache, and enough pages for \<open>m\<close> accesses.\<close>
definition system_ok :: "config \<Rightarrow> nat \<Rightarrow> nat \<Rightarrow> (walker \<times> 'm sim) \<times> 'h hier \<Rightarrow> bool" where
  "system_ok cf n m st \<longleftrightarrow> two_level (cf_net cf) n \<and> 0 < cf_latency cf \<and> n < fst (cf_dptr cf) \<and>
     (\<forall>c < n. fc_cache (cf_filters cf c) = c \<and> fc_reqFlags (cf_filters cf c) AND PTW = 0 \<and>
        fc_reqFlags (cf_filters cf c) AND PREFETCH = 0 \<and> get_tlb c False (snd (fst st)) \<noteq> None) \<and>
     sys_inv m (fst (fst st)) (snd (fst st)) \<and> coherent (cf_net cf) n (snd st)"

definition access_ok :: "nat \<Rightarrow> core_access \<Rightarrow> bool" where
  "access_ok n a \<longleftrightarrow> ca_core a < n \<and> unat (ca_cycle a) < 2 ^ 59"

lemma hierarchy_access_first: "0 < cf_latency cf \<Longrightarrow> is_first (cf_net cf) n (hierarchy_access cf)"
  unfolding hierarchy_access_def using hierarchy_first [of "cf_latency cf" "cf_net cf" n 0 1]
  by (simp add: numeral_3_eq_3 numeral_2_eq_2)

lemma sys_inv_weaken: "sys_inv (Suc m) w s \<Longrightarrow> sys_inv m w s"
proof -
  assume "sys_inv (Suc m) w s"
  then obtain p where "\<not> pw_timing w" "\<not> enable_shared_memory s" "line_shift w = sim_line_bits s" "sim_page_shift s = 12"
      "cur_paging w s = Some p" "paging_good (Suc m) p"
      "tlbs_good (tlb_good (2 * int (Suc m)) (sim_page_shift s) (sim_line_bits s) (page_map p)) (cores s)"
    unfolding sys_inv_def by blast
  then show ?thesis by (intro sys_invI) (auto intro: paging_good_weaken tlbs_good_weaken)
qed

text \<open>The line that the page tables give for a virtual address.\<close>
definition translated_line :: "nat \<Rightarrow> paging \<Rightarrow> Address \<Rightarrow> Address option" where
  "translated_line lb p va =
     map_option (\<lambda>x. phys_line 12 lb (of_nat x) (drop_bit lb va))
       (page_map p (index_path LongMode_Normal (push_bit lb (drop_bit lb va))))"

text \<open>An access that goes past the filter.\<close>
lemma replace_ok:
  assumes ok: "system_ok cf n (Suc m) ((w, s), h)" and a: "access_ok n a" and p: "cur_paging w s = Some p"
    and v: "v = drop_bit (sim_line_bits s) (ca_addr a)"
  shows "\<exists>r w' s' h' p' l. fc_replace (hierarchy_access cf) (Tlb (data_tlb_access parent (ca_core a))) (cf_junk cf) (cf_dptr cf)
       (cf_net cf (ca_core a)) False (cf_filters cf (ca_core a)) v isLoad (ca_cycle a) (ca_proc a) (ca_tid a) (ca_pim a)
       ((w, s), h) = Some (r, (w', s'), h') \<and>
     system_ok cf n m ((w', s'), h') \<and> cur_paging w' s' = Some p' \<and> page_map p \<subseteq>\<^sub>m page_map p' \<and>
     sim_line_bits s' = sim_line_bits s \<and> ca_cycle a \<le> r \<and>
     translated_line (sim_line_bits s) p' (ca_addr a) = Some l \<and>
     granted (if isLoad then GETS else GETX) (line_state (cf_net cf) h' (ca_core a) l)"
proof -
  let ?c = "ca_core a" and ?lb = "sim_line_bits s"
  let ?fc = "cf_filters cf ?c"
  have c: "?c < n" "unat (ca_cycle a) < 2 ^ 59" using a by (simp_all add: access_ok_def)
  have S: "two_level (cf_net cf) n" "0 < cf_latency cf" "n < fst (cf_dptr cf)" "sys_inv (Suc m) w s" "coherent (cf_net cf) n h"
    "fc_cache ?fc = ?c" "fc_reqFlags ?fc AND PTW = 0" "fc_reqFlags ?fc AND PREFETCH = 0" "get_tlb ?c False s \<noteq> None"
    using ok c(1) by (simp_all add: system_ok_def)
  obtain t0 where t0: "get_tlb ?c False s = Some t0" using S(9) by auto
  let ?req = "(cf_junk cf)\<lparr>lineAddr := v, rq_cycle := ca_cycle a, srcId := fc_srcId ?fc, isPIMInst := ca_pim a,
    rq_type := (if isLoad then GETS else PUTS)\<rparr>"
  let ?q = "index_path LongMode_Normal (push_bit ?lb v)"
  obtain x req' w' s' p' where t: "tlb_access parent ?c False ?req w s = Some (phys_line 12 ?lb (of_nat x) v, req', w', s')"
      "sys_inv m w' s'" "cur_paging w' s' = Some p'" "page_map p' = (page_map p)(?q \<mapsto> x)"
      "page_map p ?q \<noteq> None \<longrightarrow> page_map p ?q = Some x" "sim_line_bits s' = ?lb"
      "\<forall>c i. get_tlb c i s' = None \<longleftrightarrow> get_tlb c i s = None" "later (ca_cycle a) (2 ^ 33) (rq_cycle req')"
    using tlb_access_ok [OF S(4) p t0, where req = ?req and parent = parent and q = ?q] c(2) by auto
  have "fc_translate (Tlb (data_tlb_access parent ?c)) (cf_junk cf) ?fc v isLoad (ca_cycle a) (ca_proc a) (ca_pim a) (w, s) =
      Some (phys_line 12 ?lb (of_nat x) v, rq_cycle req', (w', s'))"
    using t(1) by (simp add: fc_translate_def TlbTranslate_def data_tlb_access_def)
  moreover have "unat (rq_cycle req') < 2 ^ 60" using t(8) c(2) by (simp add: later_def)
  moreover have "fc_cache ?fc < n" using S(6) c(1) by simp
  ultimately obtain r g where g: "fc_replace (hierarchy_access cf) (Tlb (data_tlb_access parent ?c)) (cf_junk cf) (cf_dptr cf)
        (cf_net cf ?c) False ?fc v isLoad (ca_cycle a) (ca_proc a) (ca_tid a) (ca_pim a) ((w, s), h) = Some (r, (w', s'), g)"
      "coherent (cf_net cf) n g" "rq_cycle req' \<le> r"
      "granted (if isLoad then GETS else GETX) (line_state (cf_net cf) g ?c (phys_line 12 ?lb (of_nat x) v))"
    using fc_replace_ok [OF S(1,5) hierarchy_access_first [OF S(2)] _ S(3,7,8), of "Tlb (data_tlb_access parent ?c)" "cf_junk cf" v
        isLoad "ca_cycle a" "ca_proc a" "ca_pim a" "(w, s)"] unfolding S(6) by blast
  have "system_ok cf n m ((w', s'), g)" using ok t(2,7) g(2) by (simp add: system_ok_def)
  moreover have "page_map p \<subseteq>\<^sub>m page_map p'" using t(4,5) by (auto simp: map_le_def)
  moreover have "ca_cycle a \<le> r" using later_le [OF t(8)] g(3) by (rule order_trans)
  moreover have "translated_line ?lb p' (ca_addr a) = Some (phys_line 12 ?lb (of_nat x) v)"
    using t(4) v by (simp add: translated_line_def)
  ultimately show ?thesis using g(1,4) t(3,6) by blast
qed

lemma system_access_ok:
  assumes ok: "system_ok cf n (Suc m) ((w, s), h)" and a: "access_ok n a" and p: "cur_paging w s = Some p"
  shows "\<exists>r w' s' h' p'. system_access parent cf a ((w, s), h) = Some (r, (w', s'), h') \<and>
     system_ok cf n m ((w', s'), h') \<and> cur_paging w' s' = Some p' \<and> page_map p \<subseteq>\<^sub>m page_map p' \<and>
     sim_line_bits s' = sim_line_bits s \<and> ca_cycle a \<le> r \<and>
     (\<not> filter_on (cf_net cf (ca_core a)) \<longrightarrow> (\<exists>l. translated_line (sim_line_bits s) p' (ca_addr a) = Some l \<and>
        granted (if ca_load a then GETS else GETX) (line_state (cf_net cf) h' (ca_core a) l)))"
proof -
  let ?n = "cf_net cf (ca_core a)" and ?v = "drop_bit (sim_line_bits s) (ca_addr a)"
  let ?e = "filt h (fc_cache (cf_filters cf (ca_core a))) ! filter_idx ?n ?v"
  let ?hit = "filter_on ?n \<and> ?v = (if ca_load a then rdAddr ?e else wrAddr ?e)"
  show ?thesis
  proof (cases ?hit)
    case True
    then have "system_access parent cf a ((w, s), h) = Some (max (ca_cycle a) (availCycle ?e), (w, s), h)"
      by (auto simp: system_access_def fc_load_def fc_store_def Let_def)
    moreover have "system_ok cf n m ((w, s), h)" using ok sys_inv_weaken by (auto simp: system_ok_def)
    ultimately show ?thesis using p True by auto
  next
    case False
    then have "system_access parent cf a ((w, s), h) = fc_replace (hierarchy_access cf)
        (Tlb (data_tlb_access parent (ca_core a))) (cf_junk cf) (cf_dptr cf) ?n False (cf_filters cf (ca_core a)) ?v (ca_load a)
        (ca_cycle a) (ca_proc a) (ca_tid a) (ca_pim a) ((w, s), h)"
      by (auto simp: system_access_def fc_load_def fc_store_def Let_def)
    then show ?thesis using replace_ok [OF ok a p refl, of parent "ca_load a"] by metis
  qed
qed

lemma system_run_ok:
  assumes "system_ok cf n (length as) ((w, s), h)" and "\<forall>a \<in> set as. access_ok n a" and "cur_paging w s = Some p"
  shows "\<exists>rs w' s' h' p'. system_run parent cf as ((w, s), h) = Some (rs, (w', s'), h') \<and>
     system_ok cf n 0 ((w', s'), h') \<and> cur_paging w' s' = Some p' \<and> page_map p \<subseteq>\<^sub>m page_map p' \<and>
     list_all2 (\<lambda>a r. ca_cycle a \<le> r) as rs"
  using assms
proof (induction as arbitrary: w s h p)
  case (Cons a as)
  have "system_ok cf n (Suc (length as)) ((w, s), h)" "access_ok n a" using Cons.prems by simp_all
  from system_access_ok [OF this Cons.prems(3)] obtain r w1 s1 h1 p1 where
    1: "system_access parent cf a ((w, s), h) = Some (r, (w1, s1), h1)" "system_ok cf n (length as) ((w1, s1), h1)"
      "cur_paging w1 s1 = Some p1" "page_map p \<subseteq>\<^sub>m page_map p1" "ca_cycle a \<le> r" by blast
  obtain rs w' s' h' p' where
    2: "system_run parent cf as ((w1, s1), h1) = Some (rs, (w', s'), h')" "system_ok cf n 0 ((w', s'), h')"
      "cur_paging w' s' = Some p'" "page_map p1 \<subseteq>\<^sub>m page_map p'" "list_all2 (\<lambda>a r. ca_cycle a \<le> r) as rs"
    using Cons.IH [OF 1(2) _ 1(3)] Cons.prems(2) by auto
  have "system_run parent cf (a # as) ((w, s), h) = Some (r # rs, (w', s'), h')" using 1(1) 2(1) by simp
  then show ?case using 2 1(5) map_le_trans [OF 1(4) 2(4)] by auto
qed auto

subsection \<open>The start\<close>

text \<open>Caches without a valid line are coherent.\<close>
lemma coherent_empty:
  assumes "\<And>k i. cell h k i = Ist" and "\<And>j. dir h n j = entry_clear" and "\<And>k. k \<le> n \<Longrightarrow> sa_ok (arr h k)"
  shows "coherent net n h"
  using assms by (simp add: coherent_def arrays_ok_def sa.indexed_def dir_ok_empty entry_clear_def line_state_def split: option.split)

text \<open>Two cores with one-way caches of two lines under a shared cache of four, all empty.\<close>
definition duo_net :: "nat \<Rightarrow> node" where
  "duo_net k = (if k < 2
     then sample_node\<lparr>bcc_selfId := k, parents := [CacheObj 2], filter_on := False\<rparr>
     else sample_node\<lparr>cc_kind := MESICC, parents := [MemoryObj 0], children := [0, 1], childrenRTTs := [1, 1],
            cache_children_num := 2, accLat := 10, filter_on := False\<rparr>)"

definition empty_array :: "nat \<Rightarrow> SetAssocArray" where
  "empty_array k = \<lparr>sa_array = replicate k 0, sa_rp = LRUPolicy (LRUReplPolicy True k), sa_assoc = 1, sa_numSets = k\<rparr>"

definition duo_hier :: "unit hier" where
  "duo_hier = \<lparr>cell = (\<lambda>_ _. Ist), dir = (\<lambda>_ _. entry_clear), arr = (\<lambda>k. empty_array (if k < 2 then 2 else 4)),
     filt = (\<lambda>_. []), mem = ()\<rparr>"

definition duo_config :: config where
  "duo_config = \<lparr>cf_net = duo_net, cf_filters = (\<lambda>c. \<lparr>fc_cache = c, fc_srcId = of_nat c, fc_reqFlags = 0\<rparr>),
     cf_junk = sample_req, cf_dptr = (3, 0), cf_latency = 100\<rparr>"

abbreviation duo_walker :: walker where
  "duo_walker \<equiv> SetPaging 0 (Some 0) (PageTableWalker 6 False)"

lemma duo_hier_coherent: "coherent duo_net 2 duo_hier"
  by (rule coherent_empty) (simp_all add: duo_hier_def empty_array_def sa_ok_def)

lemma duo_two_level: "two_level duo_net 2"
  by (auto simp: two_level_def duo_net_def sample_node_def MAX_CACHE_CHILDREN_def upt_rec numeral_2_eq_2)

lemma duo_start:
  obtains p t where "LongModePaging hex_start LongMode_Normal = Some p"
    "CommonTlb 0 (TlbEntry 0 0) 0 0 False 2 1 1 6 12 LRU = Some t"
    "system_ok duo_config 2 2 ((duo_walker, two_cores p t), duo_hier)"
    "cur_paging duo_walker (two_cores p t) = Some p"
proof -
  obtain p where p: "LongModePaging hex_start LongMode_Normal = Some p" "paging_inv p" "pg_mode p = LongMode_Normal"
    "page_map p = Map.empty" "has_pages 8 p" "mem_access_time p = 100"
    using LongModePaging_ok [OF hex_start_simps(1,2), of LongMode_Normal] hex_start_simps(3) by (auto simp: depth_def)
  obtain t where t: "CommonTlb 0 (TlbEntry 0 0) 0 0 False 2 1 1 6 12 LRU = Some t" by (simp add: CommonTlb_def)
  note S = two_cores_start [OF t p(2-6)]
  have "get_tlb c False (two_cores p t) \<noteq> None" if "c < 2" for c
    using that by (auto simp: get_tlb_def two_cores_def less_2_cases_iff)
  then have "system_ok duo_config 2 2 ((duo_walker, two_cores p t), duo_hier)"
    using S(1) duo_two_level duo_hier_coherent by (simp add: system_ok_def duo_config_def)
  then show thesis using that p(1) t S(2) by blast
qed

end
