(* ===== verification/Random_Mapper.thy ===== *)
theory Random_Mapper
  imports Prelude
begin

text \<open>
  The random memory mapper (\<^verbatim>\<open>src/src/random_memory_mapper.h\<close>) that translates addresses when no TLB
  is simulated, with the generator it draws pages from (\<^verbatim>\<open>src/src/rng.h\<close>).  A process is an \<^typ>\<open>int\<close>,
  and \<open>- 1\<close> marks a free page.  The seed contains a shift of the 32-bit process index by 48, whose value the
  language leaves open; it is the argument \<open>shl48\<close>.
\<close>

subsection \<open>The generator\<close>

definition RNG_A :: "64 word" where "RNG_A = 0x5DEECE66D"
definition RNG_C :: "64 word" where "RNG_C = 0xB"
definition RNG_M :: "64 word" where "RNG_M = push_bit 48 1 - 1"

definition rng_next :: "64 word \<Rightarrow> 64 word \<times> 64 word" where
  "rng_next s = (let s' = (RNG_A * s + RNG_C) AND RNG_M in (drop_bit 16 s', s'))"

definition rng_seed :: "64 word \<Rightarrow> 64 word" where
  "rng_seed seed = push_bit 16 seed + 0x330E"

subsection \<open>The mapper\<close>

record RandomMemoryMapper =
  rm_lineBits :: nat
  memory_footprint :: "64 word"
  physical_page_replacement :: "64 word"
  free_physical_pages_remaining :: int
  page_translation :: "int \<Rightarrow> 64 word \<rightharpoonup> nat"
  free_physical_pages :: "int list"

definition RandomMemoryMapper :: "64 word \<Rightarrow> nat \<Rightarrow> RandomMemoryMapper" where
  "RandomMemoryMapper mem_capacity line_bits =
     \<lparr>rm_lineBits = line_bits, memory_footprint = 0, physical_page_replacement = 0,
      free_physical_pages_remaining = int (unat (drop_bit 12 mem_capacity)),
      page_translation = (\<lambda>_. Map.empty),
      free_physical_pages = replicate (unat (drop_bit 12 mem_capacity)) (- 1)\<rparr>"

text \<open>The pages still to be visited before the search is back where it began.\<close>
definition search_left :: "nat \<Rightarrow> nat \<Rightarrow> nat \<Rightarrow> nat" where
  "search_left n start p = (if p < start then start - p - 1 else start + n - p - 1)"

lemma search_left_next:
  assumes "start < n" and "p < n" and "Suc p mod n \<noteq> start"
  shows "search_left n start (Suc p mod n) < search_left n start p"
  using assms by (cases "Suc p = n") (auto simp: search_left_def)

text \<open>The search for a free page; an index outside the vector is an abort.\<close>
function rm_search :: "int list \<Rightarrow> nat \<Rightarrow> nat \<Rightarrow> nat option" where
  "rm_search fs start p =
     (if \<not> (start < length fs \<and> p < length fs) then None
      else let p' = Suc p mod length fs in
        if p' \<noteq> start \<and> fs ! p' \<noteq> - 1 then rm_search fs start p' else Some p')"
  by auto
termination
  by (relation "measure (\<lambda>(fs, start, p). search_left (length fs) start p)") (auto simp: search_left_next)

declare rm_search.simps [simp del]

definition rm_assign :: "(int \<Rightarrow> 64 word) \<Rightarrow> int \<Rightarrow> 64 word \<Rightarrow> 64 word \<Rightarrow> RandomMemoryMapper \<Rightarrow> RandomMemoryMapper option" where
  "rm_assign shl48 procIdx vLineAddr vpn m = do {
     let fs = free_physical_pages m;
     let m1 = m\<lparr>memory_footprint := memory_footprint m + push_bit 12 1\<rparr>;
     let seed = rng_seed (shl48 procIdx OR vLineAddr);
     _ \<leftarrow> assert_that (fs \<noteq> []);
     let start = unat (fst (rng_next seed)) mod length fs;
     if free_physical_pages_remaining m1 = 0 then do {
       let m2 = m1\<lparr>physical_page_replacement := physical_page_replacement m1 + 1\<rparr>;
       _ \<leftarrow> assert_that (fs ! start \<noteq> - 1);
       Some (m2\<lparr>page_translation := (page_translation m2)(procIdx := (page_translation m2 procIdx)(vpn \<mapsto> start))\<rparr>)
     }
     else do {
       p \<leftarrow> (if fs ! start \<noteq> - 1 then rm_search fs start start else Some start);
       _ \<leftarrow> assert_that (fs ! p = - 1);
       Some (m1\<lparr>page_translation := (page_translation m1)(procIdx := (page_translation m1 procIdx)(vpn \<mapsto> p)),
                free_physical_pages := fs[p := procIdx],
                free_physical_pages_remaining := free_physical_pages_remaining m1 - 1\<rparr>)
     }
   }"

definition getPhyAddr :: "(int \<Rightarrow> 64 word) \<Rightarrow> int \<Rightarrow> 64 word \<Rightarrow> RandomMemoryMapper \<Rightarrow> (64 word \<times> RandomMemoryMapper) option" where
  "getPhyAddr shl48 procIdx vLineAddr m = do {
     let sh = 12 - rm_lineBits m;
     let vpn = drop_bit sh vLineAddr;
     m' \<leftarrow> (if page_translation m procIdx vpn \<noteq> None then Some m else rm_assign shl48 procIdx vLineAddr vpn m);
     ppn \<leftarrow> page_translation m' procIdx vpn;
     Some (push_bit sh (of_nat ppn) OR (vLineAddr AND (push_bit sh 1 - 1)), m')
   }"

subsection \<open>The search\<close>

text \<open>The places the search visits, in order.\<close>
lemma rm_search_finds:
  assumes "start < length fs" and "p < length fs" and "fs ! start \<noteq> - 1" and "\<exists>q < length fs. fs ! q = - 1"
    and "\<And>q. q < length fs \<Longrightarrow> fs ! q = - 1 \<Longrightarrow> search_left (length fs) start q < search_left (length fs) start p"
  shows "\<exists>q. rm_search fs start p = Some q \<and> q < length fs \<and> fs ! q = - 1"
  using assms
proof (induction fs start p rule: rm_search.induct)
  case (1 fs start p)
  let ?n = "length fs" and ?p = "Suc p mod length fs"
  have pn: "?p < ?n" using 1(3) by (intro mod_less_divisor) auto
  obtain q where q: "q < ?n" "fs ! q = - 1" using 1(5) by blast
  have left: "search_left ?n start q < search_left ?n start p" using 1(6) [OF q] .
  have ne: "?p \<noteq> start"
  proof
    assume "?p = start"
    then have "search_left ?n start p = 0" using 1(2,3) by (cases "Suc p = ?n") (auto simp: search_left_def)
    then show False using left by simp
  qed
  show ?case
  proof (cases "fs ! ?p = - 1")
    case True
    then show ?thesis using 1(2,3) pn by (subst rm_search.simps) simp
  next
    case False
    have "search_left ?n start q < search_left ?n start ?p" if "q < ?n" "fs ! q = - 1" for q
    proof -
      have "q \<noteq> ?p" using that False by auto
      moreover have "search_left ?n start ?p = search_left ?n start p - 1"
        using 1(2,3) ne by (cases "Suc p = ?n") (auto simp: search_left_def)
      moreover have "search_left ?n start q \<noteq> search_left ?n start ?p"
        using \<open>q \<noteq> ?p\<close> that(1) pn 1(2) by (auto simp: search_left_def split: if_splits)
      ultimately show ?thesis using 1(6) [OF that] by linarith
    qed
    then have "\<exists>q. rm_search fs start ?p = Some q \<and> q < ?n \<and> fs ! q = - 1"
      using 1(1) [OF _ refl] 1(2-5) ne False pn by simp
    then show ?thesis using 1(2,3) ne False by (subst rm_search.simps) simp
  qed
qed

subsection \<open>Sequences of requests\<close>

fun rm_run :: "(int \<Rightarrow> 64 word) \<Rightarrow> (int \<times> 64 word) list \<Rightarrow> RandomMemoryMapper \<Rightarrow> (64 word list \<times> RandomMemoryMapper) option" where
  "rm_run shl48 [] m = Some ([], m)"
| "rm_run shl48 ((procIdx, v) # rs) m = do {
     (p, m') \<leftarrow> getPhyAddr shl48 procIdx v m;
     (ps, m'') \<leftarrow> rm_run shl48 rs m';
     Some (p # ps, m'')
   }"

text \<open>\<open>n\<close> pages are free; every mapped page is taken, and by one virtual page only.\<close>
definition rm_inv :: "nat \<Rightarrow> RandomMemoryMapper \<Rightarrow> bool" where
  "rm_inv n m \<longleftrightarrow> rm_lineBits m \<le> 12 \<and> length (free_physical_pages m) \<le> 2 ^ 52 \<and>
     free_physical_pages_remaining m = int (length (filter ((=) (- 1)) (free_physical_pages m))) \<and>
     int n \<le> free_physical_pages_remaining m \<and>
     (\<forall>a v p. page_translation m a v = Some p \<longrightarrow> p < length (free_physical_pages m) \<and> free_physical_pages m ! p \<noteq> - 1) \<and>
     (\<forall>a v b w p. page_translation m a v = Some p \<longrightarrow> page_translation m b w = Some p \<longrightarrow> a = b \<and> v = w)"

lemma rm_invD:
  assumes "rm_inv n m"
  shows "rm_lineBits m \<le> 12" "length (free_physical_pages m) \<le> 2 ^ 52"
    "free_physical_pages_remaining m = int (length (filter ((=) (- 1)) (free_physical_pages m)))"
    "int n \<le> free_physical_pages_remaining m"
    "page_translation m a v = Some p \<Longrightarrow> p < length (free_physical_pages m)"
    "page_translation m a v = Some p \<Longrightarrow> free_physical_pages m ! p \<noteq> - 1"
    "page_translation m a v = Some p \<Longrightarrow> page_translation m b w = Some p \<Longrightarrow> a = b \<and> v = w"
  using assms unfolding rm_inv_def by blast+

lemma free_after_take:
  "p < length fs \<Longrightarrow> fs ! p = - 1 \<Longrightarrow> (x :: int) \<noteq> - 1 \<Longrightarrow>
   length (filter ((=) (- 1)) fs) = Suc (length (filter ((=) (- 1)) (fs[p := x])))"
proof (induction fs arbitrary: p)
  case (Cons y fs)
  then show ?case by (cases p) (auto split: if_splits)
qed simp

lemma rm_assign_ok:
  assumes inv: "rm_inv (Suc n) m" and a: "0 \<le> a" and new: "page_translation m a vpn = None"
  shows "\<exists>p m'. rm_assign shl48 a v vpn m = Some m' \<and> rm_inv n m' \<and> rm_lineBits m' = rm_lineBits m \<and>
    page_translation m' = (page_translation m)(a := (page_translation m a)(vpn \<mapsto> p))"
proof -
  note D = rm_invD [OF inv]
  let ?fs = "free_physical_pages m"
  let ?start = "unat (fst (rng_next (rng_seed (shl48 a OR v)))) mod length ?fs"
  have some: "filter ((=) (- 1)) ?fs \<noteq> []" using D(3,4) by auto
  then have ex: "\<exists>q < length ?fs. ?fs ! q = - 1" by (metis filter_False in_set_conv_nth)
  then have ne: "?fs \<noteq> []" by auto
  then have st: "?start < length ?fs" by simp
  have left: "search_left (length ?fs) ?start q < search_left (length ?fs) ?start ?start"
    if "q < length ?fs" "?fs ! q = - 1" "?fs ! ?start \<noteq> - 1" for q
    using that st by (cases "q = ?start") (auto simp: search_left_def)
  have "\<exists>p. (if ?fs ! ?start \<noteq> - 1 then rm_search ?fs ?start ?start else Some ?start) = Some p \<and>
      p < length ?fs \<and> ?fs ! p = - 1"
  proof (cases "?fs ! ?start = - 1")
    case False
    from rm_search_finds [OF st st False ex left [OF _ _ False]] show ?thesis unfolding if_P [OF False] .
  qed (use st in simp)
  then obtain p where p: "(if ?fs ! ?start \<noteq> - 1 then rm_search ?fs ?start ?start else Some ?start) = Some p"
      "p < length ?fs" "?fs ! p = - 1" by blast
  let ?m = "m\<lparr>memory_footprint := memory_footprint m + push_bit 12 1,
      page_translation := (page_translation m)(a := (page_translation m a)(vpn \<mapsto> p)),
      free_physical_pages := ?fs[p := a], free_physical_pages_remaining := free_physical_pages_remaining m - 1\<rparr>"
  have "rm_assign shl48 a v vpn m = Some ?m"
    using p ne D(3,4) some by (simp add: rm_assign_def Let_def)
  moreover have "rm_inv n ?m"
    unfolding rm_inv_def
  proof (intro conjI allI impI)
    show "free_physical_pages_remaining ?m = int (length (filter ((=) (- 1)) (free_physical_pages ?m)))"
      using D(3) free_after_take [OF p(2,3), of a] a by simp
    fix b w q assume q: "page_translation ?m b w = Some q"
    show "q < length (free_physical_pages ?m)" "free_physical_pages ?m ! q \<noteq> - 1"
      using q D(5,6) [of b w q] p(2) a by (auto simp: nth_list_update split: if_splits)
    fix c x assume r: "page_translation ?m c x = Some q"
    show "b = c" "w = x" using q r D(6,7) p(3) by (auto split: if_splits)
  qed (use D(1,2,4) in auto)
  ultimately show ?thesis by (intro exI [of _ p] exI [of _ ?m]) simp
qed

abbreviation rm_line :: "nat \<Rightarrow> nat \<Rightarrow> 64 word \<Rightarrow> 64 word" where
  "rm_line sh p v \<equiv> push_bit sh (of_nat p) OR (v AND mask sh)"

lemma getPhyAddr_ok:
  assumes inv: "rm_inv (Suc n) m" and a: "0 \<le> a"
  shows "\<exists>p m'. getPhyAddr shl48 a v m = Some (rm_line (12 - rm_lineBits m) p v, m') \<and> rm_inv n m' \<and>
    rm_lineBits m' = rm_lineBits m \<and> page_translation m' a (drop_bit (12 - rm_lineBits m) v) = Some p \<and>
    (\<forall>b. page_translation m b \<subseteq>\<^sub>m page_translation m' b)"
proof (cases "page_translation m a (drop_bit (12 - rm_lineBits m) v)")
  case None
  from rm_assign_ok [OF inv a None, of shl48 v] show ?thesis using None
    by (auto simp: getPhyAddr_def Let_def map_le_def simp flip: mask_eq_exp_minus_1)
next
  case (Some p)
  have "rm_inv n m" using inv by (auto simp: rm_inv_def)
  then show ?thesis using Some by (auto simp: getPhyAddr_def Let_def simp flip: mask_eq_exp_minus_1)
qed

lemma rm_run_ok:
  assumes "rm_inv (length rs) m" and "\<forall>(a, v) \<in> set rs. 0 \<le> a"
  shows "\<exists>ls m'. rm_run shl48 rs m = Some (ls, m') \<and> rm_inv 0 m' \<and> (\<forall>b. page_translation m b \<subseteq>\<^sub>m page_translation m' b) \<and>
    list_all2 (\<lambda>(a, v) l. \<exists>p. page_translation m' a (drop_bit (12 - rm_lineBits m) v) = Some p \<and>
      l = rm_line (12 - rm_lineBits m) p v) rs ls"
  using assms
proof (induction rs arbitrary: m)
  case (Cons r rs)
  obtain a v where r: "r = (a, v)" by (cases r)
  let ?sh = "12 - rm_lineBits m"
  obtain p m1 where 1: "getPhyAddr shl48 a v m = Some (rm_line ?sh p v, m1)" "rm_inv (length rs) m1"
      "rm_lineBits m1 = rm_lineBits m" "page_translation m1 a (drop_bit ?sh v) = Some p"
      "\<forall>b. page_translation m b \<subseteq>\<^sub>m page_translation m1 b"
    using getPhyAddr_ok [of "length rs" m a shl48 v] Cons.prems r by auto
  obtain ls m' where 2: "rm_run shl48 rs m1 = Some (ls, m')" "rm_inv 0 m'"
      "\<forall>b. page_translation m1 b \<subseteq>\<^sub>m page_translation m' b"
      "list_all2 (\<lambda>(a, v) l. \<exists>p. page_translation m' a (drop_bit ?sh v) = Some p \<and> l = rm_line ?sh p v) rs ls"
    using Cons.IH [OF 1(2)] Cons.prems(2) 1(3) by auto
  have "page_translation m' a (drop_bit ?sh v) = Some p" using 2(3) 1(4) by (auto simp: map_le_def dom_def)
  then show ?case using r 1(1,5) 2 by (auto intro: map_le_trans)
qed simp

lemma rm_line_inj:
  assumes "sh \<le> 12" and "p < 2 ^ 52" and "q < 2 ^ 52" and "rm_line sh p v = rm_line sh q w"
  shows "p = q" and "v AND mask sh = w AND mask sh"
proof -
  have hi: "drop_bit sh (rm_line sh x u) = of_nat x" if "x < 2 ^ 52" for x and u :: "64 word"
  proof (rule bit_word_eqI)
    fix i assume "i < LENGTH(64)"
    have "x < 2 ^ (64 - sh)" using that assms(1) by (intro less_le_trans [OF that] power_increasing) auto
    then have "bit x i \<longrightarrow> sh + i < 64"
      by (metis bit_take_bit_iff less_diff_conv add.commute take_bit_nat_eq_self)
    then show "bit (drop_bit sh (push_bit sh (of_nat x) OR u AND mask sh)) i = bit (of_nat x :: 64 word) i"
      by (auto simp: bit_simps)
  qed
  have lo: "rm_line sh x u AND mask sh = u AND mask sh" for x and u :: "64 word"
    by (rule bit_word_eqI) (auto simp: bit_simps)
  have "(of_nat p :: 64 word) = of_nat q" using hi [OF assms(2), of v] hi [OF assms(3), of w] unfolding assms(4) by (simp only:)
  then show "p = q" using assms(2,3) by (simp add: word_of_nat_eq_iff take_bit_nat_eq_self)
  show "v AND mask sh = w AND mask sh" using lo [of p v] lo [of q w] unfolding assms(4) by (simp only:)
qed

lemma word_split_eq:
  fixes v w :: "64 word"
  assumes "drop_bit sh v = drop_bit sh w" and "v AND mask sh = w AND mask sh"
  shows "v = w"
proof -
  have "x = push_bit sh (drop_bit sh x) OR (x AND mask sh)" for x :: "64 word"
    by (rule bit_word_eqI) (auto simp: bit_simps)
  then show ?thesis using assms by metis
qed

text \<open>Requests that the mapper sends to one line are the same request.\<close>
lemma rm_line_request:
  assumes inv: "rm_inv n m" and sh: "sh \<le> 12"
    and p: "page_translation m a (drop_bit sh v) = Some p" and q: "page_translation m b (drop_bit sh w) = Some q"
  shows "rm_line sh p v = rm_line sh q w \<longleftrightarrow> (a, v) = (b, w)"
proof
  assume eq: "rm_line sh p v = rm_line sh q w"
  note D = rm_invD [OF inv]
  have "p < 2 ^ 52" "q < 2 ^ 52" using D(5) [OF p] D(5) [OF q] D(2) by simp_all
  note e = rm_line_inj [OF sh this eq]
  from D(7) [OF p, of b "drop_bit sh w"] q e(1) have "a = b" "drop_bit sh v = drop_bit sh w" by auto
  then show "(a, v) = (b, w)" using word_split_eq [of sh v w] e(2) by simp
qed (use p q in auto)

text \<open>
  C36. As long as the memory has at least as many pages as requests arrive, every request is answered, and
  two requests get the same physical line exactly when they are of the same process and for the same
  virtual line: the mapping is stable over time and never gives one page to two virtual pages.
\<close>
theorem mapper_injective:
  assumes "line_bits \<le> 12" and "length rs \<le> unat (drop_bit 12 capacity)" and "\<forall>(a, v) \<in> set rs. 0 \<le> a"
  shows "\<exists>ls m. rm_run shl48 rs (RandomMemoryMapper capacity line_bits) = Some (ls, m) \<and> length ls = length rs \<and>
    (\<forall>i < length rs. \<forall>j < length rs. ls ! i = ls ! j \<longleftrightarrow> rs ! i = rs ! j)"
proof -
  let ?m = "RandomMemoryMapper capacity line_bits" and ?sh = "12 - line_bits"
  have "unat (drop_bit 12 capacity) \<le> 2 ^ 52"
    using unsigned_less [of capacity, where 'a = nat] by (simp add: unat_drop_bit)
  then have "rm_inv (length rs) ?m" using assms(1,2)
    by (simp add: rm_inv_def RandomMemoryMapper_def del: of_nat_unat)
  moreover have "rm_lineBits ?m = line_bits" by (simp add: RandomMemoryMapper_def)
  ultimately obtain ls m where
    r: "rm_run shl48 rs ?m = Some (ls, m)" "rm_inv 0 m"
      "list_all2 (\<lambda>(a, v) l. \<exists>p. page_translation m a (drop_bit ?sh v) = Some p \<and> l = rm_line ?sh p v) rs ls"
    using rm_run_ok [OF _ assms(3), of ?m shl48] by auto
  have at: "\<exists>p. page_translation m (fst (rs ! i)) (drop_bit ?sh (snd (rs ! i))) = Some p \<and>
      ls ! i = rm_line ?sh p (snd (rs ! i))" if "i < length rs" for i
    using list_all2_nthD [OF r(3) that] by (auto simp: case_prod_unfold)
  have "ls ! i = ls ! j \<longleftrightarrow> rs ! i = rs ! j" if "i < length rs" "j < length rs" for i j
    using at [OF that(1)] at [OF that(2)] rm_line_request [OF r(2), of ?sh] by (metis diff_le_self prod.collapse)
  then show ?thesis using r(1) list_all2_lengthD [OF r(3)] by auto
qed

theorem mapper_injective_witness:
  "\<exists>ls m. rm_run (\<lambda>_. 0) [(0, 64), (1, 64), (0, 64)] (RandomMemoryMapper 0x4000 6) = Some (ls, m) \<and>
     ls ! 0 = ls ! 2 \<and> ls ! 0 \<noteq> ls ! 1"
proof -
  let ?rs = "[(0, 64), (1, 64), (0, 64)] :: (int \<times> 64 word) list"
  have "drop_bit 12 (0x4000 :: 64 word) = 4" by (simp add: drop_bit_eq_div)
  then have "length ?rs \<le> unat (drop_bit 12 (0x4000 :: 64 word))" by simp
  then obtain ls m where r: "rm_run (\<lambda>_. 0) ?rs (RandomMemoryMapper 0x4000 6) = Some (ls, m)"
      "\<forall>i < length ?rs. \<forall>j < length ?rs. ls ! i = ls ! j \<longleftrightarrow> ?rs ! i = ?rs ! j"
    using mapper_injective [of 6 ?rs "0x4000" "\<lambda>_. 0"] by auto
  have "ls ! 0 = ls ! 2" "ls ! 0 \<noteq> ls ! 1" using r(2) [rule_format, of 0 2] r(2) [rule_format, of 0 1] by simp_all
  then show ?thesis using r(1) by blast
qed

end
