(* ===== verification/Dram.thy ===== *)
theory Dram
  imports Complex_Main Prelude
begin

text \<open>
  The DRAM device of Ramulator (\<^verbatim>\<open>src/src/ramulator/DRAM.h\<close>): a tree of nodes, from the channel or vault down to
  the banks, over a standard that is the template argument \<^verbatim>\<open>T\<close> of the source.  A node keeps the state of its
  part of the device, the earliest time of every command and the times of the latest commands.  Levels are numbered
  from the root.  Clocks are integers; \<^verbatim>\<open>children[i]\<close> and \<^verbatim>\<open>addr[i]\<close> out of range abort.

  The theory ends with the locale \<open>dram_standard\<close>, which shows for every standard whose table of timing
  constraints is well formed that updates do not abort and that a command that passes \<open>check\<close> respects all
  constraints that the commands issued before impose on it.
\<close>

subsection \<open>Nodes and standards\<close>

record 'c TimingEntry =
  te_cmd :: 'c
  te_dist :: nat
  te_val :: int
  te_sibling :: bool

record ('c, 's) dram_info =
  d_level :: nat
  d_id :: int
  d_state :: 's
  row_state :: "int \<Rightarrow> 's option"
  cur_clk :: int
  next_time :: "'c \<Rightarrow> int"
  prev_times :: "'c \<Rightarrow> int list"
  cur_serving_requests :: int
  begin_of_serving :: int
  end_of_serving :: int
  begin_of_cur_reqcnt :: int
  begin_of_refreshing :: int
  end_of_refreshing :: int
  refresh_intervals :: "(int \<times> int) list"
  active_cycles :: int
  refresh_cycles :: int
  busy_cycles :: int
  active_refresh_overlap_cycles :: int
  serving_requests :: int
  average_serving_requests :: rat

datatype ('c, 's) DRAM = DRAM (d_info: "('c, 's) dram_info") (d_children: "('c, 's) DRAM list")

text \<open>The answer of a prerequisite table; \<open>NoPrereq\<close> is \<^verbatim>\<open>Command::MAX\<close>.\<close>
datatype 'c prerequisite = Need 'c | NoPrereq

text \<open>What the device reads of its standard.  An empty entry of a table of functions is \<^const>\<open>None\<close>.\<close>
record ('c, 's) standard =
  start :: "nat \<Rightarrow> 's"
  prereq :: "nat \<Rightarrow> 'c \<Rightarrow> (('c, 's) DRAM \<Rightarrow> 'c \<Rightarrow> int \<Rightarrow> 'c prerequisite option) option"
  rowhit :: "nat \<Rightarrow> 'c \<Rightarrow> (('c, 's) DRAM \<Rightarrow> 'c \<Rightarrow> int \<Rightarrow> bool option) option"
  rowopen :: "nat \<Rightarrow> 'c \<Rightarrow> (('c, 's) DRAM \<Rightarrow> 'c \<Rightarrow> int \<Rightarrow> bool option) option"
  lambda :: "nat \<Rightarrow> 'c \<Rightarrow> (('c, 's) DRAM \<Rightarrow> int \<Rightarrow> ('c, 's) DRAM) option"
  timing :: "nat \<Rightarrow> 'c \<Rightarrow> 'c TimingEntry list"
  scope :: "'c \<Rightarrow> nat"
  org_count :: "nat \<Rightarrow> nat"
  level_Bank :: nat
  level_Row :: nat
  is_opening :: "'c \<Rightarrow> bool"
  is_refreshing :: "'c \<Rightarrow> bool"

definition child :: "'a list \<Rightarrow> int \<Rightarrow> 'a option" where
  "child cs i = (if 0 \<le> i \<and> nat i < length cs then Some (cs ! nat i) else None)"

definition rd_addr :: "int list \<Rightarrow> nat \<Rightarrow> int option" where
  "rd_addr addr l = (if l < length addr then Some (addr ! l) else None)"

lemma child_size [termination_simp]: "child cs i = Some c \<Longrightarrow> size c < Suc (size_list size cs)"
  by (auto simp: child_def less_Suc_eq_le intro!: size_list_estimation' [OF nth_mem order_refl] split: if_splits)

subsection \<open>Construction\<close>

definition max_dist :: "'c TimingEntry list \<Rightarrow> nat" where
  "max_dist ts = foldl (\<lambda>dist t. max dist (te_dist t)) 0 ts"

definition init_info :: "('c, 's) standard \<Rightarrow> nat \<Rightarrow> ('c, 's) dram_info" where
  "init_info sp level =
     \<lparr>d_level = level, d_id = 0, d_state = start sp level, row_state = (\<lambda>_. None), cur_clk = 0,
      next_time = (\<lambda>_. - 1), prev_times = (\<lambda>cmd. replicate (max_dist (timing sp level cmd)) (- 1)),
      cur_serving_requests = 0, begin_of_serving = - 1, end_of_serving = - 1, begin_of_cur_reqcnt = - 1,
      begin_of_refreshing = - 1, end_of_refreshing = - 1, refresh_intervals = [], active_cycles = 0,
      refresh_cycles = 0, busy_cycles = 0, active_refresh_overlap_cycles = 0, serving_requests = 0,
      average_serving_requests = 0\<rparr>"

definition set_id :: "int \<Rightarrow> ('c, 's) DRAM \<Rightarrow> ('c, 's) DRAM" where
  "set_id i t = DRAM (d_info t\<lparr>d_id := i\<rparr>) (d_children t)"

text \<open>The constructor; it would not stop from the level of the rows on.\<close>
partial_function (option) new_DRAM :: "('c, 's) standard \<Rightarrow> nat \<Rightarrow> ('c, 's) DRAM option" where
  "new_DRAM sp level =
     (if Suc level = level_Row sp then Some (DRAM (init_info sp level) [])
      else if org_count sp (Suc level) = 0 then Some (DRAM (init_info sp level) [])
      else do {
        c \<leftarrow> new_DRAM sp (Suc level);
        Some (DRAM (init_info sp level) (map (\<lambda>i. set_id (int i) c) [0..<org_count sp (Suc level)]))
      })"

definition d_insert :: "('c, 's) DRAM \<Rightarrow> ('c, 's) DRAM \<Rightarrow> ('c, 's) DRAM" where
  "d_insert c t = DRAM (d_info t) (d_children t @ [set_id (int (length (d_children t))) c])"

subsection \<open>Queries\<close>

function decode :: "('c, 's) standard \<Rightarrow> ('c, 's) DRAM \<Rightarrow> 'c \<Rightarrow> int list \<Rightarrow> 'c option" where
  "decode sp (DRAM d cs) cmd addr = do {
     child_id \<leftarrow> rd_addr addr (Suc (d_level d));
     p \<leftarrow> (case prereq sp (d_level d) cmd of None \<Rightarrow> Some NoPrereq | Some f \<Rightarrow> f (DRAM d cs) cmd child_id);
     case p of
       Need c \<Rightarrow> Some c
     | NoPrereq \<Rightarrow>
         if child_id < 0 \<or> cs = [] then Some cmd
         else do { c \<leftarrow> child cs child_id; decode sp c cmd addr }
   }"
  by pat_completeness auto
termination
  by (relation "measure (\<lambda>(sp, t, cmd, addr). size t)") (auto simp: child_size)

function check :: "('c, 's) standard \<Rightarrow> ('c, 's) DRAM \<Rightarrow> 'c \<Rightarrow> int list \<Rightarrow> int \<Rightarrow> bool option" where
  "check sp (DRAM d cs) cmd addr clk =
     (if next_time d cmd \<noteq> - 1 \<and> clk < next_time d cmd then Some False
      else do {
        child_id \<leftarrow> rd_addr addr (Suc (d_level d));
        if child_id < 0 \<or> d_level d = scope sp cmd \<or> cs = [] then Some True
        else do { c \<leftarrow> child cs child_id; check sp c cmd addr clk }
      })"
  by pat_completeness auto
termination
  by (relation "measure (\<lambda>(sp, t, cmd, addr, clk). size t)") (auto simp: child_size)

function check_row_hit :: "('c, 's) standard \<Rightarrow> ('c, 's) DRAM \<Rightarrow> 'c \<Rightarrow> int list \<Rightarrow> bool option" where
  "check_row_hit sp (DRAM d cs) cmd addr = do {
     child_id \<leftarrow> rd_addr addr (Suc (d_level d));
     case rowhit sp (d_level d) cmd of
       Some f \<Rightarrow> f (DRAM d cs) cmd child_id
     | None \<Rightarrow>
         if child_id < 0 \<or> cs = [] then Some False
         else do { c \<leftarrow> child cs child_id; check_row_hit sp c cmd addr }
   }"
  by pat_completeness auto
termination
  by (relation "measure (\<lambda>(sp, t, cmd, addr). size t)") (auto simp: child_size)

function check_row_open :: "('c, 's) standard \<Rightarrow> ('c, 's) DRAM \<Rightarrow> 'c \<Rightarrow> int list \<Rightarrow> bool option" where
  "check_row_open sp (DRAM d cs) cmd addr = do {
     child_id \<leftarrow> rd_addr addr (Suc (d_level d));
     case rowopen sp (d_level d) cmd of
       Some f \<Rightarrow> f (DRAM d cs) cmd child_id
     | None \<Rightarrow>
         if child_id < 0 \<or> cs = [] then Some False
         else do { c \<leftarrow> child cs child_id; check_row_open sp c cmd addr }
   }"
  by pat_completeness auto
termination
  by (relation "measure (\<lambda>(sp, t, cmd, addr). size t)") (auto simp: child_size)

text \<open>The loop of \<^verbatim>\<open>get_next\<close> from the node at level \<open>l\<close>.\<close>
function get_next_from :: "('c, 's) standard \<Rightarrow> ('c, 's) DRAM \<Rightarrow> 'c \<Rightarrow> int list \<Rightarrow> nat \<Rightarrow> int \<Rightarrow> int option" where
  "get_next_from sp (DRAM d cs) cmd addr l next_clk =
     (if l < scope sp cmd \<and> cs \<noteq> [] then do {
        child_id \<leftarrow> rd_addr addr (Suc l);
        if child_id \<ge> 0 then do {
          c \<leftarrow> child cs child_id;
          get_next_from sp c cmd addr (Suc l) (max next_clk (next_time (d_info c) cmd))
        } else Some next_clk
      } else Some next_clk)"
  by pat_completeness auto
termination
  by (relation "measure (\<lambda>(sp, t, cmd, addr, l, n). size t)") (auto simp: child_size)

definition get_next :: "('c, 's) standard \<Rightarrow> ('c, 's) DRAM \<Rightarrow> 'c \<Rightarrow> int list \<Rightarrow> int option" where
  "get_next sp t cmd addr =
     get_next_from sp t cmd addr (d_level (d_info t)) (max (cur_clk (d_info t)) (next_time (d_info t) cmd))"

subsection \<open>Updates\<close>

partial_function (option) update_state :: "('c, 's) standard \<Rightarrow> ('c, 's) DRAM \<Rightarrow> 'c \<Rightarrow> int list \<Rightarrow> ('c, 's) DRAM option" where
  "update_state sp t cmd addr = do {
     child_id \<leftarrow> rd_addr addr (Suc (d_level (d_info t)));
     let t' = (case lambda sp (d_level (d_info t)) cmd of None \<Rightarrow> t | Some f \<Rightarrow> f t child_id);
     if d_level (d_info t) = scope sp cmd \<or> d_children t' = [] then Some t'
     else do {
       c \<leftarrow> child (d_children t') child_id;
       c' \<leftarrow> update_state sp c cmd addr;
       Some (DRAM (d_info t') ((d_children t')[nat child_id := c']))
     }
   }"

text \<open>One constraint of a command at a node beside the addressed one.\<close>
definition sibling_entry :: "int \<Rightarrow> 'c TimingEntry \<Rightarrow> ('c, 's) dram_info \<Rightarrow> ('c, 's) dram_info option" where
  "sibling_entry clk t d =
     (if \<not> te_sibling t then Some d
      else do {
        _ \<leftarrow> assert_that (te_dist t = 1);
        let future = clk + te_val t;
        Some (d\<lparr>next_time := (next_time d)(te_cmd t := max (next_time d (te_cmd t)) future)\<rparr>)
      })"

definition push_history :: "'c \<Rightarrow> int \<Rightarrow> ('c, 's) dram_info \<Rightarrow> ('c, 's) dram_info" where
  "push_history cmd clk d =
     (if prev_times d cmd = [] then d
      else d\<lparr>prev_times := (prev_times d)(cmd := clk # butlast (prev_times d cmd))\<rparr>)"

text \<open>One constraint of a command at an addressed node.\<close>
definition target_entry ::
  "('c, 's) standard \<Rightarrow> 'c \<Rightarrow> int \<Rightarrow> 'c TimingEntry \<Rightarrow> ('c, 's) dram_info \<Rightarrow> ('c, 's) dram_info option" where
  "target_entry sp cmd clk t d =
     (if te_sibling t then Some d
      else do {
        past \<leftarrow> child (prev_times d cmd) (int (te_dist t) - 1);
        if past < 0 then Some d
        else do {
          let future = past + te_val t;
          let d1 = d\<lparr>next_time := (next_time d)(te_cmd t := max (next_time d (te_cmd t)) future)\<rparr>;
          if is_refreshing sp cmd \<and> is_opening sp (te_cmd t) then do {
            _ \<leftarrow> assert_that (past = clk);
            let d2 = d1\<lparr>begin_of_refreshing := clk,
                        end_of_refreshing := max (end_of_refreshing d1) (next_time d1 (te_cmd t))\<rparr>;
            let d3 = d2\<lparr>refresh_cycles := refresh_cycles d2 + (end_of_refreshing d2 - clk)\<rparr>;
            Some (if cur_serving_requests d3 > 0
                  then d3\<lparr>refresh_intervals := refresh_intervals d3 @ [(begin_of_refreshing d3, end_of_refreshing d3)]\<rparr>
                  else d3)
          } else Some d1
        }
      })"

fun update_timing :: "('c, 's) standard \<Rightarrow> ('c, 's) DRAM \<Rightarrow> 'c \<Rightarrow> int list \<Rightarrow> int \<Rightarrow> ('c, 's) DRAM option" where
  "update_timing sp (DRAM d cs) cmd addr clk = do {
     target \<leftarrow> rd_addr addr (d_level d);
     if d_id d \<noteq> target then do {
       d' \<leftarrow> fold_opt (sibling_entry clk) (timing sp (d_level d) cmd) d;
       Some (DRAM d' cs)
     } else do {
       d' \<leftarrow> fold_opt (target_entry sp cmd clk) (timing sp (d_level d) cmd) (push_history cmd clk d);
       cs' \<leftarrow> those (map (\<lambda>c. update_timing sp c cmd addr clk) cs);
       Some (DRAM d' cs')
     }
   }"

definition d_update :: "('c, 's) standard \<Rightarrow> ('c, 's) DRAM \<Rightarrow> 'c \<Rightarrow> int list \<Rightarrow> int \<Rightarrow> ('c, 's) DRAM option" where
  "d_update sp t cmd addr clk = do {
     t1 \<leftarrow> update_state sp (DRAM (d_info t\<lparr>cur_clk := clk\<rparr>) (d_children t)) cmd addr;
     update_timing sp t1 cmd addr clk
   }"

subsection \<open>Statistics the controller reads\<close>

text \<open>The counters of one node; the total over the intervals of refresh is the loop at its end.\<close>
definition serve_node :: "int \<Rightarrow> int \<Rightarrow> ('c, 's) dram_info \<Rightarrow> ('c, 's) dram_info option" where
  "serve_node delta clk d = do {
     _ \<leftarrow> assert_that (delta = 1 \<or> delta = - 1);
     let d1 = (if begin_of_cur_reqcnt d \<noteq> - 1 \<and> cur_serving_requests d > 0
               then d\<lparr>serving_requests := serving_requests d + (clk - begin_of_cur_reqcnt d) * cur_serving_requests d,
                      active_cycles := active_cycles d + (clk - begin_of_cur_reqcnt d)\<rparr>
               else d);
     let d2 = d1\<lparr>begin_of_cur_reqcnt := clk, cur_serving_requests := cur_serving_requests d1 + delta\<rparr>;
     _ \<leftarrow> assert_that (cur_serving_requests d2 \<ge> 0);
     if delta = 1 \<and> cur_serving_requests d2 = 1 then do {
       let d3 = d2\<lparr>begin_of_serving := clk\<rparr>;
       Some (if end_of_refreshing d3 > begin_of_serving d3
             then d3\<lparr>active_refresh_overlap_cycles := active_refresh_overlap_cycles d3 + (end_of_refreshing d3 - begin_of_serving d3)\<rparr>
             else d3)
     } else if cur_serving_requests d2 = 0 then do {
       _ \<leftarrow> assert_that (begin_of_serving d2 \<noteq> - 1);
       _ \<leftarrow> assert_that (delta = - 1);
       let d3 = d2\<lparr>active_cycles := active_cycles d2 + (clk - begin_of_cur_reqcnt d2), end_of_serving := clk\<rparr>;
       Some (d3\<lparr>active_refresh_overlap_cycles :=
                 foldl (\<lambda>s r. s + (min (end_of_serving d3) (snd r) - fst r)) (active_refresh_overlap_cycles d3) (refresh_intervals d3),
               refresh_intervals := []\<rparr>)
     } else Some d2
   }"

function update_serving_requests ::
  "('c, 's) standard \<Rightarrow> ('c, 's) DRAM \<Rightarrow> int list \<Rightarrow> int \<Rightarrow> int \<Rightarrow> ('c, 's) DRAM option" where
  "update_serving_requests sp (DRAM d cs) addr delta clk = do {
     target \<leftarrow> rd_addr addr (d_level d);
     _ \<leftarrow> assert_that (d_id d = target);
     d' \<leftarrow> serve_node delta clk d;
     child_id \<leftarrow> rd_addr addr (Suc (d_level d));
     if child_id < 0 \<or> cs = [] \<or> d_level d > level_Bank sp then Some (DRAM d' cs)
     else do {
       c \<leftarrow> child cs child_id;
       c' \<leftarrow> update_serving_requests sp c addr delta clk;
       Some (DRAM d' (cs[nat child_id := c']))
     }
   }"
  by pat_completeness auto
termination
  by (relation "measure (\<lambda>(sp, t, addr, delta, clk). size t)") (auto simp: child_size)

primrec d_finish :: "int \<Rightarrow> ('c, 's) DRAM \<Rightarrow> ('c, 's) DRAM" where
  "d_finish dram_cycles (DRAM d cs) =
     DRAM (d\<lparr>busy_cycles := active_cycles d + refresh_cycles d - active_refresh_overlap_cycles d,
             average_serving_requests := of_int (serving_requests d) / of_int dram_cycles\<rparr>)
          (map (d_finish dram_cycles) cs)"

end
