(* ===== verification/Dram_Timing.thy ===== *)
theory Dram_Timing
  imports Dram
begin

text \<open>
  What the timing of the device guarantees, for every standard.  A node is named by the indices on the way to it from the
  root.  The locale \<open>dram_standard\<close> states what the device relies on in its standard; in it, an update returns,
  changes exactly the nodes the source means it to change, and a command that passes \<open>check\<close> respects every
  constraint of the commands issued before, at every level.
\<close>

subsection \<open>Nodes by path\<close>

primrec node_at :: "int list \<Rightarrow> ('c, 's) DRAM \<Rightarrow> ('c, 's) DRAM option" where
  "node_at [] t = Some t"
| "node_at (i # p) t = child (d_children t) i \<bind> node_at p"

text \<open>Levels grow by one along the tree and a child's identifier is its index.\<close>
fun tree_ok :: "nat \<Rightarrow> ('c, 's) DRAM \<Rightarrow> bool" where
  "tree_ok l (DRAM d cs) \<longleftrightarrow> d_level d = l \<and> map (\<lambda>c. d_id (d_info c)) cs = map int [0..<length cs] \<and>
     (\<forall>c \<in> set cs. tree_ok (Suc l) c)"

lemma child_Some: "child cs i = Some c \<longleftrightarrow> 0 \<le> i \<and> nat i < length cs \<and> c = cs ! nat i"
  by (auto simp: child_def)

lemma tree_ok_child:
  assumes "tree_ok l t" and "child (d_children t) i = Some c"
  shows "tree_ok (Suc l) c" and "d_id (d_info c) = i"
proof -
  obtain d cs where t: "t = DRAM d cs" by (cases t)
  have i: "0 \<le> i" "nat i < length cs" "c = cs ! nat i" using assms(2) t by (auto simp: child_Some)
  show "tree_ok (Suc l) c" using assms(1) i t by simp
  have "map (\<lambda>c. d_id (d_info c)) cs ! nat i = map int [0..<length cs] ! nat i" using assms(1) t by simp
  then show "d_id (d_info c) = i" using i by simp
qed

lemma tree_ok_level: "tree_ok l t \<Longrightarrow> d_level (d_info t) = l"
  by (cases t) simp

lemma node_at_ok:
  "tree_ok l t \<Longrightarrow> node_at p t = Some n \<Longrightarrow> tree_ok (l + length p) n"
proof (induction p arbitrary: t l)
  case (Cons i p)
  then obtain c where c: "child (d_children t) i = Some c" "node_at p c = Some n" by (auto elim!: bind_SomeE)
  show ?case using Cons(1) [OF tree_ok_child(1) [OF Cons(2) c(1)] c(2)] by simp
qed simp

definition numbered :: "nat \<Rightarrow> int list \<Rightarrow> ('c, 's) dram_info \<Rightarrow> bool" where
  "numbered l p d \<longleftrightarrow> d_level d = l + length p \<and> (p \<noteq> [] \<longrightarrow> d_id d = last p)"

lemma node_at_id: "tree_ok l t \<Longrightarrow> node_at p t = Some n \<Longrightarrow> p \<noteq> [] \<Longrightarrow> d_id (d_info n) = last p"
proof (induction p arbitrary: t l)
  case (Cons i p)
  then obtain c where c: "child (d_children t) i = Some c" "node_at p c = Some n" by (auto elim!: bind_SomeE)
  show ?case using Cons(1) [OF tree_ok_child(1) [OF Cons(2) c(1)] c(2)] tree_ok_child(2) [OF Cons(2) c(1)] c(2) by auto
qed simp

lemma tree_ok_iff: "tree_ok l t \<longleftrightarrow> (\<forall>p n. node_at p t = Some n \<longrightarrow> numbered l p (d_info n))"
proof (induction t arbitrary: l)
  case (DRAM d cs)
  show ?case
  proof
    assume "tree_ok l (DRAM d cs)"
    then show "\<forall>p n. node_at p (DRAM d cs) = Some n \<longrightarrow> numbered l p (d_info n)"
      using node_at_ok node_at_id tree_ok_level unfolding numbered_def by metis
  next
    assume *: "\<forall>p n. node_at p (DRAM d cs) = Some n \<longrightarrow> numbered l p (d_info n)"
    have ch: "numbered l (int i # p) (d_info n)" if "i < length cs" "node_at p (cs ! i) = Some n" for i p n
      by (rule *[rule_format]) (use that in \<open>simp add: child_def\<close>)
    have "tree_ok (Suc l) c" if c: "c \<in> set cs" for c
    proof -
      obtain i where "i < length cs" "c = cs ! i" using c by (auto simp: in_set_conv_nth)
      then have "\<forall>p n. node_at p c = Some n \<longrightarrow> numbered (Suc l) p (d_info n)"
        using ch by (auto simp: numbered_def split: if_splits)
      then show ?thesis using DRAM [OF c] by simp
    qed
    moreover have "map (\<lambda>c. d_id (d_info c)) cs = map int [0..<length cs]"
      by (intro nth_equalityI) (use ch [of _ "[]"] in \<open>simp_all add: numbered_def\<close>)
    moreover have "numbered l [] d" using *[rule_format, of "[]" "DRAM d cs"] by simp
    ultimately show "tree_ok l (DRAM d cs)" by (simp add: numbered_def)
  qed
qed

lemma node_at_append: "node_at (p @ q) t = node_at p t \<bind> node_at q"
  by (induction p arbitrary: t) (auto split: bind_splits)

lemma tree_ok_set_id: "tree_ok l (set_id i t) = tree_ok l t"
  by (cases t) (simp add: set_id_def)

lemma new_DRAM_ok:
  assumes "new_DRAM sp l = Some t"
  shows "tree_ok l t"
proof (rule new_DRAM.raw_induct [of "\<lambda>sp l t. tree_ok l t", OF _ assms])
  fix new :: "('a, 'b) standard \<Rightarrow> nat \<Rightarrow> ('a, 'b) DRAM option" and sp l t
  assume IH: "\<And>sp l t. new sp l = Some t \<Longrightarrow> tree_ok l t"
    and t: "(if Suc l = level_Row sp then Some (DRAM (init_info sp l) [])
      else if org_count sp (Suc l) = 0 then Some (DRAM (init_info sp l) [])
      else do {
        c \<leftarrow> new sp (Suc l);
        Some (DRAM (init_info sp l) (map (\<lambda>i. set_id (int i) c) [0..<org_count sp (Suc l)]))
      }) = Some t"
  have lv: "d_level (init_info sp l) = l" by (simp add: init_info_def)
  have "tree_ok l (DRAM (init_info sp l) (map (\<lambda>i. set_id (int i) c) [0..<n]))" if "tree_ok (Suc l) c" for n c
    using that by (simp add: lv tree_ok_set_id) (simp add: set_id_def)
  then show "tree_ok l t" using t by (fastforce simp: lv split: if_splits elim!: bind_SomeE dest: IH)
qed

text \<open>The constructor returns, from every level above the rows.\<close>
lemma new_DRAM_total:
  assumes "l < level_Row sp"
  shows "\<exists>t. new_DRAM sp l = Some t"
  using assms
proof (induction "level_Row sp - l" arbitrary: l)
  case (Suc n)
  show ?case
  proof (cases "Suc l = level_Row sp")
    case False
    have "n = level_Row sp - Suc l" "Suc l < level_Row sp" using Suc(2,3) False by linarith+
    then obtain c where "new_DRAM sp (Suc l) = Some c" using Suc(1) by blast
    then show ?thesis by (subst new_DRAM.simps) simp
  qed (subst new_DRAM.simps, simp)
qed simp

subsection \<open>The timing at a node\<close>

text \<open>What \<open>check\<close> and \<open>update_timing\<close> read of a node.\<close>
definition timing_view :: "('c, 's) DRAM \<Rightarrow> nat \<times> int \<times> ('c \<Rightarrow> int) \<times> ('c \<Rightarrow> int list) \<times> nat" where
  "timing_view t = (d_level (d_info t), d_id (d_info t), next_time (d_info t), prev_times (d_info t), length (d_children t))"

definition same_timing :: "('c, 's) DRAM \<Rightarrow> ('c, 's) DRAM \<Rightarrow> bool" where
  "same_timing t t' \<longleftrightarrow> (\<forall>p. map_option timing_view (node_at p t) = map_option timing_view (node_at p t'))"

lemma same_timing_refl [simp]: "same_timing t t"
  by (simp add: same_timing_def)

lemma same_timing_trans: "same_timing t t' \<Longrightarrow> same_timing t' t'' \<Longrightarrow> same_timing t t''"
  by (simp add: same_timing_def)

lemma same_timing_view: "same_timing t t' \<Longrightarrow> timing_view t = timing_view t'"
  unfolding same_timing_def by (drule spec [of _ "[]"]) simp

lemma same_timing_node:
  assumes "same_timing t t'" and "node_at p t' = Some n'"
  obtains n where "node_at p t = Some n" and "timing_view n = timing_view n'"
  using assms unfolding same_timing_def by (cases "node_at p t") (auto dest!: spec [of _ p])

text \<open>A tree has the same timing if its root and its children have.\<close>
lemma same_timingI:
  assumes "timing_view t = timing_view t'"
    and "\<And>i. i < length (d_children t) \<Longrightarrow> same_timing (d_children t ! i) (d_children t' ! i)"
  shows "same_timing t t'"
  unfolding same_timing_def
proof
  fix p
  have len: "length (d_children t) = length (d_children t')" using assms(1) by (simp add: timing_view_def)
  show "map_option timing_view (node_at p t) = map_option timing_view (node_at p t')"
  proof (cases p)
    case (Cons i q)
    then show ?thesis using assms(2) [of "nat i"] len by (auto simp: child_def same_timing_def)
  qed (simp add: assms(1))
qed

lemma same_timing_child:
  assumes "same_timing t t'" and "i < length (d_children t)"
  shows "same_timing (d_children t ! i) (d_children t' ! i)"
proof -
  have len: "length (d_children t) = length (d_children t')" using same_timing_view [OF assms(1)] by (simp add: timing_view_def)
  have "map_option timing_view (node_at (int i # p) t) = map_option timing_view (node_at (int i # p) t')" for p
    using assms(1) by (simp only: same_timing_def)
  then show ?thesis using len assms(2) by (simp add: same_timing_def child_def)
qed

lemma same_timing_tree_ok: "same_timing t t' \<Longrightarrow> tree_ok l t \<Longrightarrow> tree_ok l t'"
  unfolding tree_ok_iff
proof (intro allI impI)
  fix p n' assume *: "same_timing t t'" "\<forall>p n. node_at p t = Some n \<longrightarrow> numbered l p (d_info n)" "node_at p t' = Some n'"
  then obtain n where "node_at p t = Some n" "timing_view n = timing_view n'"
    using same_timing_node by blast
  then show "numbered l p (d_info n')" using *(2) by (auto simp: timing_view_def numbered_def)
qed

text \<open>The commands issued so far, the latest first, to a node given by its path with the root's identifier.\<close>
definition issued_to :: "int list \<Rightarrow> 'c \<Rightarrow> ('c \<times> int list \<times> int) list \<Rightarrow> int list" where
  "issued_to q c us = rev (map (\<lambda>(c, addr, k). k) (filter (\<lambda>(c', addr, k). c' = c \<and> take (length q) addr = q) us))"

text \<open>The commands issued so far to a sibling of a node.\<close>
definition issued_beside :: "int list \<Rightarrow> 'c \<Rightarrow> ('c \<times> int list \<times> int) list \<Rightarrow> int set" where
  "issued_beside q c us = set (map (\<lambda>(c, addr, k). k) (filter (\<lambda>(c', addr, k). c' = c \<and> take (length q) addr \<noteq> q \<and>
     take (length q - 1) addr = butlast q) us))"

lemma issued_to_snoc: "issued_to q c (us @ [(c', addr, k)]) =
    (if c' = c \<and> take (length q) addr = q then k # issued_to q c us else issued_to q c us)"
  by (simp add: issued_to_def)

lemma issued_beside_snoc: "issued_beside q c (us @ [(c', addr, k)]) =
    (if c' = c \<and> take (length q) addr \<noteq> q \<and> take (length q - 1) addr = butlast q then insert k (issued_beside q c us)
     else issued_beside q c us)"
  by (simp add: issued_beside_def)

text \<open>A history of a fixed length, filled up with minus one.\<close>
definition padded :: "nat \<Rightarrow> int list \<Rightarrow> int list" where
  "padded m h = map (\<lambda>i. if i < length h then h ! i else - 1) [0..<m]"

lemma length_padded [simp]: "length (padded m h) = m"
  by (simp add: padded_def)

lemma padded_push: "0 < m \<Longrightarrow> k # butlast (padded m h) = padded m (k # h)"
  by (rule nth_equalityI) (auto simp: padded_def nth_butlast nth_Cons' less_Suc_eq_le)

text \<open>A command that comes late enough after the commands issued before it, at each of the first \<open>m\<close> levels it reaches.\<close>
definition timely :: "('c, 's) standard \<Rightarrow> nat \<Rightarrow> ('c \<times> int list \<times> int) list \<Rightarrow> 'c \<times> int list \<times> int \<Rightarrow> bool" where
  "timely sp m us = (\<lambda>(cmd, addr, k). \<forall>l c e. l < m \<longrightarrow> l \<le> scope sp cmd \<longrightarrow> e \<in> set (timing sp l c) \<longrightarrow> te_cmd e = cmd \<longrightarrow>
     (\<not> te_sibling e \<longrightarrow> te_dist e \<le> length (issued_to (take (Suc l) addr) c us) \<longrightarrow>
        issued_to (take (Suc l) addr) c us ! (te_dist e - 1) + te_val e \<le> k) \<and>
     (te_sibling e \<longrightarrow> (\<forall>j \<in> issued_beside (take (Suc l) addr) c us. j + te_val e \<le> k)))"

definition timing_legal :: "('c, 's) standard \<Rightarrow> nat \<Rightarrow> ('c \<times> int list \<times> int) list \<Rightarrow> bool" where
  "timing_legal sp m us \<longleftrightarrow> (\<forall>i < length us. timely sp m (take i us) (us ! i))"

lemma timing_legal_Nil [simp]: "timing_legal sp m []"
  by (simp add: timing_legal_def)

lemma timing_legal_snoc: "timing_legal sp m (us @ [x]) \<longleftrightarrow> timing_legal sp m us \<and> timely sp m us x"
  by (auto simp: timing_legal_def less_Suc_eq nth_append)

text \<open>What the times kept at a node say about the commands issued to it and beside it.\<close>
definition times_ok :: "('c, 's) standard \<Rightarrow> ('c \<times> int list \<times> int) list \<Rightarrow> int list \<Rightarrow> ('c, 's) dram_info \<Rightarrow> bool" where
  "times_ok sp us q d \<longleftrightarrow>
     (\<forall>c. prev_times d c = padded (max_dist (timing sp (d_level d) c)) (issued_to q c us)) \<and>
     (\<forall>c. \<forall>t \<in> set (timing sp (d_level d) c). \<not> te_sibling t \<longrightarrow> te_dist t \<le> length (issued_to q c us) \<longrightarrow>
        issued_to q c us ! (te_dist t - 1) + te_val t \<le> next_time d (te_cmd t)) \<and>
     (\<forall>c. \<forall>t \<in> set (timing sp (d_level d) c). te_sibling t \<longrightarrow>
        (\<forall>k \<in> issued_beside q c us. k + te_val t \<le> next_time d (te_cmd t)))"

lemma foldl_max_ge: "n \<le> foldl (\<lambda>m t. max m (f t)) (n :: nat) ts" "t \<in> set ts \<Longrightarrow> f t \<le> foldl (\<lambda>m t. max m (f t)) n ts"
proof (induction ts arbitrary: n)
  case (Cons x xs)
  {
    case 1
    show ?case using Cons(1) [of "max n (f x)"] by simp
  next
    case 2
    then show ?case using Cons(1) [of "max n (f x)"] Cons(2) [of "max n (f x)"] by auto
  }
qed simp_all

lemma max_dist_ge: "t \<in> set ts \<Longrightarrow> te_dist t \<le> max_dist ts"
  by (simp add: max_dist_def foldl_max_ge)

subsection \<open>One node\<close>

lemma fold_sibling:
  assumes "\<forall>t \<in> set ts. te_sibling t \<longrightarrow> te_dist t = 1"
  shows "\<exists>n. fold_opt (sibling_entry clk) ts d = Some (d\<lparr>next_time := n\<rparr>) \<and> (\<forall>c. next_time d c \<le> n c) \<and>
    (\<forall>t \<in> set ts. te_sibling t \<longrightarrow> clk + te_val t \<le> n (te_cmd t)) \<and>
    (\<forall>B. (\<forall>c. next_time d c \<le> B) \<longrightarrow> (\<forall>t \<in> set ts. clk + te_val t \<le> B) \<longrightarrow> (\<forall>c. n c \<le> B))"
  using assms
proof (induction ts arbitrary: d)
  case Nil
  show ?case by (rule exI [of _ "next_time d"]) simp
next
  case (Cons t ts)
  let ?n = "if te_sibling t then (next_time d)(te_cmd t := max (next_time d (te_cmd t)) (clk + te_val t)) else next_time d"
  obtain n where n: "fold_opt (sibling_entry clk) ts (d\<lparr>next_time := ?n\<rparr>) = Some (d\<lparr>next_time := ?n, next_time := n\<rparr>)"
    "\<forall>c. ?n c \<le> n c" "\<forall>t \<in> set ts. te_sibling t \<longrightarrow> clk + te_val t \<le> n (te_cmd t)"
    "\<forall>B. (\<forall>c. ?n c \<le> B) \<longrightarrow> (\<forall>t \<in> set ts. clk + te_val t \<le> B) \<longrightarrow> (\<forall>c. n c \<le> B)"
    using Cons(1) [of "d\<lparr>next_time := ?n\<rparr>"] Cons(2) by auto
  have e: "sibling_entry clk t d = Some (d\<lparr>next_time := ?n\<rparr>)" using Cons(2) by (simp add: sibling_entry_def)
  have le: "next_time d c \<le> ?n c" for c by simp
  have "next_time d c \<le> n c" for c using le [of c] spec [OF n(2), of c] by (rule order_trans)
  moreover have "clk + te_val t \<le> n (te_cmd t)" if "te_sibling t" using spec [OF n(2), of "te_cmd t"] that by simp
  moreover have "n c \<le> B" if "\<forall>c. next_time d c \<le> B" "\<forall>t \<in> set (t # ts). clk + te_val t \<le> B" for B c
    using that by (intro n(4) [rule_format]) auto
  ultimately show ?case using n(1,3) by (intro exI [of _ n]) (simp add: e)
qed

text \<open>Everything of a node except its earliest times and the record of refreshes is kept.\<close>
definition stamped :: "('c, 's) dram_info \<Rightarrow> ('c, 's) dram_info \<Rightarrow> bool" where
  "stamped d d' \<longleftrightarrow> d' = d\<lparr>next_time := next_time d', begin_of_refreshing := begin_of_refreshing d',
     end_of_refreshing := end_of_refreshing d', refresh_cycles := refresh_cycles d', refresh_intervals := refresh_intervals d'\<rparr>"

lemma stamped_refl [simp]: "stamped d d"
  by (simp add: stamped_def)

lemma stamped_fields:
  assumes "stamped d d'"
  shows "d_level d' = d_level d" "d_id d' = d_id d" "d_state d' = d_state d" "row_state d' = row_state d" "cur_clk d' = cur_clk d"
    "prev_times d' = prev_times d" "cur_serving_requests d' = cur_serving_requests d" "begin_of_serving d' = begin_of_serving d"
  by (subst assms [unfolded stamped_def], simp)+

lemma stamped_trans: "stamped d d' \<Longrightarrow> stamped d' d'' \<Longrightarrow> stamped d d''"
  by (cases d, cases d', cases d'') (simp add: stamped_def)

lemma target_entry_step:
  assumes "\<not> te_sibling t \<Longrightarrow> 1 \<le> te_dist t \<and> te_dist t \<le> length (prev_times d cmd)"
    and "\<not> te_sibling t \<Longrightarrow> is_refreshing sp cmd \<Longrightarrow> is_opening sp (te_cmd t) \<Longrightarrow> te_dist t = 1"
    and "prev_times d cmd \<noteq> [] \<Longrightarrow> prev_times d cmd ! 0 = clk"
  shows "\<exists>d'. target_entry sp cmd clk t d = Some d' \<and> stamped d d' \<and>
    next_time d' = (if te_sibling t \<or> prev_times d cmd ! (te_dist t - 1) < 0 then next_time d
      else (next_time d)(te_cmd t := max (next_time d (te_cmd t)) (prev_times d cmd ! (te_dist t - 1) + te_val t)))"
proof (cases "te_sibling t")
  case False
  have c: "child (prev_times d cmd) (int (te_dist t) - 1) = Some (prev_times d cmd ! (te_dist t - 1))"
    using assms(1) [OF False] by (auto simp: child_def nat_diff_distrib')
  show ?thesis
  proof (cases "is_refreshing sp cmd \<and> is_opening sp (te_cmd t)")
    case True
    then have "prev_times d cmd ! (te_dist t - 1) = clk" using assms False by fastforce
    then show ?thesis using False True c by (auto simp: target_entry_def stamped_def Let_def)
  qed (use False c in \<open>auto simp: target_entry_def stamped_def\<close>)
qed (simp add: target_entry_def)

lemma fold_target:
  assumes "\<forall>t \<in> set ts. \<not> te_sibling t \<longrightarrow> 1 \<le> te_dist t \<and> te_dist t \<le> length (prev_times d cmd)"
    and "\<forall>t \<in> set ts. \<not> te_sibling t \<longrightarrow> is_refreshing sp cmd \<longrightarrow> is_opening sp (te_cmd t) \<longrightarrow> te_dist t = 1"
    and "prev_times d cmd \<noteq> [] \<longrightarrow> prev_times d cmd ! 0 = clk"
  shows "\<exists>d'. fold_opt (target_entry sp cmd clk) ts d = Some d' \<and> stamped d d' \<and> (\<forall>c. next_time d c \<le> next_time d' c) \<and>
    (\<forall>t \<in> set ts. \<not> te_sibling t \<longrightarrow> 0 \<le> prev_times d cmd ! (te_dist t - 1) \<longrightarrow>
       prev_times d cmd ! (te_dist t - 1) + te_val t \<le> next_time d' (te_cmd t)) \<and>
    (\<forall>B. (\<forall>c. next_time d c \<le> B) \<longrightarrow> (\<forall>t \<in> set ts. \<not> te_sibling t \<longrightarrow> prev_times d cmd ! (te_dist t - 1) + te_val t \<le> B) \<longrightarrow>
       (\<forall>c. next_time d' c \<le> B))"
  using assms
proof (induction ts arbitrary: d)
  case Nil
  show ?case by (rule exI [of _ d]) simp
next
  case (Cons t ts)
  let ?past = "\<lambda>t. prev_times d cmd ! (te_dist t - 1)"
  obtain d1 where d1: "target_entry sp cmd clk t d = Some d1" "stamped d d1"
    "next_time d1 = (if te_sibling t \<or> ?past t < 0 then next_time d
      else (next_time d)(te_cmd t := max (next_time d (te_cmd t)) (?past t + te_val t)))"
    using target_entry_step [of t d cmd sp clk] Cons(2-4) by auto
  have prev: "prev_times d1 = prev_times d" using stamped_fields [OF d1(2)] by simp
  have "\<exists>d'. fold_opt (target_entry sp cmd clk) ts d1 = Some d' \<and> stamped d1 d' \<and> (\<forall>c. next_time d1 c \<le> next_time d' c) \<and>
    (\<forall>t \<in> set ts. \<not> te_sibling t \<longrightarrow> 0 \<le> ?past t \<longrightarrow> ?past t + te_val t \<le> next_time d' (te_cmd t)) \<and>
    (\<forall>B. (\<forall>c. next_time d1 c \<le> B) \<longrightarrow> (\<forall>t \<in> set ts. \<not> te_sibling t \<longrightarrow> ?past t + te_val t \<le> B) \<longrightarrow> (\<forall>c. next_time d' c \<le> B))"
    using Cons(1) [of d1] Cons(2-4) by (simp add: prev)
  then obtain d' where d': "fold_opt (target_entry sp cmd clk) ts d1 = Some d'" "stamped d1 d'"
    "\<forall>c. next_time d1 c \<le> next_time d' c"
    "\<forall>t \<in> set ts. \<not> te_sibling t \<longrightarrow> 0 \<le> ?past t \<longrightarrow> ?past t + te_val t \<le> next_time d' (te_cmd t)"
    "\<forall>B. (\<forall>c. next_time d1 c \<le> B) \<longrightarrow> (\<forall>t \<in> set ts. \<not> te_sibling t \<longrightarrow> ?past t + te_val t \<le> B) \<longrightarrow> (\<forall>c. next_time d' c \<le> B)"
    by (elim exE conjE) rule
  have "next_time d c \<le> next_time d' c" for c
    by (rule order_trans [OF _ spec [OF d'(3)]]) (simp add: d1(3))
  moreover have "?past t + te_val t \<le> next_time d' (te_cmd t)" if "\<not> te_sibling t" "0 \<le> ?past t"
    by (rule order_trans [OF _ spec [OF d'(3)]]) (use that in \<open>simp add: d1(3)\<close>)
  moreover have "next_time d' c \<le> B" if "\<forall>c. next_time d c \<le> B" "\<forall>t \<in> set (t # ts). \<not> te_sibling t \<longrightarrow> ?past t + te_val t \<le> B" for B c
    by (rule d'(5) [rule_format]) (use that in \<open>auto simp: d1(3)\<close>)
  ultimately show ?case using d'(1,4) d1(1) stamped_trans [OF d1(2) d'(2)]
    by (intro exI [of _ d'] conjI allI impI) auto
qed

subsection \<open>The whole tree\<close>

definition all_nodes :: "(('c, 's) dram_info \<Rightarrow> bool) \<Rightarrow> ('c, 's) DRAM \<Rightarrow> bool" where
  "all_nodes P t \<longleftrightarrow> (\<forall>p n. node_at p t = Some n \<longrightarrow> P (d_info n))"

lemma all_nodes_root: "all_nodes P t \<Longrightarrow> P (d_info t)"
  unfolding all_nodes_def by (drule spec [of _ "[]"]) simp

lemma all_nodes_child:
  assumes "all_nodes P t" and "c \<in> set (d_children t)"
  shows "all_nodes P c"
  unfolding all_nodes_def
proof (intro allI impI)
  fix p n assume n: "node_at p c = Some n"
  obtain i where "i < length (d_children t)" "c = d_children t ! i" using assms(2) by (auto simp: in_set_conv_nth)
  then have "node_at (int i # p) t = Some n" using n by (simp add: child_def)
  then show "P (d_info n)" using assms(1) unfolding all_nodes_def by blast
qed

lemma those_map:
  assumes "\<And>x. x \<in> set xs \<Longrightarrow> \<exists>y. f x = Some y \<and> R x y"
  shows "\<exists>ys. those (map f xs) = Some ys \<and> list_all2 R xs ys"
  using assms
proof (induction xs)
  case (Cons x xs)
  obtain y where "f x = Some y" "R x y" using Cons(2) [of x] by auto
  moreover obtain ys where "those (map f xs) = Some ys" "list_all2 R xs ys" using Cons by auto
  ultimately show ?case by auto
qed simp

text \<open>What an update does to the node at a path, from a root at level \<open>l\<close>: the addressed nodes record the command and
  apply its constraints, their siblings apply the constraints on siblings, the other nodes stay.\<close>
definition timing_step ::
  "('c, 's) standard \<Rightarrow> 'c \<Rightarrow> int list \<Rightarrow> int \<Rightarrow> nat \<Rightarrow> int list \<Rightarrow> ('c, 's) dram_info \<Rightarrow> ('c, 's) dram_info \<Rightarrow> bool" where
  "timing_step sp cmd addr clk l q d d' \<longleftrightarrow>
     (if take (length q) (drop l addr) = q
      then fold_opt (target_entry sp cmd clk) (timing sp (d_level d) cmd) (push_history cmd clk d) = Some d'
      else if take (length q - 1) (drop l addr) = butlast q
      then fold_opt (sibling_entry clk) (timing sp (d_level d) cmd) d = Some d'
      else d' = d)"

definition stepped ::
  "('c, 's) standard \<Rightarrow> 'c \<Rightarrow> int list \<Rightarrow> int \<Rightarrow> nat \<Rightarrow> int list \<Rightarrow> ('c, 's) DRAM \<Rightarrow> ('c, 's) DRAM \<Rightarrow> bool" where
  "stepped sp cmd addr clk l q n n' \<longleftrightarrow> timing_step sp cmd addr clk l q (d_info n) (d_info n') \<and>
     length (d_children n') = length (d_children n)"

lemma timing_step_Cons:
  assumes "l < length addr" and "addr ! l = i"
  shows "timing_step sp cmd addr clk l (i # j # q) d d' = timing_step sp cmd addr clk (Suc l) (j # q) d d'"
  using assms by (auto simp: timing_step_def Cons_nth_drop_Suc [symmetric] take_Cons')

lemma timing_step_other:
  assumes "l < length addr" and "addr ! l \<noteq> i"
  shows "timing_step sp cmd addr clk l (i # j # q) d d"
  using assms by (auto simp: timing_step_def Cons_nth_drop_Suc [symmetric] take_Cons')

text \<open>The history kept at a node is as long as its constraints need.\<close>
definition kept :: "('c, 's) standard \<Rightarrow> nat \<Rightarrow> ('c, 's) dram_info \<Rightarrow> bool" where
  "kept sp m d \<longleftrightarrow> d_level d < m \<and> (\<forall>c. length (prev_times d c) = max_dist (timing sp (d_level d) c))"

text \<open>A device of levels below \<open>m\<close> whose times are those of the issued commands.\<close>
definition device_ok :: "('c, 's) standard \<Rightarrow> nat \<Rightarrow> ('c \<times> int list \<times> int) list \<Rightarrow> ('c, 's) DRAM \<Rightarrow> bool" where
  "device_ok sp m us t \<longleftrightarrow> tree_ok 0 t \<and> (\<forall>(c, addr, k) \<in> set us. 0 \<le> k) \<and>
     (\<forall>p n. node_at p t = Some n \<longrightarrow> d_level (d_info n) < m \<and> times_ok sp us (d_id (d_info t) # p) (d_info n))"

text \<open>A new device.\<close>
lemma new_DRAM_nodes:
  assumes "new_DRAM sp l = Some t" and "node_at p t = Some n"
  shows "\<exists>i. d_info n = (init_info sp (l + length p))\<lparr>d_id := i\<rparr> \<and> (l < level_Row sp \<longrightarrow> l + length p < level_Row sp)"
  using assms
proof (induction p arbitrary: l t n)
  case Nil
  have "\<exists>cs. t = DRAM (init_info sp l) cs"
    using Nil(1) by (subst (asm) new_DRAM.simps) (auto split: if_splits elim!: bind_SomeE)
  then show ?case using Nil(2) by (auto intro!: exI [of _ 0] simp: init_info_def)
next
  case (Cons i p)
  obtain c where c: "new_DRAM sp (Suc l) = Some c" "Suc l \<noteq> level_Row sp"
    "d_children t = map (\<lambda>i. set_id (int i) c) [0..<org_count sp (Suc l)]"
    using Cons(2,3) by (subst (asm) (2) new_DRAM.simps) (auto simp: child_Some split: if_splits elim!: bind_SomeE)
  have j: "node_at p (set_id i c) = Some n" using Cons(3) c(3) by (auto simp: child_Some elim!: bind_SomeE)
  show ?case
  proof (cases p)
    case Nil
    obtain k where "d_info c = (init_info sp (Suc l))\<lparr>d_id := k\<rparr>" using Cons.IH [OF c(1), of c] Nil by auto
    then show ?thesis using j Nil c(2) by (auto simp: set_id_def)
  next
    case (Cons a q)
    then have "node_at p c = Some n" using j by (simp add: set_id_def)
    then show ?thesis using Cons.IH [OF c(1)] c(2) by auto
  qed
qed

text \<open>What the device relies on in its standard.\<close>
locale dram_standard =
  fixes sp :: "('c, 's) standard"
  assumes entry_ok: "t \<in> set (timing sp l c) \<Longrightarrow> 1 \<le> te_dist t \<and> 0 \<le> te_val t"
    and sibling_dist: "t \<in> set (timing sp l c) \<Longrightarrow> te_sibling t \<Longrightarrow> te_dist t = 1"
    and refresh_dist: "t \<in> set (timing sp l c) \<Longrightarrow> is_refreshing sp c \<Longrightarrow> is_opening sp (te_cmd t) \<Longrightarrow> te_dist t = 1"
    and lambda_timing: "lambda sp l c = Some f \<Longrightarrow> same_timing (f u i) u"
begin

lemma new_device_ok:
  assumes "new_DRAM sp 0 = Some t" and "0 < level_Row sp"
  shows "device_ok sp (level_Row sp) [] (set_id i t)"
proof -
  have "d_level (d_info n) < level_Row sp \<and> times_ok sp [] q (d_info n)" if n: "node_at p (set_id i t) = Some n" for p n q
  proof -
    have "\<exists>j. d_info n = (init_info sp (length p))\<lparr>d_id := j\<rparr> \<and> length p < level_Row sp"
    proof (cases p)
      case Nil
      then show ?thesis using new_DRAM_nodes [OF assms(1), of "[]" t] n assms(2) by (auto simp: set_id_def)
    next
      case (Cons a r)
      then have "node_at p t = Some n" using n by (simp add: set_id_def)
      then show ?thesis using new_DRAM_nodes [OF assms(1), of p n] assms(2) by auto
    qed
    then show ?thesis using entry_ok
      by (force simp: times_ok_def init_info_def padded_def issued_to_def issued_beside_def intro!: nth_equalityI)
  qed
  then show ?thesis using new_DRAM_ok [OF assms(1)] by (simp add: device_ok_def tree_ok_set_id)
qed

lemma target_step:
  assumes "kept sp m d"
  shows "\<exists>d'. fold_opt (target_entry sp cmd clk) (timing sp (d_level d) cmd) (push_history cmd clk d) = Some d' \<and>
    stamped (push_history cmd clk d) d' \<and> (\<forall>c. next_time d c \<le> next_time d' c) \<and>
    (\<forall>t \<in> set (timing sp (d_level d) cmd). \<not> te_sibling t \<longrightarrow> 0 \<le> prev_times d' cmd ! (te_dist t - 1) \<longrightarrow>
       prev_times d' cmd ! (te_dist t - 1) + te_val t \<le> next_time d' (te_cmd t)) \<and>
    (\<forall>B. (\<forall>c. next_time d c \<le> B) \<longrightarrow> (\<forall>t \<in> set (timing sp (d_level d) cmd). \<not> te_sibling t \<longrightarrow>
       prev_times d' cmd ! (te_dist t - 1) + te_val t \<le> B) \<longrightarrow> (\<forall>c. next_time d' c \<le> B))"
proof -
  let ?d = "push_history cmd clk d"
  have len: "length (prev_times ?d cmd) = max_dist (timing sp (d_level d) cmd)"
    using assms unfolding kept_def push_history_def by (cases "prev_times d cmd") (auto dest!: spec [of _ cmd])
  have 1: "\<forall>t \<in> set (timing sp (d_level d) cmd). \<not> te_sibling t \<longrightarrow> 1 \<le> te_dist t \<and> te_dist t \<le> length (prev_times ?d cmd)"
    using entry_ok max_dist_ge len by metis
  have 2: "\<forall>t \<in> set (timing sp (d_level d) cmd). \<not> te_sibling t \<longrightarrow> is_refreshing sp cmd \<longrightarrow> is_opening sp (te_cmd t) \<longrightarrow> te_dist t = 1"
    using refresh_dist by blast
  have 3: "prev_times ?d cmd \<noteq> [] \<longrightarrow> prev_times ?d cmd ! 0 = clk" by (simp add: push_history_def split: if_splits)
  have n: "next_time ?d = next_time d" by (simp add: push_history_def)
  obtain d' where d': "fold_opt (target_entry sp cmd clk) (timing sp (d_level d) cmd) ?d = Some d'" "stamped ?d d'"
    "\<forall>c. next_time d c \<le> next_time d' c"
    "\<forall>t \<in> set (timing sp (d_level d) cmd). \<not> te_sibling t \<longrightarrow> 0 \<le> prev_times ?d cmd ! (te_dist t - 1) \<longrightarrow>
       prev_times ?d cmd ! (te_dist t - 1) + te_val t \<le> next_time d' (te_cmd t)"
    "\<forall>B. (\<forall>c. next_time d c \<le> B) \<longrightarrow> (\<forall>t \<in> set (timing sp (d_level d) cmd). \<not> te_sibling t \<longrightarrow>
       prev_times ?d cmd ! (te_dist t - 1) + te_val t \<le> B) \<longrightarrow> (\<forall>c. next_time d' c \<le> B)"
    using fold_target [OF 1 2 3, unfolded n] by (elim exE conjE) rule
  have "prev_times d' = prev_times ?d" using stamped_fields(6) [OF d'(2)] .
  then show ?thesis using d' by (intro exI [of _ d']) simp
qed

lemma sibling_step:
  "\<exists>n. fold_opt (sibling_entry clk) (timing sp (d_level d) cmd) d = Some (d\<lparr>next_time := n\<rparr>) \<and> (\<forall>c. next_time d c \<le> n c) \<and>
    (\<forall>t \<in> set (timing sp (d_level d) cmd). te_sibling t \<longrightarrow> clk + te_val t \<le> n (te_cmd t)) \<and>
    (\<forall>B. (\<forall>c. next_time d c \<le> B) \<longrightarrow> (\<forall>t \<in> set (timing sp (d_level d) cmd). clk + te_val t \<le> B) \<longrightarrow> (\<forall>c. n c \<le> B))"
  by (rule fold_sibling) (use sibling_dist in blast)

text \<open>An update of the timing returns, and steps every node.\<close>
lemma update_timing_ok:
  assumes "tree_ok l t" and "all_nodes (kept sp (length addr)) t"
  shows "\<exists>t'. update_timing sp t cmd addr clk = Some t' \<and>
    (\<forall>p. rel_option (stepped sp cmd addr clk l (d_id (d_info t) # p)) (node_at p t) (node_at p t'))"
  using assms
proof (induction t arbitrary: l)
  case (DRAM d cs)
  have l: "d_level d = l" "l < length addr"
    using DRAM(2) all_nodes_root [OF DRAM(3)] by (simp_all add: kept_def)
  then have rd: "rd_addr addr (d_level d) = Some (addr ! l)" by (simp add: rd_addr_def)
  show ?case
  proof (cases "d_id d = addr ! l")
    case False
    obtain n where n: "fold_opt (sibling_entry clk) (timing sp (d_level d) cmd) d = Some (d\<lparr>next_time := n\<rparr>)"
      using sibling_step by blast
    have root: "stepped sp cmd addr clk l [d_id d] (DRAM d cs) (DRAM (d\<lparr>next_time := n\<rparr>) cs)"
      using False l n by (auto simp: stepped_def timing_step_def Cons_nth_drop_Suc [symmetric])
    have "rel_option (stepped sp cmd addr clk l (d_id d # p)) (node_at p (DRAM d cs)) (node_at p (DRAM (d\<lparr>next_time := n\<rparr>) cs))" for p
    proof (cases p)
      case (Cons j q)
      have "rel_option (stepped sp cmd addr clk l (d_id d # j # q)) x x" for x :: "('c, 's) DRAM option"
        using timing_step_other [OF l(2), of "d_id d"] False by (intro option.rel_refl) (simp add: stepped_def)
      then show ?thesis using Cons by simp
    qed (simp add: root)
    then show ?thesis using rd False n by simp
  next
    case True
    have "kept sp (length addr) d" using all_nodes_root [OF DRAM(3)] by simp
    from target_step [OF this, of cmd clk] obtain d' where
      d': "fold_opt (target_entry sp cmd clk) (timing sp (d_level d) cmd) (push_history cmd clk d) = Some d'" by blast
    have "\<exists>c'. update_timing sp c cmd addr clk = Some c' \<and>
        (\<forall>p. rel_option (stepped sp cmd addr clk (Suc l) (d_id (d_info c) # p)) (node_at p c) (node_at p c'))" if "c \<in> set cs" for c
      by (rule DRAM(1) [OF that]) (use DRAM(2) all_nodes_child [OF DRAM(3)] that in simp_all)
    from those_map [of cs "\<lambda>c. update_timing sp c cmd addr clk", OF this] obtain cs' where cs': "those (map (\<lambda>c. update_timing sp c cmd addr clk) cs) = Some cs'"
      "list_all2 (\<lambda>c c'. \<forall>p. rel_option (stepped sp cmd addr clk (Suc l) (d_id (d_info c) # p)) (node_at p c) (node_at p c')) cs cs'"
      by blast
    have root: "stepped sp cmd addr clk l [d_id d] (DRAM d cs) (DRAM d' cs')"
      using True l d' list_all2_lengthD [OF cs'(2)] by (auto simp: stepped_def timing_step_def Cons_nth_drop_Suc [symmetric])
    have "rel_option (stepped sp cmd addr clk l (d_id d # p)) (node_at p (DRAM d cs)) (node_at p (DRAM d' cs'))" for p
    proof (cases p)
      case (Cons j q)
      have len: "length cs' = length cs" using list_all2_lengthD [OF cs'(2)] by simp
      show ?thesis
      proof (cases "child cs j")
        case None
        then show ?thesis using Cons len by (auto simp: child_def split: if_splits)
      next
        case (Some c)
        then have j: "0 \<le> j" "nat j < length cs" "c = cs ! nat j" by (auto simp: child_Some)
        have id: "d_id (d_info c) = j" using tree_ok_child(2) [OF DRAM(2), of j c] Some by simp
        have "rel_option (stepped sp cmd addr clk (Suc l) (j # q)) (node_at q c) (node_at q (cs' ! nat j))"
          using list_all2_nthD [OF cs'(2) j(2)] j(3) id by simp
        then have "rel_option (stepped sp cmd addr clk l (d_id d # j # q)) (node_at q c) (node_at q (cs' ! nat j))"
          by (rule option.rel_mono_strong) (simp add: stepped_def timing_step_Cons [OF l(2) True [symmetric]])
        then show ?thesis using Cons Some j len by (simp add: child_def)
      qed
    qed (simp add: root)
    then show ?thesis using rd True d' cs'(1) by simp
  qed
qed

text \<open>A step of the timing keeps the state of a node, and moves no time further than the constraints say.\<close>
lemma timing_step_fields:
  assumes "kept sp m d" and "timing_step sp cmd addr k l q d d'"
  shows "d_state d' = d_state d \<and> row_state d' = row_state d \<and> cur_serving_requests d' = cur_serving_requests d \<and>
    begin_of_serving d' = begin_of_serving d \<and> d_id d' = d_id d \<and> (\<forall>c. next_time d c \<le> next_time d' c)"
    and "(\<forall>c. next_time d c \<le> B) \<Longrightarrow> (\<forall>t \<in> set (timing sp (d_level d) cmd). k + te_val t \<le> B) \<Longrightarrow>
      (\<forall>x \<in> set (prev_times d cmd). x \<le> k) \<Longrightarrow> \<forall>c. next_time d' c \<le> B"
proof -
  let ?ph = "push_history cmd k d"
  consider (target) "fold_opt (target_entry sp cmd k) (timing sp (d_level d) cmd) ?ph = Some d'"
    | (sibling) "fold_opt (sibling_entry k) (timing sp (d_level d) cmd) d = Some d'" | (same) "d' = d"
    using assms(2) unfolding timing_step_def by (auto split: if_splits)
  then have "(d_state d' = d_state d \<and> row_state d' = row_state d \<and> cur_serving_requests d' = cur_serving_requests d \<and>
    begin_of_serving d' = begin_of_serving d \<and> d_id d' = d_id d \<and> (\<forall>c. next_time d c \<le> next_time d' c)) \<and>
    ((\<forall>c. next_time d c \<le> B) \<longrightarrow> (\<forall>t \<in> set (timing sp (d_level d) cmd). k + te_val t \<le> B) \<longrightarrow>
      (\<forall>x \<in> set (prev_times d cmd). x \<le> k) \<longrightarrow> (\<forall>c. next_time d' c \<le> B))"
  proof cases
    case target
    from target_step [OF assms(1), of cmd k] target have t: "stamped ?ph d'" "\<forall>c. next_time d c \<le> next_time d' c"
      "\<forall>B. (\<forall>c. next_time d c \<le> B) \<longrightarrow> (\<forall>t \<in> set (timing sp (d_level d) cmd). \<not> te_sibling t \<longrightarrow>
       prev_times d' cmd ! (te_dist t - 1) + te_val t \<le> B) \<longrightarrow> (\<forall>c. next_time d' c \<le> B)" by auto
    have len: "length (prev_times ?ph cmd) = max_dist (timing sp (d_level d) cmd)"
      using assms(1) unfolding kept_def push_history_def by (cases "prev_times d cmd") (auto dest!: spec [of _ cmd])
    have "next_time d' c \<le> B" if *: "\<forall>c. next_time d c \<le> B" "\<forall>t \<in> set (timing sp (d_level d) cmd). k + te_val t \<le> B"
      "\<forall>x \<in> set (prev_times d cmd). x \<le> k" for c
    proof -
      have le: "x \<le> k" if "x \<in> set (prev_times ?ph cmd)" for x
        using that *(3) by (auto simp: push_history_def split: if_splits dest: in_set_butlastD)
      have "prev_times d' cmd ! (te_dist t - 1) + te_val t \<le> B" if e: "t \<in> set (timing sp (d_level d) cmd)" for t
      proof -
        have "te_dist t - 1 < length (prev_times ?ph cmd)" using entry_ok [OF e] max_dist_ge [OF e] len by linarith
        then have "prev_times ?ph cmd ! (te_dist t - 1) \<le> k" using le by simp
        then show ?thesis using *(2) e stamped_fields(6) [OF t(1)] by fastforce
      qed
      then show ?thesis using t(3) *(1) by blast
    qed
    then show ?thesis using t(1,2) stamped_fields [OF t(1)] by (simp add: push_history_def)
  next
    case sibling
    then show ?thesis using sibling_step [of k d cmd] by auto
  qed simp
  then show "d_state d' = d_state d \<and> row_state d' = row_state d \<and> cur_serving_requests d' = cur_serving_requests d \<and>
    begin_of_serving d' = begin_of_serving d \<and> d_id d' = d_id d \<and> (\<forall>c. next_time d c \<le> next_time d' c)"
    "(\<forall>c. next_time d c \<le> B) \<Longrightarrow> (\<forall>t \<in> set (timing sp (d_level d) cmd). k + te_val t \<le> B) \<Longrightarrow>
      (\<forall>x \<in> set (prev_times d cmd). x \<le> k) \<Longrightarrow> \<forall>c. next_time d' c \<le> B" by blast+
qed

lemma update_state_timing:
  assumes "update_state sp t cmd addr = Some t'"
  shows "same_timing t' t"
proof -
  have "sp' = sp \<longrightarrow> same_timing t' t" if "update_state sp' t cmd addr = Some t'" for sp' t cmd addr t'
  proof (rule update_state.raw_induct [of "\<lambda>sp' t cmd addr t'. sp' = sp \<longrightarrow> same_timing t' t", OF _ that])
    fix upd :: "('c, 's) standard \<Rightarrow> ('c, 's) DRAM \<Rightarrow> 'c \<Rightarrow> int list \<Rightarrow> ('c, 's) DRAM option" and sp' t cmd addr t'
    assume IH: "\<And>sp' t cmd addr t'. upd sp' t cmd addr = Some t' \<Longrightarrow> sp' = sp \<longrightarrow> same_timing t' t"
      and body: "do {
       child_id \<leftarrow> rd_addr addr (Suc (d_level (d_info t)));
       let t' = (case lambda sp' (d_level (d_info t)) cmd of None \<Rightarrow> t | Some f \<Rightarrow> f t child_id);
       if d_level (d_info t) = scope sp' cmd \<or> d_children t' = [] then Some t'
       else do {
         c \<leftarrow> child (d_children t') child_id;
         c' \<leftarrow> upd sp' c cmd addr;
         Some (DRAM (d_info t') ((d_children t')[nat child_id := c']))
       }
     } = Some t'"
    show "sp' = sp \<longrightarrow> same_timing t' t"
    proof
      assume sp: "sp' = sp"
      obtain i where i: "rd_addr addr (Suc (d_level (d_info t))) = Some i" using body by (auto elim!: bind_SomeE)
      define u where "u = (case lambda sp (d_level (d_info t)) cmd of None \<Rightarrow> t | Some f \<Rightarrow> f t i)"
      have u: "same_timing u t" using lambda_timing by (auto simp: u_def split: option.split)
      show "same_timing t' t"
      proof (cases "d_level (d_info t) = scope sp cmd \<or> d_children u = []")
        case True
        then show ?thesis using body i sp u by (simp add: u_def)
      next
        case False
        then obtain c c' where c: "child (d_children u) i = Some c" "upd sp c cmd addr = Some c'"
          "t' = DRAM (d_info u) ((d_children u)[nat i := c'])"
          using body i sp by (auto simp: Let_def u_def [symmetric] elim!: bind_SomeE)
        have "same_timing t' u"
        proof (rule same_timingI)
          show "same_timing (d_children t' ! j) (d_children u ! j)" if "j < length (d_children t')" for j
            using that c(1,3) IH [OF c(2)] by (cases "j = nat i") (auto simp: child_Some)
        qed (simp add: c(3) timing_view_def)
        then show ?thesis using u by (rule same_timing_trans)
      qed
    qed
  qed
  then show ?thesis using assms by blast
qed

lemma times_ok_target:
  assumes "times_ok sp us q d" and "\<forall>(c, addr, k) \<in> set us. 0 \<le> k" and "0 \<le> clk" and "take (length q) addr = q"
    and "fold_opt (target_entry sp cmd clk) (timing sp (d_level d) cmd) (push_history cmd clk d) = Some d'"
  shows "times_ok sp (us @ [(cmd, addr, clk)]) q d' \<and> d_level d' = d_level d \<and> d_id d' = d_id d"
proof -
  let ?M = "\<lambda>c. max_dist (timing sp (d_level d) c)" and ?us = "us @ [(cmd, addr, clk)]"
  have kept: "kept sp (Suc (d_level d)) d" using assms(1) by (simp add: kept_def times_ok_def)
  from target_step [OF kept, of cmd clk] assms(5) have d': "stamped (push_history cmd clk d) d'"
    "\<forall>c. next_time d c \<le> next_time d' c"
    "\<forall>t \<in> set (timing sp (d_level d) cmd). \<not> te_sibling t \<longrightarrow> 0 \<le> prev_times d' cmd ! (te_dist t - 1) \<longrightarrow>
       prev_times d' cmd ! (te_dist t - 1) + te_val t \<le> next_time d' (te_cmd t)" by auto
  have lv: "d_level d' = d_level d" "d_id d' = d_id d" "prev_times d' = prev_times (push_history cmd clk d)"
    using stamped_fields [OF d'(1)] by (simp_all add: push_history_def)
  have iss: "issued_to q c ?us = (if c = cmd then clk # issued_to q c us else issued_to q c us)"
    "issued_beside q c ?us = issued_beside q c us" for c
    using assms(4) by (auto simp: issued_to_snoc issued_beside_snoc)
  have prev: "prev_times d' c = padded (?M c) (issued_to q c ?us)" for c
  proof -
    have p: "prev_times d c = padded (?M c) (issued_to q c us)" for c using assms(1) by (simp add: times_ok_def)
    show ?thesis
    proof (cases "c = cmd \<and> 0 < ?M c")
      case True
      then have "prev_times d cmd \<noteq> []" using p [of c] by (metis length_padded length_greater_0_conv)
      then show ?thesis using True p [of c] padded_push [of "?M c" clk "issued_to q c us"] by (auto simp: lv(3) push_history_def iss)
    next
      case False
      then show ?thesis using p [of c] by (auto simp: lv(3) push_history_def iss padded_def)
    qed
  qed
  have nn: "0 \<le> x" if "x \<in> set (issued_to q c us)" for x c using that assms(2) by (auto simp: issued_to_def)
  have "issued_to q c ?us ! (te_dist t - 1) + te_val t \<le> next_time d' (te_cmd t)"
    if t: "t \<in> set (timing sp (d_level d) c)" "\<not> te_sibling t" "te_dist t \<le> length (issued_to q c ?us)" for c t
  proof (cases "c = cmd")
    case True
    have e: "1 \<le> te_dist t" "te_dist t \<le> ?M c" using entry_ok [OF t(1)] max_dist_ge [OF t(1)] by simp_all
    have n: "prev_times d' c ! (te_dist t - 1) = issued_to q c ?us ! (te_dist t - 1)"
      using e t(3) by (auto simp: prev padded_def)
    have "issued_to q c ?us ! (te_dist t - 1) \<in> set (issued_to q c ?us)" using e t(3) by (intro nth_mem) simp
    then have "0 \<le> issued_to q c ?us ! (te_dist t - 1)" using nn assms(3) by (auto simp: iss True)
    then show ?thesis using bspec [OF d'(3), of t] t n True by simp
  next
    case False
    then have "issued_to q c ?us ! (te_dist t - 1) + te_val t \<le> next_time d (te_cmd t)"
      using t assms(1) by (simp add: iss times_ok_def)
    then show ?thesis using d'(2) order_trans by blast
  qed
  moreover have "k + te_val t \<le> next_time d' (te_cmd t)"
    if "t \<in> set (timing sp (d_level d) c)" "te_sibling t" "k \<in> issued_beside q c ?us" for c t k
  proof -
    have "k + te_val t \<le> next_time d (te_cmd t)" using that assms(1) by (simp add: iss times_ok_def)
    then show ?thesis using d'(2) order_trans by blast
  qed
  ultimately show ?thesis using prev unfolding times_ok_def lv(1,2) by blast
qed

lemma times_ok_sibling:
  assumes "times_ok sp us q d" and "take (length q) addr \<noteq> q" and "take (length q - 1) addr = butlast q"
    and "fold_opt (sibling_entry clk) (timing sp (d_level d) cmd) d = Some d'"
  shows "times_ok sp (us @ [(cmd, addr, clk)]) q d' \<and> d_level d' = d_level d \<and> d_id d' = d_id d"
proof -
  let ?us = "us @ [(cmd, addr, clk)]"
  from sibling_step [of clk d cmd] obtain n where n: "d' = d\<lparr>next_time := n\<rparr>" "\<forall>c. next_time d c \<le> n c"
    "\<forall>t \<in> set (timing sp (d_level d) cmd). te_sibling t \<longrightarrow> clk + te_val t \<le> n (te_cmd t)" using assms(4) by auto
  have iss: "issued_to q c ?us = issued_to q c us"
    "issued_beside q c ?us = (if c = cmd then insert clk (issued_beside q c us) else issued_beside q c us)" for c
    using assms(2,3) by (auto simp: issued_to_snoc issued_beside_snoc)
  have "issued_to q c us ! (te_dist t - 1) + te_val t \<le> n (te_cmd t)"
    if "t \<in> set (timing sp (d_level d) c)" "\<not> te_sibling t" "te_dist t \<le> length (issued_to q c us)" for c t
    by (rule order_trans [OF _ spec [OF n(2)]]) (use that assms(1) in \<open>simp add: times_ok_def\<close>)
  moreover have "k + te_val t \<le> n (te_cmd t)"
    if t: "t \<in> set (timing sp (d_level d) c)" "te_sibling t" "k \<in> issued_beside q c ?us" for c t k
  proof (cases "c = cmd \<and> k = clk")
    case True
    then show ?thesis using n(3) t by blast
  next
    case False
    then have "k \<in> issued_beside q c us" using t(3) by (auto simp: iss split: if_splits)
    then have "k + te_val t \<le> next_time d (te_cmd t)" using t assms(1) by (simp add: times_ok_def)
    then show ?thesis using n(2) order_trans by blast
  qed
  ultimately show ?thesis using assms(1) unfolding times_ok_def by (simp add: n(1) iss(1))
qed

lemma times_ok_step:
  assumes "times_ok sp us q d" and "\<forall>(c, addr, k) \<in> set us. 0 \<le> k" and "0 \<le> clk" and "timing_step sp cmd addr clk 0 q d d'"
  shows "times_ok sp (us @ [(cmd, addr, clk)]) q d' \<and> d_level d' = d_level d \<and> d_id d' = d_id d"
proof (cases "take (length q) addr = q")
  case True
  then show ?thesis using times_ok_target [OF assms(1-3)] assms(4) by (simp add: timing_step_def)
next
  case F: False
  show ?thesis
  proof (cases "take (length q - 1) addr = butlast q")
    case True
    then show ?thesis using times_ok_sibling [OF assms(1) F] assms(4) F by (simp add: timing_step_def)
  next
    case False
    have "issued_to q c (us @ [(cmd, addr, clk)]) = issued_to q c us" "issued_beside q c (us @ [(cmd, addr, clk)]) = issued_beside q c us" for c
      using F False by (auto simp: issued_to_snoc issued_beside_snoc)
    then show ?thesis using F False assms(1,4) by (simp add: timing_step_def times_ok_def)
  qed
qed

lemma device_ok_same:
  assumes "device_ok sp m us t" and "same_timing t' t"
  shows "device_ok sp m us t'"
proof -
  have id: "d_id (d_info t') = d_id (d_info t)" using same_timing_view [OF assms(2)] by (simp add: timing_view_def)
  have ok: "tree_ok 0 t'"
    by (rule same_timing_tree_ok [of t]) (use assms in \<open>auto simp: device_ok_def same_timing_def\<close>)
  have "d_level (d_info n') < m \<and> times_ok sp us (d_id (d_info t') # p) (d_info n')" if n': "node_at p t' = Some n'" for p n'
  proof -
    obtain n where n: "node_at p t = Some n" "timing_view n' = timing_view n"
      by (rule same_timing_node [OF _ n', of t]) (use assms(2) in \<open>auto simp: same_timing_def\<close>)
    have "d_level (d_info n) < m" "times_ok sp us (d_id (d_info t) # p) (d_info n)"
      using assms(1) n(1) unfolding device_ok_def by blast+
    then show ?thesis using n(2) by (simp add: timing_view_def times_ok_def id)
  qed
  then show ?thesis using ok assms(1) by (simp add: device_ok_def)
qed

text \<open>Issuing a command whose state change succeeds returns, and keeps the times those of the issued commands.\<close>
lemma update_device_ok:
  assumes "device_ok sp m us t" and "0 \<le> clk" and "m \<le> length addr"
    and "update_state sp (DRAM (d_info t\<lparr>cur_clk := clk\<rparr>) (d_children t)) cmd addr = Some t1"
  shows "\<exists>t'. d_update sp t cmd addr clk = Some t' \<and> update_timing sp t1 cmd addr clk = Some t' \<and>
    device_ok sp m (us @ [(cmd, addr, clk)]) t' \<and>
    (\<forall>p. rel_option (stepped sp cmd addr clk 0 (d_id (d_info t) # p)) (node_at p t1) (node_at p t'))"
proof -
  have "same_timing (DRAM (d_info t\<lparr>cur_clk := clk\<rparr>) (d_children t)) t"
    by (rule same_timingI) (simp_all add: timing_view_def)
  then have same: "same_timing t1 t" using update_state_timing [OF assms(4)] same_timing_trans by blast
  have d1: "device_ok sp m us t1" by (rule device_ok_same [OF assms(1) same])
  have id: "d_id (d_info t1) = d_id (d_info t)" using same_timing_view [OF same] by (simp add: timing_view_def)
  have "all_nodes (kept sp (length addr)) t1"
    unfolding all_nodes_def
  proof (intro allI impI)
    fix p n assume "node_at p t1 = Some n"
    then have "d_level (d_info n) < m" "times_ok sp us (d_id (d_info t1) # p) (d_info n)"
      using d1 unfolding device_ok_def by blast+
    then show "kept sp (length addr) (d_info n)" using assms(3) by (simp add: kept_def times_ok_def)
  qed
  from update_timing_ok [OF _ this, of 0 cmd clk, unfolded id] obtain t' where
    t': "update_timing sp t1 cmd addr clk = Some t'"
      "\<forall>p. rel_option (stepped sp cmd addr clk 0 (d_id (d_info t) # p)) (node_at p t1) (node_at p t')"
    using d1 unfolding device_ok_def by blast
  have step: "\<exists>n. node_at p t1 = Some n \<and> times_ok sp us (d_id (d_info t) # p) (d_info n) \<and> d_level (d_info n) < m \<and>
      times_ok sp (us @ [(cmd, addr, clk)]) (d_id (d_info t) # p) (d_info n') \<and>
      d_level (d_info n') = d_level (d_info n) \<and> d_id (d_info n') = d_id (d_info n) \<and> length (d_children n') = length (d_children n)"
    if n': "node_at p t' = Some n'" for p n'
  proof -
    obtain n where n: "node_at p t1 = Some n" "stepped sp cmd addr clk 0 (d_id (d_info t) # p) n n'"
      using spec [OF t'(2), of p] n' by (cases "node_at p t1") auto
    have ok: "times_ok sp us (d_id (d_info t) # p) (d_info n)" "d_level (d_info n) < m" "\<forall>(c, addr, k) \<in> set us. 0 \<le> k"
      using d1 n(1) id unfolding device_ok_def by metis+
    from times_ok_step [OF ok(1,3) assms(2)] n(2)
    have "times_ok sp (us @ [(cmd, addr, clk)]) (d_id (d_info t) # p) (d_info n') \<and>
      d_level (d_info n') = d_level (d_info n) \<and> d_id (d_info n') = d_id (d_info n)" unfolding stepped_def by blast
    then show ?thesis using n ok by (simp add: stepped_def)
  qed
  have id': "d_id (d_info t') = d_id (d_info t)" using step [of "[]" t'] id by auto
  have tok: "tree_ok 0 t'"
    unfolding tree_ok_iff
  proof (intro allI impI)
    fix p n' assume "node_at p t' = Some n'"
    then obtain n where n: "node_at p t1 = Some n" "d_level (d_info n') = d_level (d_info n)" "d_id (d_info n') = d_id (d_info n)"
      using step by blast
    have "numbered 0 p (d_info n)" using d1 n(1) unfolding device_ok_def tree_ok_iff by blast
    then show "numbered 0 p (d_info n')" using n by (simp add: numbered_def)
  qed
  have "d_level (d_info n') < m \<and> times_ok sp (us @ [(cmd, addr, clk)]) (d_id (d_info t') # p) (d_info n')" if n': "node_at p t' = Some n'" for p n'
    using step [OF n'] id' by auto
  then have "device_ok sp m (us @ [(cmd, addr, clk)]) t'"
    using tok d1 assms(2) by (auto simp: device_ok_def)
  then show ?thesis using t' assms(4) by (auto simp: d_update_def)
qed

end

subsection \<open>Ready commands\<close>

text \<open>A command that passes \<open>check\<close> is not too early at any node on its way, down to its scope.\<close>
lemma check_next:
  assumes "check sp t cmd addr clk = Some True" and "tree_ok l t" and "node_at p t = Some n"
    and "take (length p) (drop (Suc l) addr) = p" and "l + length p \<le> scope sp cmd"
  shows "next_time (d_info n) cmd = - 1 \<or> next_time (d_info n) cmd \<le> clk"
  using assms
proof (induction p arbitrary: t l)
  case Nil
  then show ?case by (cases t) (auto split: if_splits)
next
  case (Cons i p)
  obtain d cs where t: "t = DRAM d cs" by (cases t)
  obtain c where c: "child cs i = Some c" "node_at p c = Some n" using Cons(4) t by (auto elim!: bind_SomeE)
  have len: "Suc l < length addr" using Cons(5) by (cases "Suc l < length addr") auto
  then have i: "addr ! Suc l = i" "take (length p) (drop (Suc (Suc l)) addr) = p"
    using Cons(5) by (auto simp: Cons_nth_drop_Suc [symmetric])
  have "check sp c cmd addr clk = Some True"
    using Cons(2) Cons(3) Cons(6) c(1) i(1) len t by (auto simp: rd_addr_def child_Some split: if_splits)
  then show ?case using Cons(1) [OF _ _ c(2) i(2)] tree_ok_child(1) [OF Cons(3), of i c] c(1) Cons(6) t by simp
qed

text \<open>\<open>check\<close> reads the timing of the device only.\<close>
lemma check_same_timing: "same_timing t t' \<Longrightarrow> check sp t cmd addr clk = check sp t' cmd addr clk"
proof (induction sp t cmd addr clk arbitrary: t' rule: check.induct)
  case (1 sp d cs cmd addr clk)
  obtain d' cs' where t': "t' = DRAM d' cs'" by (cases t')
  have v: "d_level d' = d_level d" "next_time d' = next_time d" "length cs' = length cs"
    using same_timing_view [OF 1(2)] t' by (auto simp: timing_view_def)
  have ch: "child cs i = None \<and> child cs' i = None \<or> (\<exists>c c'. child cs i = Some c \<and> child cs' i = Some c' \<and> same_timing c c')" for i
    using same_timing_child [OF 1(2), of "nat i"] v(3) t' by (auto simp: child_def)
  show ?case
  proof (cases "next_time d cmd \<noteq> - 1 \<and> clk < next_time d cmd")
    case False
    show ?thesis
    proof (cases "rd_addr addr (Suc (d_level d))")
      case (Some i)
      have "cs' = [] \<longleftrightarrow> cs = []" using v(3) by (metis length_0_conv)
      then show ?thesis using False Some v ch [of i] 1(1) [OF False Some] t' by auto
    qed (use False v t' in simp)
  qed (use v t' in simp)
qed

text \<open>\<open>get_next\<close> is the first clock at which a command passes \<open>check\<close>.\<close>
lemma get_next_from_check:
  assumes "get_next_from sp t cmd addr l nc = Some m" and "tree_ok l t" and "l \<le> scope sp cmd"
    and "\<forall>p n. node_at p t = Some n \<longrightarrow> Suc (d_level (d_info n)) < length addr \<and> - 1 \<le> next_time (d_info n) cmd"
    and "next_time (d_info t) cmd \<le> nc" and "0 \<le> clk"
  shows "nc \<le> m \<and> (nc \<le> clk \<longrightarrow> check sp t cmd addr clk = Some (m \<le> clk))"
  using assms
proof (induction sp t cmd addr l nc rule: get_next_from.induct)
  case (1 sp d cs cmd addr l nc)
  have root: "d_level d = l" "Suc l < length addr" "- 1 \<le> next_time d cmd"
    using 1(3) spec [OF 1(5), of "[]"] by auto
  let ?i = "addr ! Suc l"
  have rd: "rd_addr addr (Suc l) = Some ?i" using root(2) by (simp add: rd_addr_def)
  show ?case
  proof (cases "l < scope sp cmd \<and> cs \<noteq> [] \<and> 0 \<le> ?i")
    case False
    then have "m = nc" "?i < 0 \<or> l = scope sp cmd \<or> cs = []"
      using 1(2,4) rd by (auto split: if_splits)
    then show ?thesis using 1(6,7) rd root by auto
  next
    case True
    then obtain c where c: "child cs ?i = Some c"
      "get_next_from sp c cmd addr (Suc l) (max nc (next_time (d_info c) cmd)) = Some m"
      using 1(2) rd by (auto elim!: bind_SomeE)
    have sub: "\<forall>p n. node_at p c = Some n \<longrightarrow> Suc (d_level (d_info n)) < length addr \<and> - 1 \<le> next_time (d_info n) cmd"
    proof (intro allI impI)
      fix p n assume "node_at p c = Some n"
      then have "node_at (?i # p) (DRAM d cs) = Some n" using c(1) by simp
      then show "Suc (d_level (d_info n)) < length addr \<and> - 1 \<le> next_time (d_info n) cmd" using 1(5) by blast
    qed
    have IH: "max nc (next_time (d_info c) cmd) \<le> m \<and> (max nc (next_time (d_info c) cmd) \<le> clk \<longrightarrow> check sp c cmd addr clk = Some (m \<le> clk))"
      by (rule "1.IH" [of ?i c])
        (use True rd c sub 1(7) tree_ok_child(1) [OF 1(3), of ?i c] in simp_all)
    have "check sp c cmd addr clk = Some False" if "clk < next_time (d_info c) cmd"
      using that 1(7) by (cases c) simp
    then have "nc \<le> clk \<Longrightarrow> check sp c cmd addr clk = Some (m \<le> clk)" using IH by fastforce
    then show ?thesis using IH True rd root c(1) 1(6) by auto
  qed
qed

lemma check_iff_get_next:
  assumes "tree_ok 0 t" and "\<forall>p n. node_at p t = Some n \<longrightarrow> Suc (d_level (d_info n)) < length addr \<and> - 1 \<le> next_time (d_info n) cmd"
    and "get_next sp t cmd addr = Some m" and "0 \<le> clk" and "cur_clk (d_info t) \<le> clk"
  shows "check sp t cmd addr clk = Some (m \<le> clk)"
proof -
  let ?nc = "max (cur_clk (d_info t)) (next_time (d_info t) cmd)"
  have g: "get_next_from sp t cmd addr 0 ?nc = Some m"
    using assms(3) tree_ok_level [OF assms(1)] by (simp add: get_next_def)
  have 1: "?nc \<le> m \<and> (?nc \<le> clk \<longrightarrow> check sp t cmd addr clk = Some (m \<le> clk))"
    by (rule get_next_from_check [OF g assms(1) _ assms(2)]) (use assms(4) in auto)
  have "check sp t cmd addr clk = Some False" if "clk < next_time (d_info t) cmd" using that assms(4) by (cases t) simp
  then show ?thesis using 1 assms(5) by fastforce
qed

context dram_standard
begin

text \<open>A ready command respects every constraint that the commands issued before put on it.\<close>
lemma check_respects:
  assumes "device_ok sp m us t" and "check sp t cmd addr clk = Some True" and "node_at p t = Some n"
    and "take (Suc (length p)) addr = d_id (d_info t) # p" and "length p \<le> scope sp cmd" and "0 \<le> clk"
    and "e \<in> set (timing sp (length p) c)" and "te_cmd e = cmd"
  shows "(\<not> te_sibling e \<longrightarrow> te_dist e \<le> length (issued_to (d_id (d_info t) # p) c us) \<longrightarrow>
      issued_to (d_id (d_info t) # p) c us ! (te_dist e - 1) + te_val e \<le> clk) \<and>
    (te_sibling e \<longrightarrow> (\<forall>k \<in> issued_beside (d_id (d_info t) # p) c us. k + te_val e \<le> clk))"
proof -
  let ?q = "d_id (d_info t) # p"
  have ok: "tree_ok 0 t" "times_ok sp us ?q (d_info n)" "\<forall>(c, addr, k) \<in> set us. 0 \<le> k"
    using assms(1,3) unfolding device_ok_def by blast+
  have lv: "d_level (d_info n) = length p" using node_at_ok [OF ok(1) assms(3)] tree_ok_level by fastforce
  have "take (length p) (drop 1 addr) = p" using assms(4) by (cases addr) auto
  then have nx: "next_time (d_info n) cmd = - 1 \<or> next_time (d_info n) cmd \<le> clk"
    using check_next [OF assms(2) ok(1) assms(3)] assms(5) by simp
  have nn: "0 \<le> k" if "k \<in> set (issued_to ?q c us) \<or> k \<in> issued_beside ?q c us" for k
    using that ok(3) by (auto simp: issued_to_def issued_beside_def)
  have e: "1 \<le> te_dist e" "0 \<le> te_val e" using entry_ok [OF assms(7)] by auto
  have le: "k + te_val e \<le> clk" if "k + te_val e \<le> next_time (d_info n) cmd" "0 \<le> k" for k
    using nx that e(2) by linarith
  show ?thesis
  proof (intro conjI impI ballI)
    assume *: "\<not> te_sibling e" "te_dist e \<le> length (issued_to ?q c us)"
    have "issued_to ?q c us ! (te_dist e - 1) + te_val e \<le> next_time (d_info n) cmd"
      using ok(2) * assms(7) unfolding times_ok_def lv assms(8) [symmetric] by blast
    moreover have "issued_to ?q c us ! (te_dist e - 1) \<in> set (issued_to ?q c us)" using * e(1) by (intro nth_mem) simp
    ultimately show "issued_to ?q c us ! (te_dist e - 1) + te_val e \<le> clk" using le nn by blast
  next
    fix k assume *: "te_sibling e" "k \<in> issued_beside ?q c us"
    have "k + te_val e \<le> next_time (d_info n) cmd" using ok(2) * assms(7) unfolding times_ok_def lv assms(8) [symmetric] by blast
    then show "k + te_val e \<le> clk" using le nn * by blast
  qed
qed

lemma ready_respects:
  assumes "device_ok sp m us t" and "check sp t cmd addr clk = Some True" and "0 \<le> clk" and "addr = d_id (d_info t) # as"
    and "\<And>l. l < d \<Longrightarrow> l \<le> scope sp cmd \<Longrightarrow> l \<le> length as \<and> node_at (take l as) t \<noteq> None"
  shows "timely sp d us (cmd, addr, clk)"
  unfolding timely_def prod.case
proof (intro allI impI)
  fix l c e assume l: "l < d" "l \<le> scope sp cmd" and e: "e \<in> set (timing sp l c)" "te_cmd e = cmd"
  obtain n where n: "node_at (take l as) t = Some n" and len: "length (take l as) = l" using assms(5) [OF l] by auto
  from check_respects [OF assms(1,2) n] show "(\<not> te_sibling e \<longrightarrow> te_dist e \<le> length (issued_to (take (Suc l) addr) c us) \<longrightarrow>
      issued_to (take (Suc l) addr) c us ! (te_dist e - 1) + te_val e \<le> clk) \<and>
    (te_sibling e \<longrightarrow> (\<forall>j \<in> issued_beside (take (Suc l) addr) c us. j + te_val e \<le> clk))"
    using l(2) e assms(3,4) len by simp
qed

end

end
