(* ===== verification/Packets.thy ===== *)
theory Packets
  imports Complex_Main Prelude
begin

text \<open>
  Memory requests and the packets that carry them between the host and the stacks of memory
  (\<^verbatim>\<open>src/src/ramulator/Request.h\<close>, \<^verbatim>\<open>Packet.h\<close>, \<^verbatim>\<open>Packet.cpp\<close>).  A request keeps the fields that the
  vault controller and the links read; call-backs, task identifiers and the time stamps of the network are left out.
  A field of a packet that a constructor leaves unset is \<^const>\<open>None\<close>.
\<close>

subsection \<open>Requests\<close>

datatype ReqType = READ | WRITE | REFRESH | POWERDOWN | SELFREFRESH | EXTENSION | INSTRUCTION

record Request =
  is_first_command :: bool
  req_addr :: int
  addr_vec :: "int list"
  reqid :: int
  coreid :: int
  is_pim_inst :: bool
  ideal_memnet :: bool
  pu_id :: int
  req_type :: ReqType
  arrive :: int
  depart :: int
  burst_count :: int
  transaction_bytes :: int

text \<open>The constructor from an address vector; the address it leaves unset is a parameter.\<close>
definition Request_vec :: "int \<Rightarrow> int list \<Rightarrow> ReqType \<Rightarrow> int \<Rightarrow> Request" where
  "Request_vec unset avec type core =
     \<lparr>is_first_command = True, req_addr = unset, addr_vec = avec, reqid = - 1, coreid = core, is_pim_inst = False,
      ideal_memnet = False, pu_id = - 1, req_type = type, arrive = - 1, depart = - 1, burst_count = 0, transaction_bytes = 0\<rparr>"

subsection \<open>Packets\<close>

datatype PacketType = PREQUEST | PRESPONSE | NULLPACKET | TRET | RETRY

datatype PacketCommand =
    WR16 | WR32 | WR48 | WR64 | WR80 | WR96 | WR112 | WR128 | WR256
  | RD16 | RD32 | RD48 | RD64 | RD80 | RD96 | RD112 | RD128 | RD256

text \<open>The position of a constructor, which is the integer the source converts an enumerator to.\<close>
primrec cmd_index :: "PacketCommand \<Rightarrow> int" where
  "cmd_index WR16 = 0" | "cmd_index WR32 = 1" | "cmd_index WR48 = 2" | "cmd_index WR64 = 3" | "cmd_index WR80 = 4"
| "cmd_index WR96 = 5" | "cmd_index WR112 = 6" | "cmd_index WR128 = 7" | "cmd_index WR256 = 8"
| "cmd_index RD16 = 9" | "cmd_index RD32 = 10" | "cmd_index RD48 = 11" | "cmd_index RD64 = 12" | "cmd_index RD80 = 13"
| "cmd_index RD96 = 14" | "cmd_index RD112 = 15" | "cmd_index RD128 = 16" | "cmd_index RD256 = 17"

definition cub_bits :: nat where "cub_bits = 4"
definition slid_bits :: nat where "slid_bits = 6"
definition adrs_bits :: nat where "adrs_bits = 38"
definition tag_bits :: nat where "tag_bits = 11"
definition lng_bits :: nat where "lng_bits = 5"
definition cmd_bits :: nat where "cmd_bits = 7"
definition rtc_bits :: nat where "rtc_bits = 3"

record 'v Datafield =
  field_value :: 'v
  bit_width :: nat

definition datafield_valid :: "('v \<Rightarrow> int) \<Rightarrow> 'v Datafield \<Rightarrow> bool" where
  "datafield_valid conv f \<longleftrightarrow> conv (field_value f) < 2 ^ bit_width f"

record PacketHeader =
  CUB :: "int Datafield option"
  ADRS :: "int Datafield option"
  SLID :: "int Datafield option"
  TAG :: "int Datafield option"
  LNG :: "int Datafield option"
  CMD :: "PacketCommand Datafield option"

record PacketTail =
  RTC :: "int Datafield option"
  tail_SLID :: "int Datafield option"

record Packet =
  packet_type :: PacketType
  header :: PacketHeader
  tail :: PacketTail
  packet_payload_flits :: int
  total_flits :: int
  flow_control :: bool
  packet_req :: "Request option"

definition Packet_request :: "PacketType \<Rightarrow> int \<Rightarrow> int \<Rightarrow> int \<Rightarrow> int \<Rightarrow> int \<Rightarrow> PacketCommand \<Rightarrow> Packet option" where
  "Packet_request type cub adrs tag lng slid cmd = do {
     _ \<leftarrow> assert_that (type = PREQUEST);
     Some \<lparr>packet_type = type,
           header = \<lparr>CUB = Some \<lparr>field_value = cub, bit_width = cub_bits\<rparr>, ADRS = Some \<lparr>field_value = adrs, bit_width = adrs_bits\<rparr>,
                     SLID = None, TAG = Some \<lparr>field_value = tag, bit_width = tag_bits\<rparr>,
                     LNG = Some \<lparr>field_value = lng, bit_width = lng_bits\<rparr>, CMD = Some \<lparr>field_value = cmd, bit_width = cmd_bits\<rparr>\<rparr>,
           tail = \<lparr>RTC = Some \<lparr>field_value = 0, bit_width = rtc_bits\<rparr>, tail_SLID = Some \<lparr>field_value = slid, bit_width = slid_bits\<rparr>\<rparr>,
           packet_payload_flits = lng - 1, total_flits = lng, flow_control = False, packet_req = None\<rparr>
   }"

definition Packet_response :: "PacketType \<Rightarrow> int \<Rightarrow> int \<Rightarrow> int \<Rightarrow> int \<Rightarrow> PacketCommand \<Rightarrow> Packet option" where
  "Packet_response type cub tag lng slid cmd = do {
     _ \<leftarrow> assert_that (type = PRESPONSE);
     Some \<lparr>packet_type = type,
           header = \<lparr>CUB = Some \<lparr>field_value = cub, bit_width = cub_bits\<rparr>, ADRS = None,
                     SLID = Some \<lparr>field_value = slid, bit_width = slid_bits\<rparr>, TAG = Some \<lparr>field_value = tag, bit_width = tag_bits\<rparr>,
                     LNG = Some \<lparr>field_value = lng, bit_width = lng_bits\<rparr>, CMD = Some \<lparr>field_value = cmd, bit_width = cmd_bits\<rparr>\<rparr>,
           tail = \<lparr>RTC = Some \<lparr>field_value = 0, bit_width = rtc_bits\<rparr>, tail_SLID = None\<rparr>,
           packet_payload_flits = lng - 1, total_flits = lng, flow_control = False, packet_req = None\<rparr>
   }"

definition Packet_tret :: "PacketType \<Rightarrow> int \<Rightarrow> Packet option" where
  "Packet_tret type rtc = do {
     _ \<leftarrow> assert_that (type = TRET);
     Some \<lparr>packet_type = type,
           header = \<lparr>CUB = None, ADRS = None, SLID = None, TAG = None, LNG = None, CMD = None\<rparr>,
           tail = \<lparr>RTC = Some \<lparr>field_value = rtc, bit_width = rtc_bits\<rparr>, tail_SLID = None\<rparr>,
           packet_payload_flits = 0, total_flits = 1, flow_control = True, packet_req = None\<rparr>
   }"

definition write_cmd_map :: "int \<Rightarrow> PacketCommand option" where
  "write_cmd_map = map_of [(1, WR16), (2, WR32), (3, WR48), (4, WR64), (5, WR80), (6, WR96), (7, WR112), (8, WR128), (16, WR256)]"

definition read_cmd_map :: "int \<Rightarrow> PacketCommand option" where
  "read_cmd_map = map_of [(1, RD16), (2, RD32), (3, RD48), (4, RD64), (5, RD80), (6, RD96), (7, RD112), (8, RD128), (16, RD256)]"

lemma cmd_index_bound: "cmd_index c < 2 ^ cmd_bits"
  by (cases c) (simp_all add: cmd_bits_def)

end
