(* ===== verification/Hmc.thy ===== *)
theory Hmc
  imports Dram_Timing Packets
begin

text \<open>
  The Hybrid Memory Cube as a standard for the DRAM device (\<^verbatim>\<open>src/src/ramulator/HMC.h\<close>, \<^verbatim>\<open>HMC.cpp\<close>): its
  commands and states, the tables of organisations and speeds, the prerequisites of commands, their effect on the state and
  the timing constraints between them.  The theory shows that it meets the interface of \<open>Dram_Timing\<close>, so that no
  vault ever issues a command before the constraints of the table allow it.
\<close>

subsection \<open>Enumerations\<close>

datatype HmcCommand = ACT | PRE | PREA | RD | WR | RDA | WRA | REF | PDE | PDX | SRE | SRX

datatype HmcState = Opened | Closed | PowerUp | ActPowerDown | PrePowerDown | SelfRefresh | StateMAX

definition Vault :: nat where [simp]: "Vault = 0"
definition BankGroup :: nat where [simp]: "BankGroup = 1"
definition Bank :: nat where [simp]: "Bank = 2"
definition Row :: nat where [simp]: "Row = 3"
definition Column :: nat where [simp]: "Column = 4"
definition LevelMAX :: nat where [simp]: "LevelMAX = 5"

primrec hmc_scope :: "HmcCommand \<Rightarrow> nat" where
  "hmc_scope ACT = Row" | "hmc_scope PRE = Bank" | "hmc_scope PREA = Vault"
| "hmc_scope RD = Column" | "hmc_scope WR = Column" | "hmc_scope RDA = Column" | "hmc_scope WRA = Column"
| "hmc_scope REF = Vault" | "hmc_scope PDE = Vault" | "hmc_scope PDX = Vault" | "hmc_scope SRE = Vault" | "hmc_scope SRX = Vault"

definition hmc_is_opening :: "HmcCommand \<Rightarrow> bool" where
  "hmc_is_opening cmd \<longleftrightarrow> cmd = ACT"

definition hmc_is_accessing :: "HmcCommand \<Rightarrow> bool" where
  "hmc_is_accessing cmd \<longleftrightarrow> cmd = RD \<or> cmd = WR \<or> cmd = RDA \<or> cmd = WRA"

definition hmc_is_closing :: "HmcCommand \<Rightarrow> bool" where
  "hmc_is_closing cmd \<longleftrightarrow> cmd = RDA \<or> cmd = WRA \<or> cmd = PRE \<or> cmd = PREA"

definition hmc_is_refreshing :: "HmcCommand \<Rightarrow> bool" where
  "hmc_is_refreshing cmd \<longleftrightarrow> cmd = REF"

definition hmc_start :: "nat \<Rightarrow> HmcState" where
  "hmc_start level = [PowerUp, StateMAX, Closed, Closed, StateMAX] ! level"

text \<open>The array has fewer initialisers than types of requests; the rest is the first enumerator.\<close>
primrec hmc_translate :: "ReqType \<Rightarrow> HmcCommand" where
  "hmc_translate READ = RD" | "hmc_translate WRITE = WR" | "hmc_translate REFRESH = REF"
| "hmc_translate POWERDOWN = PDE" | "hmc_translate SELFREFRESH = SRE"
| "hmc_translate EXTENSION = ACT" | "hmc_translate INSTRUCTION = ACT"

subsection \<open>Organisations and speeds\<close>

datatype Org = HMC_4GB | HMC_8GB | HMC_4GB_column1024 | HMC_4GB_bank16 | HMC_4GB_bank32 | HMC_4GB_bank64 | HMC_4GB_bank128
  | HMC_4GB_bank256 | HMC_4GB_va64 | HMC_4GB_va128 | HMC_4GB_va256 | HMC_4GB_va512 | HMC_4GB_va1024

record OrgEntry =
  org_size :: int
  org_dq :: int
  org_counts :: "nat list"

primrec org_table :: "Org \<Rightarrow> OrgEntry" where
  "org_table HMC_4GB = \<lparr>org_size = 32 * 2 ^ 10, org_dq = 32, org_counts = [32, 4, 2, 2 ^ 16, 2 ^ 6]\<rparr>"
| "org_table HMC_8GB = \<lparr>org_size = 32 * 2 ^ 10, org_dq = 32, org_counts = [32, 8, 2, 2 ^ 16, 2 ^ 6]\<rparr>"
| "org_table HMC_4GB_column1024 = \<lparr>org_size = 32 * 2 ^ 10, org_dq = 32, org_counts = [32, 4, 2, 2 ^ 12, 2 ^ 10]\<rparr>"
| "org_table HMC_4GB_bank16 = \<lparr>org_size = 32 * 2 ^ 10, org_dq = 32, org_counts = [32, 4, 4, 2 ^ 15, 2 ^ 6]\<rparr>"
| "org_table HMC_4GB_bank32 = \<lparr>org_size = 32 * 2 ^ 10, org_dq = 32, org_counts = [32, 4, 8, 2 ^ 14, 2 ^ 6]\<rparr>"
| "org_table HMC_4GB_bank64 = \<lparr>org_size = 32 * 2 ^ 10, org_dq = 32, org_counts = [32, 4, 16, 2 ^ 13, 2 ^ 6]\<rparr>"
| "org_table HMC_4GB_bank128 = \<lparr>org_size = 32 * 2 ^ 10, org_dq = 32, org_counts = [32, 4, 32, 2 ^ 12, 2 ^ 6]\<rparr>"
| "org_table HMC_4GB_bank256 = \<lparr>org_size = 32 * 2 ^ 10, org_dq = 32, org_counts = [32, 4, 64, 2 ^ 11, 2 ^ 6]\<rparr>"
| "org_table HMC_4GB_va64 = \<lparr>org_size = 32 * 2 ^ 10, org_dq = 32, org_counts = [64, 4, 2, 2 ^ 15, 2 ^ 6]\<rparr>"
| "org_table HMC_4GB_va128 = \<lparr>org_size = 32 * 2 ^ 10, org_dq = 32, org_counts = [128, 4, 2, 2 ^ 14, 2 ^ 6]\<rparr>"
| "org_table HMC_4GB_va256 = \<lparr>org_size = 32 * 2 ^ 10, org_dq = 32, org_counts = [256, 4, 2, 2 ^ 13, 2 ^ 6]\<rparr>"
| "org_table HMC_4GB_va512 = \<lparr>org_size = 32 * 2 ^ 10, org_dq = 32, org_counts = [512, 4, 2, 2 ^ 12, 2 ^ 6]\<rparr>"
| "org_table HMC_4GB_va1024 = \<lparr>org_size = 32 * 2 ^ 10, org_dq = 32, org_counts = [1024, 4, 2, 2 ^ 11, 2 ^ 6]\<rparr>"

datatype Speed = HMC_2500 | HMC_2500_unlimit_bandwidth

record SpeedEntry =
  rate :: int
  freq :: rat
  tCK :: rat
  nBL :: int
  nCCDS :: int
  nCCDL :: int
  nRTRS :: int
  nCL :: int
  nRCD :: int
  nRP :: int
  nCWL :: int
  nRAS :: int
  nRC :: int
  nRTP :: int
  nWTRS :: int
  nWTRL :: int
  nWR :: int
  nRRDS :: int
  nRRDL :: int
  nFAW :: int
  nRFC :: int
  nREFI :: int
  nPD :: int
  nXP :: int
  nXPDLL :: int
  nCKESR :: int
  nXS :: int
  nXSDLL :: int

primrec speed_table :: "Speed \<Rightarrow> SpeedEntry" where
  "speed_table HMC_2500 =
     \<lparr>rate = 2500, freq = 1250, tCK = 4 / 5, nBL = 4, nCCDS = 4, nCCDL = 6, nRTRS = 2, nCL = 17, nRCD = 17, nRP = 17, nCWL = 13,
      nRAS = 34, nRC = 51, nRTP = 9, nWTRS = 3, nWTRL = 9, nWR = 19, nRRDS = 7, nRRDL = 8, nFAW = 17, nRFC = 200, nREFI = 9750,
      nPD = 6, nXP = 8, nXPDLL = 0, nCKESR = 7, nXS = 0, nXSDLL = 0\<rparr>"
| "speed_table HMC_2500_unlimit_bandwidth =
     \<lparr>rate = 2500, freq = 1250, tCK = 4 / 5, nBL = 0, nCCDS = 1, nCCDL = 1, nRTRS = 2, nCL = 17, nRCD = 17, nRP = 17, nCWL = 13,
      nRAS = 34, nRC = 51, nRTP = 9, nWTRS = 3, nWTRL = 9, nWR = 19, nRRDS = 7, nRRDL = 8, nFAW = 17, nRFC = 200, nREFI = 9750,
      nPD = 6, nXP = 8, nXPDLL = 0, nCKESR = 7, nXS = 0, nXSDLL = 0\<rparr>"

datatype MaxBlock = HMC_32B | HMC_64B | HMC_128B | HMC_256B

text \<open>The largest block and the bits of its flit number.\<close>
primrec maxblock_table :: "MaxBlock \<Rightarrow> int \<times> int" where
  "maxblock_table HMC_32B = (32, 5)" | "maxblock_table HMC_64B = (64, 6)"
| "maxblock_table HMC_128B = (128, 7)" | "maxblock_table HMC_256B = (256, 8)"

datatype LinkWidth = HMC_Full_Width | HMC_Half_Width | HMC_Quarter_Width

primrec link_width_table :: "LinkWidth \<Rightarrow> int" where
  "link_width_table HMC_Full_Width = 16" | "link_width_table HMC_Half_Width = 8" | "link_width_table HMC_Quarter_Width = 4"

datatype LaneSpeed = HMC_12_5_Gbps | HMC_15_Gbps | HMC_25_Gbps | HMC_28_Gbps | HMC_30_Gbps

primrec lane_speed_table :: "LaneSpeed \<Rightarrow> rat" where
  "lane_speed_table HMC_12_5_Gbps = 25 / 2" | "lane_speed_table HMC_15_Gbps = 15" | "lane_speed_table HMC_25_Gbps = 25"
| "lane_speed_table HMC_28_Gbps = 28" | "lane_speed_table HMC_30_Gbps = 30"

text \<open>A look-up of a name that is not in the map inserts the first enumerator and returns it.\<close>
definition org_map :: "string \<Rightarrow> Org" where
  "org_map s = (case map_of
     [(''HMC_4GB'', HMC_4GB), (''HMC_8GB'', HMC_8GB), (''HMC_4GB_column1024'', HMC_4GB_column1024),
      (''HMC_4GB_bank16'', HMC_4GB_bank16), (''HMC_4GB_bank32'', HMC_4GB_bank32), (''HMC_4GB_bank64'', HMC_4GB_bank64),
      (''HMC_4GB_bank128'', HMC_4GB_bank128), (''HMC_4GB_bank256'', HMC_4GB_bank256), (''HMC_4GB_va64'', HMC_4GB_va64),
      (''HMC_4GB_va128'', HMC_4GB_va128), (''HMC_4GB_va256'', HMC_4GB_va256), (''HMC_4GB_va512'', HMC_4GB_va512),
      (''HMC_4GB_va1024'', HMC_4GB_va1024)] s of None \<Rightarrow> HMC_4GB | Some x \<Rightarrow> x)"

definition speed_map :: "string \<Rightarrow> Speed" where
  "speed_map s = (case map_of [(''HMC_2500'', HMC_2500), (''HMC_2500_unlimit_bandwidth'', HMC_2500_unlimit_bandwidth)] s
     of None \<Rightarrow> HMC_2500 | Some x \<Rightarrow> x)"

definition maxblock_map :: "string \<Rightarrow> MaxBlock" where
  "maxblock_map s = (case map_of [(''HMC_32B'', HMC_32B), (''HMC_64B'', HMC_64B), (''HMC_128B'', HMC_128B), (''HMC_256B'', HMC_256B)] s
     of None \<Rightarrow> HMC_32B | Some x \<Rightarrow> x)"

definition linkwidth_map :: "string \<Rightarrow> LinkWidth" where
  "linkwidth_map s = (case map_of [(''HMC_Full_Width'', HMC_Full_Width), (''HMC_Half_Width'', HMC_Half_Width),
     (''HMC_Quarter_Width'', HMC_Quarter_Width)] s of None \<Rightarrow> HMC_Full_Width | Some x \<Rightarrow> x)"

definition lanespeed_map :: "string \<Rightarrow> LaneSpeed" where
  "lanespeed_map s = (case map_of [(''HMC_12.5_Gbps'', HMC_12_5_Gbps), (''HMC_15_Gbps'', HMC_15_Gbps), (''HMC_25_Gbps'', HMC_25_Gbps),
     (''HMC_28_Gbps'', HMC_28_Gbps), (''HMC_30_Gbps'', HMC_30_Gbps)] s of None \<Rightarrow> HMC_12_5_Gbps | Some x \<Rightarrow> x)"

subsection \<open>Prerequisites\<close>

type_synonym hmc_node = "(HmcCommand, HmcState) DRAM"

definition vault_access_prereq :: "hmc_node \<Rightarrow> HmcCommand \<Rightarrow> int \<Rightarrow> HmcCommand prerequisite option" where
  "vault_access_prereq n cmd i = (case d_state (d_info n) of
     PowerUp \<Rightarrow> Some NoPrereq | ActPowerDown \<Rightarrow> Some (Need PDX) | PrePowerDown \<Rightarrow> Some (Need PDX)
   | SelfRefresh \<Rightarrow> Some (Need SRX) | _ \<Rightarrow> None)"

definition bank_access_prereq :: "hmc_node \<Rightarrow> HmcCommand \<Rightarrow> int \<Rightarrow> HmcCommand prerequisite option" where
  "bank_access_prereq n cmd i = (case d_state (d_info n) of
     Closed \<Rightarrow> Some (Need ACT)
   | Opened \<Rightarrow> Some (Need (if row_state (d_info n) i \<noteq> None then cmd else PRE))
   | _ \<Rightarrow> None)"

definition all_banks_closed :: "hmc_node \<Rightarrow> bool" where
  "all_banks_closed n \<longleftrightarrow> (\<forall>bg \<in> set (d_children n). \<forall>bank \<in> set (d_children bg). d_state (d_info bank) = Closed)"

definition vault_ref_prereq :: "hmc_node \<Rightarrow> HmcCommand \<Rightarrow> int \<Rightarrow> HmcCommand prerequisite option" where
  "vault_ref_prereq n cmd i = Some (Need (if all_banks_closed n then REF else PREA))"

definition vault_pd_prereq :: "hmc_node \<Rightarrow> HmcCommand \<Rightarrow> int \<Rightarrow> HmcCommand prerequisite option" where
  "vault_pd_prereq n cmd i = (case d_state (d_info n) of
     PowerUp \<Rightarrow> Some (Need PDE) | ActPowerDown \<Rightarrow> Some (Need PDE) | PrePowerDown \<Rightarrow> Some (Need PDE)
   | SelfRefresh \<Rightarrow> Some (Need SRX) | _ \<Rightarrow> None)"

definition vault_sr_prereq :: "hmc_node \<Rightarrow> HmcCommand \<Rightarrow> int \<Rightarrow> HmcCommand prerequisite option" where
  "vault_sr_prereq n cmd i = (case d_state (d_info n) of
     PowerUp \<Rightarrow> Some (Need SRE) | ActPowerDown \<Rightarrow> Some (Need PDX) | PrePowerDown \<Rightarrow> Some (Need PDX)
   | SelfRefresh \<Rightarrow> Some (Need SRE) | _ \<Rightarrow> None)"

definition hmc_prereq :: "nat \<Rightarrow> HmcCommand \<Rightarrow> (hmc_node \<Rightarrow> HmcCommand \<Rightarrow> int \<Rightarrow> HmcCommand prerequisite option) option" where
  "hmc_prereq level cmd =
     (if level = Vault then (case cmd of
        RD \<Rightarrow> Some vault_access_prereq | WR \<Rightarrow> Some vault_access_prereq | REF \<Rightarrow> Some vault_ref_prereq
      | PDE \<Rightarrow> Some vault_pd_prereq | SRE \<Rightarrow> Some vault_sr_prereq | _ \<Rightarrow> None)
      else if level = Bank then (case cmd of RD \<Rightarrow> Some bank_access_prereq | WR \<Rightarrow> Some bank_access_prereq | _ \<Rightarrow> None)
      else None)"

definition bank_rowhit :: "hmc_node \<Rightarrow> HmcCommand \<Rightarrow> int \<Rightarrow> bool option" where
  "bank_rowhit n cmd i = (case d_state (d_info n) of
     Closed \<Rightarrow> Some False | Opened \<Rightarrow> Some (row_state (d_info n) i \<noteq> None) | _ \<Rightarrow> None)"

definition hmc_rowhit :: "nat \<Rightarrow> HmcCommand \<Rightarrow> (hmc_node \<Rightarrow> HmcCommand \<Rightarrow> int \<Rightarrow> bool option) option" where
  "hmc_rowhit level cmd = (if level = Bank \<and> (cmd = RD \<or> cmd = WR) then Some bank_rowhit else None)"

definition bank_rowopen :: "hmc_node \<Rightarrow> HmcCommand \<Rightarrow> int \<Rightarrow> bool option" where
  "bank_rowopen n cmd i = (case d_state (d_info n) of Closed \<Rightarrow> Some False | Opened \<Rightarrow> Some True | _ \<Rightarrow> None)"

definition hmc_rowopen :: "nat \<Rightarrow> HmcCommand \<Rightarrow> (hmc_node \<Rightarrow> HmcCommand \<Rightarrow> int \<Rightarrow> bool option) option" where
  "hmc_rowopen level cmd = (if level = Bank \<and> (cmd = RD \<or> cmd = WR) then Some bank_rowopen else None)"

subsection \<open>Effects on the state\<close>

definition set_node :: "HmcState \<Rightarrow> (int \<Rightarrow> HmcState option) \<Rightarrow> hmc_node \<Rightarrow> hmc_node" where
  "set_node s rows n = DRAM (d_info n\<lparr>d_state := s, row_state := rows\<rparr>) (d_children n)"

definition open_row_lambda :: "hmc_node \<Rightarrow> int \<Rightarrow> hmc_node" where
  "open_row_lambda n i = set_node Opened ((row_state (d_info n))(i \<mapsto> Opened)) n"

definition close_bank_lambda :: "hmc_node \<Rightarrow> int \<Rightarrow> hmc_node" where
  "close_bank_lambda n i = set_node Closed (\<lambda>_. None) n"

definition prea_lambda :: "hmc_node \<Rightarrow> int \<Rightarrow> hmc_node" where
  "prea_lambda n i = DRAM (d_info n)
     (map (\<lambda>bg. DRAM (d_info bg) (map (\<lambda>bank. set_node Closed (\<lambda>_. None) bank) (d_children bg))) (d_children n))"

definition set_node_state :: "HmcState \<Rightarrow> hmc_node \<Rightarrow> hmc_node" where
  "set_node_state s n = DRAM (d_info n\<lparr>d_state := s\<rparr>) (d_children n)"

definition pde_lambda :: "hmc_node \<Rightarrow> int \<Rightarrow> hmc_node" where
  "pde_lambda n i = set_node_state (if all_banks_closed n then PrePowerDown else ActPowerDown) n"

definition hmc_lambda :: "nat \<Rightarrow> HmcCommand \<Rightarrow> (hmc_node \<Rightarrow> int \<Rightarrow> hmc_node) option" where
  "hmc_lambda level cmd =
     (if level = Bank then (case cmd of
        ACT \<Rightarrow> Some open_row_lambda | PRE \<Rightarrow> Some close_bank_lambda | RD \<Rightarrow> Some (\<lambda>n i. n) | WR \<Rightarrow> Some (\<lambda>n i. n)
      | RDA \<Rightarrow> Some close_bank_lambda | WRA \<Rightarrow> Some close_bank_lambda | _ \<Rightarrow> None)
      else if level = Vault then (case cmd of
        PREA \<Rightarrow> Some prea_lambda | REF \<Rightarrow> Some (\<lambda>n i. n) | PDE \<Rightarrow> Some pde_lambda | PDX \<Rightarrow> Some (\<lambda>n i. set_node_state PowerUp n)
      | SRE \<Rightarrow> Some (\<lambda>n i. set_node_state SelfRefresh n) | SRX \<Rightarrow> Some (\<lambda>n i. set_node_state PowerUp n) | _ \<Rightarrow> None)
      else None)"

subsection \<open>Timing\<close>

text \<open>The entries in the order the source pushes them, each with the command whose list it goes to.\<close>
definition te :: "HmcCommand \<Rightarrow> HmcCommand \<Rightarrow> nat \<Rightarrow> int \<Rightarrow> HmcCommand \<times> HmcCommand TimingEntry" where
  "te prev cmd n v = (prev, \<lparr>te_cmd = cmd, te_dist = n, te_val = v, te_sibling = False\<rparr>)"

definition vault_cas_timing :: "SpeedEntry \<Rightarrow> (HmcCommand \<times> HmcCommand TimingEntry) list" where
  "vault_cas_timing s =
     [te RD RD 1 (nBL s), te RD RDA 1 (nBL s), te RDA RD 1 (nBL s), te RDA RDA 1 (nBL s),
      te WR WR 1 (nBL s), te WR WRA 1 (nBL s), te WRA WR 1 (nBL s), te WRA WRA 1 (nBL s),
      te RD RD 1 (nCCDS s), te RD RDA 1 (nCCDS s), te RDA RD 1 (nCCDS s), te RDA RDA 1 (nCCDS s),
      te WR WR 1 (nCCDS s), te WR WRA 1 (nCCDS s), te WRA WR 1 (nCCDS s), te WRA WRA 1 (nCCDS s),
      te RD WR 1 (nCL s + nCCDS s + 2 - nCWL s), te RD WRA 1 (nCL s + nCCDS s + 2 - nCWL s),
      te RDA WR 1 (nCL s + nCCDS s + 2 - nCWL s), te RDA WRA 1 (nCL s + nCCDS s + 2 - nCWL s),
      te WR RD 1 (nCWL s + nBL s + nWTRS s), te WR RDA 1 (nCWL s + nBL s + nWTRS s),
      te WRA RD 1 (nCWL s + nBL s + nWTRS s), te WRA RDA 1 (nCWL s + nBL s + nWTRS s),
      te RD PREA 1 (nRTP s), te WR PREA 1 (nCWL s + nBL s + nWR s),
      te RD PDE 1 (nCL s + nBL s + 1), te RDA PDE 1 (nCL s + nBL s + 1),
      te WR PDE 1 (nCWL s + nBL s + nWR s), te WRA PDE 1 (nCWL s + nBL s + nWR s + 1),
      te PDX RD 1 (nXP s), te PDX RDA 1 (nXP s), te PDX WR 1 (nXP s), te PDX WRA 1 (nXP s)]"

definition vault_ras_timing :: "SpeedEntry \<Rightarrow> (HmcCommand \<times> HmcCommand TimingEntry) list" where
  "vault_ras_timing s =
     [te ACT ACT 1 (nRRDS s), te ACT ACT 4 (nFAW s), te ACT PREA 1 (nRAS s), te PREA ACT 1 (nRP s),
      te PRE REF 1 (nRP s), te PREA REF 1 (nRP s), te REF ACT 1 (nRFC s),
      te ACT PDE 1 1, te PDX ACT 1 (nXP s), te PDX PRE 1 (nXP s), te PDX PREA 1 (nXP s),
      te PRE SRE 1 (nRP s), te PREA SRE 1 (nRP s), te SRX ACT 1 (nXS s),
      te REF REF 1 (nRFC s),
      te REF PDE 1 1, te PDX REF 1 (nXP s),
      te SRX REF 1 (nXS s),
      te PDE PDX 1 (nPD s), te PDX PDE 1 (nXP s),
      te PDX SRE 1 (nXP s), te SRX PDE 1 (nXS s),
      te SRE SRX 1 (nCKESR s), te SRX SRE 1 (nXS s)]"

definition bankgroup_timing :: "SpeedEntry \<Rightarrow> (HmcCommand \<times> HmcCommand TimingEntry) list" where
  "bankgroup_timing s =
     [te RD RD 1 (nCCDL s), te RD RDA 1 (nCCDL s), te RDA RD 1 (nCCDL s), te RDA RDA 1 (nCCDL s),
      te WR WR 1 (nCCDL s), te WR WRA 1 (nCCDL s), te WRA WR 1 (nCCDL s), te WRA WRA 1 (nCCDL s),
      te WR RD 1 (nCWL s + nBL s + nWTRL s), te WR RDA 1 (nCWL s + nBL s + nWTRL s),
      te WRA RD 1 (nCWL s + nBL s + nWTRL s), te WRA RDA 1 (nCWL s + nBL s + nWTRL s),
      te ACT ACT 1 (nRRDL s)]"

definition bank_timing :: "SpeedEntry \<Rightarrow> (HmcCommand \<times> HmcCommand TimingEntry) list" where
  "bank_timing s =
     [te ACT RD 1 (nRCD s), te ACT RDA 1 (nRCD s), te ACT WR 1 (nRCD s), te ACT WRA 1 (nRCD s),
      te RD PRE 1 (nRTP s), te WR PRE 1 (nCWL s + nBL s + nWR s),
      te RDA ACT 1 (nRTP s + nRP s), te WRA ACT 1 (nCWL s + nBL s + nWR s + nRP s),
      te ACT ACT 1 (nRC s), te ACT PRE 1 (nRAS s), te PRE ACT 1 (nRP s)]"

definition level_timing :: "SpeedEntry \<Rightarrow> nat \<Rightarrow> (HmcCommand \<times> HmcCommand TimingEntry) list" where
  "level_timing s level =
     (if level = Vault then vault_cas_timing s @ vault_ras_timing s
      else if level = BankGroup then bankgroup_timing s
      else if level = Bank then bank_timing s
      else [])"

definition hmc_timing :: "SpeedEntry \<Rightarrow> nat \<Rightarrow> HmcCommand \<Rightarrow> HmcCommand TimingEntry list" where
  "hmc_timing s level cmd = map snd (filter (\<lambda>(c, t). c = cmd) (level_timing s level))"

subsection \<open>The standard\<close>

record HMC =
  org_entry :: OrgEntry
  speed_entry :: SpeedEntry
  read_latency :: int
  maxblock_entry :: "int \<times> int"
  link_width :: int
  lane_speed :: rat
  source_links :: int
  hmc_links :: int
  payload_flits :: int
  hmc_burst_count :: int

definition prefetch_size :: int where "prefetch_size = 8"
definition channel_width :: int where "channel_width = 32"
definition bytes_per_flit :: int where "bytes_per_flit = 16"
definition flit_bits :: int where "flit_bits = 128"

definition new_HMC :: "Org \<Rightarrow> Speed \<Rightarrow> MaxBlock \<Rightarrow> LinkWidth \<Rightarrow> LaneSpeed \<Rightarrow> int \<Rightarrow> int \<Rightarrow> int \<Rightarrow> HMC" where
  "new_HMC org speed maxblock linkwidth lanespeed src_links links flits =
     \<lparr>org_entry = org_table org, speed_entry = speed_table speed,
      read_latency = nCL (speed_table speed) + nBL (speed_table speed), maxblock_entry = maxblock_table maxblock,
      link_width = link_width_table linkwidth, lane_speed = lane_speed_table lanespeed, source_links = src_links,
      hmc_links = links, payload_flits = flits,
      hmc_burst_count = flits div ((prefetch_size * channel_width div 8) div bytes_per_flit)\<rparr>"

definition new_HMC_named :: "string \<Rightarrow> string \<Rightarrow> string \<Rightarrow> string \<Rightarrow> string \<Rightarrow> int \<Rightarrow> int \<Rightarrow> int \<Rightarrow> HMC" where
  "new_HMC_named org speed maxblock linkwidth lanespeed =
     new_HMC (org_map org) (speed_map speed) (maxblock_map maxblock) (linkwidth_map linkwidth) (lanespeed_map lanespeed)"

text \<open>What the device reads of the standard depends on the organisation and the speed only.\<close>
definition hmc_standard :: "Org \<Rightarrow> Speed \<Rightarrow> (HmcCommand, HmcState) standard" where
  "hmc_standard org speed =
     \<lparr>start = hmc_start, prereq = hmc_prereq, rowhit = hmc_rowhit, rowopen = hmc_rowopen, lambda = hmc_lambda,
      timing = hmc_timing (speed_table speed), scope = hmc_scope, org_count = (\<lambda>l. org_counts (org_table org) ! l),
      level_Bank = Bank, level_Row = Row, is_opening = hmc_is_opening, is_refreshing = hmc_is_refreshing\<rparr>"

lemmas hmc_standard_simps [simp] = hmc_standard_def [THEN arg_cong, of start] hmc_standard_def [THEN arg_cong, of prereq]
  hmc_standard_def [THEN arg_cong, of rowhit] hmc_standard_def [THEN arg_cong, of rowopen] hmc_standard_def [THEN arg_cong, of lambda]
  hmc_standard_def [THEN arg_cong, of timing] hmc_standard_def [THEN arg_cong, of scope] hmc_standard_def [THEN arg_cong, of org_count]
  hmc_standard_def [THEN arg_cong, of level_Bank] hmc_standard_def [THEN arg_cong, of level_Row]
  hmc_standard_def [THEN arg_cong, of is_opening] hmc_standard_def [THEN arg_cong, of is_refreshing]

subsection \<open>The standard meets the interface of the device\<close>

lemma level_timing_entries:
  assumes "(c, t) \<in> set (level_timing (speed_table sp) l)"
  shows "1 \<le> te_dist t \<and> 0 \<le> te_val t \<and> te_val t \<le> 200 \<and> \<not> te_sibling t \<and> (c \<noteq> ACT \<longrightarrow> te_dist t = 1)"
proof -
  have v: "\<forall>(c, t) \<in> set (vault_cas_timing (speed_table sp)). 1 \<le> te_dist t \<and> 0 \<le> te_val t \<and> te_val t \<le> 200 \<and> \<not> te_sibling t \<and> (c \<noteq> ACT \<longrightarrow> te_dist t = 1)"
    by (cases sp) (simp_all add: vault_cas_timing_def te_def)
  have w: "\<forall>(c, t) \<in> set (vault_ras_timing (speed_table sp)). 1 \<le> te_dist t \<and> 0 \<le> te_val t \<and> te_val t \<le> 200 \<and> \<not> te_sibling t \<and> (c \<noteq> ACT \<longrightarrow> te_dist t = 1)"
    by (cases sp) (simp_all add: vault_ras_timing_def te_def)
  have g: "\<forall>(c, t) \<in> set (bankgroup_timing (speed_table sp)). 1 \<le> te_dist t \<and> 0 \<le> te_val t \<and> te_val t \<le> 200 \<and> \<not> te_sibling t \<and> (c \<noteq> ACT \<longrightarrow> te_dist t = 1)"
    by (cases sp) (simp_all add: bankgroup_timing_def te_def)
  have b: "\<forall>(c, t) \<in> set (bank_timing (speed_table sp)). 1 \<le> te_dist t \<and> 0 \<le> te_val t \<and> te_val t \<le> 200 \<and> \<not> te_sibling t \<and> (c \<noteq> ACT \<longrightarrow> te_dist t = 1)"
    by (cases sp) (simp_all add: bank_timing_def te_def)
  show ?thesis using assms v w g b by (auto simp: level_timing_def split: if_splits)
qed

lemma hmc_timing_entries:
  assumes "t \<in> set (hmc_timing (speed_table sp) l c)"
  shows "1 \<le> te_dist t" "0 \<le> te_val t" "te_val t \<le> 200" "\<not> te_sibling t" "c \<noteq> ACT \<Longrightarrow> te_dist t = 1"
proof -
  have "(c, t) \<in> set (level_timing (speed_table sp) l)" using assms by (auto simp: hmc_timing_def)
  from level_timing_entries [OF this]
  show "1 \<le> te_dist t" "0 \<le> te_val t" "te_val t \<le> 200" "\<not> te_sibling t" "c \<noteq> ACT \<Longrightarrow> te_dist t = 1" by simp_all
qed

lemma same_timing_set_node [simp]: "same_timing (set_node s rows n) n"
  by (rule same_timingI) (simp_all add: set_node_def timing_view_def)

lemma same_timing_set_state [simp]: "same_timing (set_node_state s n) n"
  by (rule same_timingI) (simp_all add: set_node_state_def timing_view_def)

lemma same_timing_prea [simp]: "same_timing (prea_lambda n i) n"
proof (rule same_timingI)
  fix j assume "j < length (d_children (prea_lambda n i))"
  then show "same_timing (d_children (prea_lambda n i) ! j) (d_children n ! j)"
    by - (rule same_timingI, simp_all add: prea_lambda_def timing_view_def)
qed (simp add: prea_lambda_def timing_view_def)

interpretation hmc: dram_standard "hmc_standard org speed" for org speed
proof unfold_locales
  show "1 \<le> te_dist t \<and> 0 \<le> te_val t" if "t \<in> set (timing (hmc_standard org speed) l c)" for t l c
    using that hmc_timing_entries by simp
  show "te_dist t = 1" if "t \<in> set (timing (hmc_standard org speed) l c)" "te_sibling t" for t l c
    using that hmc_timing_entries(4) by auto
  show "te_dist t = 1" if "t \<in> set (timing (hmc_standard org speed) l c)" "is_refreshing (hmc_standard org speed) c" for t l c
    using that hmc_timing_entries(5) by (auto simp: hmc_is_refreshing_def)
  show "same_timing (f u i) u" if "lambda (hmc_standard org speed) l c = Some f" for l c f u i
    using that by (auto simp: hmc_lambda_def open_row_lambda_def close_bank_lambda_def pde_lambda_def split: if_splits HmcCommand.splits)
qed

end
