(* ===== verification/Row_Table.thy ===== *)
theory Row_Table
  imports Hmc "HOL-Library.List_Lexorder" "HOL-Library.AList"
begin

text \<open>
  The table of open rows that a controller keeps beside the device (\<^verbatim>\<open>RowTable\<close> in
  \<^verbatim>\<open>src/src/ramulator/Scheduler.h\<close>).  The \<^verbatim>\<open>std::map\<close> is a list of pairs in the order of the keys, which are
  the vault, bank group and bank of a row.
\<close>

record RowEntry =
  re_row :: int
  re_hits :: int
  re_timestamp :: int

type_synonym row_table = "(int list \<times> RowEntry) list"

text \<open>\<^verbatim>\<open>map::insert\<close> keeps an entry that is there.\<close>
definition table_insert :: "int list \<Rightarrow> RowEntry \<Rightarrow> row_table \<Rightarrow> row_table" where
  "table_insert k e tbl = (if map_of tbl k = None then insort_key fst (k, e) tbl else tbl)"

text \<open>\<^verbatim>\<open>std::equal\<close> on the first \<open>n\<close> elements; reading past the end aborts.\<close>
fun equal_prefix :: "nat \<Rightarrow> int list \<Rightarrow> int list \<Rightarrow> bool option" where
  "equal_prefix 0 xs ys = Some True"
| "equal_prefix (Suc n) (x # xs) (y # ys) = (if x = y then equal_prefix n xs ys else Some False)"
| "equal_prefix (Suc n) xs ys = None"

text \<open>The loop that removes the entries of the closed rows.\<close>
primrec erase_scope :: "nat \<Rightarrow> int list \<Rightarrow> row_table \<Rightarrow> row_table option" where
  "erase_scope n addr [] = Some []"
| "erase_scope n addr (kv # tbl) = do {
     eq \<leftarrow> equal_prefix n addr (fst kv);
     rest \<leftarrow> erase_scope n addr tbl;
     Some (if eq then rest else kv # rest)
   }"

definition rt_update :: "HmcCommand \<Rightarrow> int list \<Rightarrow> int \<Rightarrow> row_table \<Rightarrow> row_table option" where
  "rt_update cmd addr clk tbl = do {
     let rowgroup = take Row addr;
     row \<leftarrow> rd_addr addr Row;
     let tbl1 = (if hmc_is_opening cmd then table_insert rowgroup \<lparr>re_row = row, re_hits = 0, re_timestamp = clk\<rparr> tbl else tbl);
     tbl2 \<leftarrow> (if hmc_is_accessing cmd then do {
                e \<leftarrow> map_of tbl1 rowgroup;
                _ \<leftarrow> assert_that (re_row e = row);
                Some (AList.update rowgroup (e\<lparr>re_hits := re_hits e + 1, re_timestamp := clk\<rparr>) tbl1)
              } else Some tbl1);
     if hmc_is_closing cmd then do {
       tbl3 \<leftarrow> erase_scope (Suc (hmc_scope cmd)) addr tbl2;
       _ \<leftarrow> assert_that (length tbl3 < length tbl2);
       Some tbl3
     } else Some tbl2
   }"

text \<open>\<^verbatim>\<open>table[rowgroup]\<close> inserts a zero entry for a row group that is not there.\<close>
definition get_hits :: "int list \<Rightarrow> row_table \<Rightarrow> (int \<times> row_table) option" where
  "get_hits addr tbl = do {
     let rowgroup = take Row addr;
     row \<leftarrow> rd_addr addr Row;
     let itr = map_of tbl rowgroup;
     let tbl1 = table_insert rowgroup \<lparr>re_row = 0, re_hits = 0, re_timestamp = 0\<rparr> tbl;
     entry \<leftarrow> map_of tbl1 rowgroup;
     Some (if itr = None \<or> re_row entry \<noteq> row then 0 else re_hits entry, tbl1)
   }"

subsection \<open>The table as a map\<close>

lemma map_of_insort:
  "k \<notin> fst ` set xs \<Longrightarrow> map_of (insort_key fst (k, e) xs) = (map_of xs)(k \<mapsto> e)"
  by (induction xs) auto

lemma set_insort_fst: "fst ` set (insort_key fst (k, e) xs) = insert k (fst ` set xs)"
  by (simp add: set_insort_key)

lemma distinct_insort_fst:
  "distinct (map fst xs) \<Longrightarrow> k \<notin> fst ` set xs \<Longrightarrow> distinct (map fst (insort_key fst (k, e) xs))"
  by (induction xs) (auto simp: set_insort_key)

lemma table_insert_map:
  "map_of (table_insert k e tbl) = (if map_of tbl k = None then (map_of tbl)(k \<mapsto> e) else map_of tbl)"
  using map_of_insort [of k tbl e] by (simp add: table_insert_def map_of_eq_None_iff)

lemma table_insert_distinct: "distinct (map fst tbl) \<Longrightarrow> distinct (map fst (table_insert k e tbl))"
  by (simp add: table_insert_def map_of_eq_None_iff distinct_insort_fst)

lemma equal_prefix_take:
  "n \<le> length xs \<Longrightarrow> n \<le> length ys \<Longrightarrow> equal_prefix n xs ys = Some (take n xs = take n ys)"
  by (induction n xs ys rule: equal_prefix.induct) auto

lemma erase_scope_filter:
  assumes "n \<le> length addr" and "\<forall>kv \<in> set tbl. n \<le> length (fst kv)"
  shows "erase_scope n addr tbl = Some (filter (\<lambda>kv. take n (fst kv) \<noteq> take n addr) tbl)"
  using assms by (induction tbl) (auto simp: equal_prefix_take)

lemma map_of_filter_fst: "map_of (filter (\<lambda>kv. P (fst kv)) tbl) k = (if P k then map_of tbl k else None)"
  by (induction tbl) auto

text \<open>A table that lists the open rows of banks: keys of three components, each once.\<close>
definition rowtable_ok :: "row_table \<Rightarrow> bool" where
  "rowtable_ok tbl \<longleftrightarrow> distinct (map fst tbl) \<and> (\<forall>k \<in> fst ` set tbl. length k = Row)"

lemma rt_update_open:
  assumes "rowtable_ok tbl" and "Row < length addr" and "map_of tbl (take Row addr) = None"
  shows "\<exists>tbl'. rt_update ACT addr clk tbl = Some tbl' \<and> rowtable_ok tbl' \<and>
    map_of tbl' = (map_of tbl)(take Row addr \<mapsto> \<lparr>re_row = addr ! Row, re_hits = 0, re_timestamp = clk\<rparr>)"
  using assms table_insert_distinct [of tbl "take Row addr"]
  by (auto simp: rt_update_def rd_addr_def hmc_is_opening_def hmc_is_accessing_def hmc_is_closing_def table_insert_map
      rowtable_ok_def) (auto simp: table_insert_def set_insort_key)

lemma rt_update_access:
  assumes "rowtable_ok tbl" and "Row < length addr" and "map_of tbl (take Row addr) = Some e" and "re_row e = addr ! Row"
    and "cmd = RD \<or> cmd = WR"
  shows "\<exists>tbl' e'. rt_update cmd addr clk tbl = Some tbl' \<and> rowtable_ok tbl' \<and>
    map_of tbl' = (map_of tbl)(take Row addr \<mapsto> e') \<and> re_row e' = re_row e"
proof -
  let ?e = "e\<lparr>re_hits := re_hits e + 1, re_timestamp := clk\<rparr>"
  have "rt_update cmd addr clk tbl = Some (AList.update (take Row addr) ?e tbl)"
    using assms by (auto simp: rt_update_def rd_addr_def hmc_is_opening_def hmc_is_accessing_def hmc_is_closing_def)
  moreover have "rowtable_ok (AList.update (take Row addr) ?e tbl)"
    unfolding rowtable_ok_def dom_update using assms(1,2) by (simp add: rowtable_ok_def distinct_update)
  ultimately show ?thesis by (auto simp: update_conv')
qed

lemma rt_update_close:
  assumes "rowtable_ok tbl" and "Row < length addr" and "cmd = PRE \<or> cmd = PREA"
    and "\<exists>k \<in> fst ` set tbl. take (Suc (hmc_scope cmd)) k = take (Suc (hmc_scope cmd)) addr"
  shows "\<exists>tbl'. rt_update cmd addr clk tbl = Some tbl' \<and> rowtable_ok tbl' \<and>
    (\<forall>k. map_of tbl' k = (if take (Suc (hmc_scope cmd)) k = take (Suc (hmc_scope cmd)) addr then None else map_of tbl k))"
proof -
  let ?n = "Suc (hmc_scope cmd)"
  let ?t = "filter (\<lambda>kv. take ?n (fst kv) \<noteq> take ?n addr) tbl"
  have n: "?n \<le> Row" using assms(3) by auto
  have e: "erase_scope ?n addr tbl = Some ?t"
    by (rule erase_scope_filter) (use assms(1,2) n in \<open>auto simp: rowtable_ok_def\<close>)
  have "length ?t < length tbl" using assms(4) by (auto intro!: length_filter_less)
  then have "rt_update cmd addr clk tbl = Some ?t"
    using assms(2,3) e by (auto simp: rt_update_def rd_addr_def hmc_is_opening_def hmc_is_accessing_def hmc_is_closing_def)
  moreover have "rowtable_ok ?t" using assms(1) by (auto simp: rowtable_ok_def distinct_map_filter)
  ultimately show ?thesis using map_of_filter_fst [of "\<lambda>k. take ?n k \<noteq> take ?n addr" tbl] by auto
qed

lemma rt_update_other:
  "Row < length addr \<Longrightarrow> cmd = REF \<or> cmd = PDE \<or> cmd = PDX \<or> cmd = SRE \<or> cmd = SRX \<Longrightarrow> rt_update cmd addr clk tbl = Some tbl"
  by (auto simp: rt_update_def rd_addr_def hmc_is_opening_def hmc_is_accessing_def hmc_is_closing_def)

text \<open>
  C35. Counting the hits of a closed bank breaks the table.  With the scheduling policy that caps row hits, \<open>get_hits\<close>
  is asked about requests whose bank is closed; it leaves an entry for row 0.  Activating the row of such a request keeps that
  entry, and reading the row then fails the assertion of \<open>update\<close> unless the row is row 0.
\<close>
theorem get_hits_breaks_table:
  assumes "Row < length addr" and "map_of tbl (take Row addr) = None" and "addr ! Row \<noteq> 0"
  shows "\<exists>tbl1 tbl2. get_hits addr tbl = Some (0, tbl1) \<and> rt_update ACT addr k tbl1 = Some tbl2 \<and> rt_update RD addr k' tbl2 = None"
  using assms by (auto simp: get_hits_def rt_update_def rd_addr_def table_insert_map hmc_is_opening_def hmc_is_accessing_def hmc_is_closing_def)

theorem get_hits_breaks_table_witness:
  "\<exists>tbl1 tbl2. get_hits [0, 1, 2, 5, 0] [] = Some (0, tbl1) \<and> rt_update ACT [0, 1, 2, 5, 0] 10 tbl1 = Some tbl2 \<and>
    rt_update RD [0, 1, 2, 5, 0] 30 tbl2 = None"
  using get_hits_breaks_table [of "[0, 1, 2, 5, 0]" "[]" 10 30] by simp

end
