(* ===== verification/Vault_Controller.thy ===== *)
theory Vault_Controller
  imports Row_Table
begin

text \<open>
  The controller of one vault (\<^verbatim>\<open>src/src/ramulator/HMC_Controller.h\<close>) with its request scheduler and row policy
  (\<^verbatim>\<open>Scheduler.h\<close>) and its refresh generator (\<^verbatim>\<open>Refresh.h\<close>, \<^verbatim>\<open>Refresh.cpp\<close>).  A list iterator is an index.
  The calls of \<^verbatim>\<open>send_to_pu\<close>, which leave the controller, are collected in \<open>to_pu\<close>, and the commands that
  \<^verbatim>\<open>print_cmd_trace\<close> prints in \<open>cmd_trace\<close>.  Power estimation, the trace file and the counters per core are left out; the totals of row hits, conflicts and misses are kept, because the
  tests that classify a request can fail.
\<close>

subsection \<open>State\<close>

datatype SchedType = FCFS | FRFCFS | FRFCFS_Cap | FRFCFS_PriorHit

datatype RowPolicyType = PolicyClosed | PolicyOpened | PolicyTimeout

datatype queue_id = ReadQ | WriteQ | OtherQ

record Controller =
  c_org :: Org
  c_speed :: Speed
  c_payload_flits :: int
  c_read_latency :: int
  c_burst_count :: int
  clk :: int
  channel :: hmc_node
  sched_type :: SchedType
  cap :: int
  policy_type :: RowPolicyType
  timeout :: int
  rowtable :: row_table
  refresh_clk :: int
  refreshed :: int
  readq :: "Request list"
  writeq :: "Request list"
  otherq :: "Request list"
  pending :: "Request list"
  write_mode :: bool
  no_DRAM_latency :: bool
  response_packets_buffer :: "Packet list"
  incoming_packets_buffer :: "int \<Rightarrow> Packet option"
  to_pu :: "Request list"
  pim_remote_packets_buffer :: "Packet list"
  max_pim_remote_packets_buffer_size :: nat
  ideal_localvault :: bool
  unset_addr :: int
  cmd_trace :: "(HmcCommand \<times> int list \<times> int) list"
  row_hits :: nat
  row_conflicts :: nat
  row_misses :: nat

abbreviation std :: "Controller \<Rightarrow> (HmcCommand, HmcState) standard" where
  "std c \<equiv> hmc_standard (c_org c) (c_speed c)"

definition queue_max :: nat where "queue_max = 32"

primrec queue :: "queue_id \<Rightarrow> Controller \<Rightarrow> Request list" where
  "queue ReadQ c = readq c" | "queue WriteQ c = writeq c" | "queue OtherQ c = otherq c"

primrec set_queue :: "queue_id \<Rightarrow> Request list \<Rightarrow> Controller \<Rightarrow> Controller" where
  "set_queue ReadQ q c = c\<lparr>readq := q\<rparr>" | "set_queue WriteQ q c = c\<lparr>writeq := q\<rparr>" | "set_queue OtherQ q c = c\<lparr>otherq := q\<rparr>"

text \<open>The controller of a vault, for a channel that has been given its identifier.\<close>
definition new_Controller :: "Org \<Rightarrow> Speed \<Rightarrow> int \<Rightarrow> bool \<Rightarrow> bool \<Rightarrow> nat \<Rightarrow> int \<Rightarrow> hmc_node \<Rightarrow> Controller" where
  "new_Controller org speed flits no_latency localvault rmab unset t = (let h = new_HMC org speed HMC_32B HMC_Full_Width HMC_12_5_Gbps 0 0 flits in
     \<lparr>c_org = org, c_speed = speed, c_payload_flits = flits, c_read_latency = read_latency h, c_burst_count = hmc_burst_count h,
      clk = 0, channel = t, sched_type = (if no_latency then FRFCFS else FRFCFS_PriorHit), cap = 16, policy_type = PolicyOpened, timeout = 50,
      rowtable = [], refresh_clk = 0, refreshed = 0, readq = [], writeq = [], otherq = [], pending = [], write_mode = False,
      no_DRAM_latency = no_latency, response_packets_buffer = [], incoming_packets_buffer = (\<lambda>_. None), to_pu = [],
      pim_remote_packets_buffer = [], max_pim_remote_packets_buffer_size = rmab, ideal_localvault = localvault, unset_addr = unset,
      cmd_trace = [], row_hits = 0, row_conflicts = 0, row_misses = 0\<rparr>)"

subsection \<open>Requests arriving\<close>

definition get_queue :: "ReqType \<Rightarrow> queue_id" where
  "get_queue t = (case t of READ \<Rightarrow> ReadQ | WRITE \<Rightarrow> WriteQ | _ \<Rightarrow> OtherQ)"

text \<open>\<open>enqueue\<close> also writes the request it is given a reference to.\<close>
definition enqueue :: "Request \<Rightarrow> Controller \<Rightarrow> bool \<times> Request \<times> Controller" where
  "enqueue r c = (let qid = get_queue (req_type r) in
     if queue_max = length (queue qid c) then (False, r, c)
     else let r1 = r\<lparr>arrive := clk c\<rparr>;
              c1 = set_queue qid (queue qid c @ [r1]) c in
       if req_type r1 = READ \<and> (\<exists>w \<in> set (writeq c1). req_addr r1 = req_addr w)
       then let r2 = r1\<lparr>depart := clk c + 1\<rparr> in
            (True, r2, c1\<lparr>pending := pending c1 @ [r2], readq := butlast (readq c1)\<rparr>)
       else (True, r1, c1))"

definition receive :: "Packet \<Rightarrow> Controller \<Rightarrow> (bool \<times> Controller) option" where
  "receive p c = do {
     _ \<leftarrow> assert_that (packet_type p = PREQUEST);
     r \<leftarrow> packet_req p;
     let r1 = r\<lparr>burst_count := c_burst_count c, transaction_bytes := c_payload_flits c * (flit_bits div 8)\<rparr>;
     let (ok, r2, c1) = enqueue r1 c;
     Some (if ok then (True, c1\<lparr>incoming_packets_buffer := (incoming_packets_buffer c1)(reqid r2 \<mapsto> p\<lparr>packet_req := Some r2\<rparr>)\<rparr>)
           else (False, c1))
   }"

definition can_receive :: "Packet \<Rightarrow> Controller \<Rightarrow> bool option" where
  "can_receive p c = do { r \<leftarrow> packet_req p; Some (queue_max \<noteq> length (queue (get_queue (req_type r)) c)) }"

definition receive_remote_request :: "Packet \<Rightarrow> Controller \<Rightarrow> (bool \<times> Controller) option" where
  "receive_remote_request p c = do {
     _ \<leftarrow> assert_that (packet_type p = PREQUEST);
     Some (if length (pim_remote_packets_buffer c) < max_pim_remote_packets_buffer_size c
           then (True, c\<lparr>pim_remote_packets_buffer := pim_remote_packets_buffer c @ [p]\<rparr>)
           else (False, c))
   }"

definition receive_pim_response :: "Packet \<Rightarrow> Controller \<Rightarrow> Controller option" where
  "receive_pim_response p c = do {
     _ \<leftarrow> assert_that (packet_type p = PRESPONSE);
     r \<leftarrow> packet_req p;
     Some (c\<lparr>to_pu := to_pu c @ [r]\<rparr>)
   }"

subsection \<open>Responses\<close>

definition form_response_packet :: "Request \<Rightarrow> Controller \<Rightarrow> (Packet \<times> Controller) option" where
  "form_response_packet r c = do {
     req_packet \<leftarrow> incoming_packets_buffer c (reqid r);
     cub \<leftarrow> CUB (header req_packet);
     tag \<leftarrow> TAG (header req_packet);
     slid \<leftarrow> tail_SLID (tail req_packet);
     let lng = (if req_type r = WRITE then 1 else 1 + c_payload_flits c);
     cmd \<leftarrow> CMD (header req_packet);
     p \<leftarrow> Packet_response PRESPONSE (field_value cub) (field_value tag) lng (field_value slid) (field_value cmd);
     let p1 = p\<lparr>packet_req := Some r\<rparr>;
     f1 \<leftarrow> CUB (header p1);
     _ \<leftarrow> assert_that (datafield_valid id f1);
     f2 \<leftarrow> TAG (header p1);
     _ \<leftarrow> assert_that (datafield_valid id f2);
     f3 \<leftarrow> SLID (header p1);
     _ \<leftarrow> assert_that (datafield_valid id f3);
     f4 \<leftarrow> CMD (header p1);
     _ \<leftarrow> assert_that (datafield_valid cmd_index f4);
     Some (p1, c\<lparr>incoming_packets_buffer := (incoming_packets_buffer c)(reqid r := None)\<rparr>)
   }"

text \<open>The answer to a finished read or write; the same code for both.\<close>
definition respond :: "Request \<Rightarrow> Controller \<Rightarrow> Controller option" where
  "respond r c =
     (if is_pim_inst r then do {
        _ \<leftarrow> assert_that (incoming_packets_buffer c (reqid r) \<noteq> None);
        if (ideal_memnet r \<and> ideal_localvault c) \<or> pu_id r = d_id (d_info (channel c))
        then Some (c\<lparr>incoming_packets_buffer := (incoming_packets_buffer c)(reqid r := None), to_pu := to_pu c @ [r]\<rparr>)
        else do {
          (p, c1) \<leftarrow> form_response_packet r c;
          Some (c1\<lparr>response_packets_buffer := response_packets_buffer c1 @ [p]\<rparr>)
        }
      } else do {
        (p, c1) \<leftarrow> form_response_packet r c;
        Some (c1\<lparr>response_packets_buffer := response_packets_buffer c1 @ [p]\<rparr>)
      })"

definition serve :: "int list \<Rightarrow> int \<Rightarrow> Controller \<Rightarrow> Controller option" where
  "serve addr delta c = do {
     t \<leftarrow> update_serving_requests (std c) (channel c) addr delta (clk c);
     Some (c\<lparr>channel := t\<rparr>)
   }"

text \<open>Step 1 of \<open>tick\<close>: the first of the completed reads.\<close>
definition serve_completed :: "Controller \<Rightarrow> Controller option" where
  "serve_completed c = (case pending c of
     [] \<Rightarrow> Some c
   | r # rest \<Rightarrow>
       if depart r \<le> clk c then do {
         c1 \<leftarrow> (if depart r - arrive r > 1 then serve (addr_vec r) (- 1) c else Some c);
         if is_pim_inst r \<and> req_type r \<noteq> READ \<and> req_type r \<noteq> WRITE then Some c1
         else do {
           c2 \<leftarrow> respond r c1;
           Some (c2\<lparr>pending := rest\<rparr>)
         }
       } else Some c)"

subsection \<open>Refresh\<close>

definition refresh_target :: "Controller \<Rightarrow> Controller option" where
  "refresh_target c = do {
     let r = Request_vec (unset_addr c) (d_id (d_info (channel c)) # replicate (LevelMAX - 1) (- 1)) REFRESH 0;
     let (ok, r', c1) = enqueue r c;
     _ \<leftarrow> assert_that ok;
     Some c1
   }"

definition inject_refresh :: "Controller \<Rightarrow> Controller option" where
  "inject_refresh c = do { c1 \<leftarrow> refresh_target c; Some (c1\<lparr>refreshed := refresh_clk c1\<rparr>) }"

definition tick_ref :: "Controller \<Rightarrow> Controller option" where
  "tick_ref c = (let c1 = c\<lparr>refresh_clk := refresh_clk c + 1\<rparr> in
     if refresh_clk c1 - refreshed c1 \<ge> nREFI (speed_table (c_speed c)) then inject_refresh c1 else Some c1)"

subsection \<open>Queries about requests\<close>

definition get_first_cmd :: "Controller \<Rightarrow> Request \<Rightarrow> HmcCommand option" where
  "get_first_cmd c r =
     (if \<not> no_DRAM_latency c then decode (std c) (channel c) (hmc_translate (req_type r)) (addr_vec r)
      else Some (hmc_translate (req_type r)))"

definition is_ready_cmd :: "Controller \<Rightarrow> HmcCommand \<Rightarrow> int list \<Rightarrow> bool option" where
  "is_ready_cmd c cmd addr = check (std c) (channel c) cmd addr (clk c)"

definition is_ready :: "Controller \<Rightarrow> Request \<Rightarrow> bool option" where
  "is_ready c r = do { cmd \<leftarrow> get_first_cmd c r; is_ready_cmd c cmd (addr_vec r) }"

definition is_row_hit :: "Controller \<Rightarrow> Request \<Rightarrow> bool option" where
  "is_row_hit c r = check_row_hit (std c) (channel c) (hmc_translate (req_type r)) (addr_vec r)"

definition is_row_open :: "Controller \<Rightarrow> Request \<Rightarrow> bool option" where
  "is_row_open c r = check_row_open (std c) (channel c) (hmc_translate (req_type r)) (addr_vec r)"

definition is_active :: "Controller \<Rightarrow> bool" where
  "is_active c \<longleftrightarrow> cur_serving_requests (d_info (channel c)) > 0"

definition is_refresh :: "Controller \<Rightarrow> bool" where
  "is_refresh c \<longleftrightarrow> clk c \<le> end_of_refreshing (d_info (channel c))"

subsection \<open>The request scheduler\<close>

definition get_hits_c :: "Request \<Rightarrow> Controller \<Rightarrow> (int \<times> Controller) option" where
  "get_hits_c r c = do { (h, tbl) \<leftarrow> get_hits (addr_vec r) (rowtable c); Some (h, c\<lparr>rowtable := tbl\<rparr>) }"

text \<open>How ready a request is for a policy; with a cap on row hits the test can add to the row table.\<close>
definition ready_for :: "SchedType \<Rightarrow> Request \<Rightarrow> Controller \<Rightarrow> (bool \<times> Controller) option" where
  "ready_for type r c = (case type of
     FCFS \<Rightarrow> Some (True, c)
   | FRFCFS \<Rightarrow> do { b \<leftarrow> is_ready c r; Some (b, c) }
   | FRFCFS_Cap \<Rightarrow> do {
       b \<leftarrow> is_ready c r;
       if b then do { (h, c1) \<leftarrow> get_hits_c r c; Some (h \<le> cap c, c1) } else Some (False, c)
     }
   | FRFCFS_PriorHit \<Rightarrow> do {
       b \<leftarrow> is_ready c r;
       if b then do { h \<leftarrow> is_row_hit c r; Some (h, c) } else Some (False, c)
     })"

definition compare :: "SchedType \<Rightarrow> Request list \<Rightarrow> nat \<Rightarrow> nat \<Rightarrow> Controller \<Rightarrow> (nat \<times> Controller) option" where
  "compare type q i j c =
     (if type = FCFS then Some (if arrive (q ! i) \<le> arrive (q ! j) then i else j, c)
      else do {
        (ready1, c1) \<leftarrow> ready_for type (q ! i) c;
        (ready2, c2) \<leftarrow> ready_for type (q ! j) c1;
        Some (if ready1 \<noteq> ready2 then (if ready1 then i else j)
              else if arrive (q ! i) \<le> arrive (q ! j) then i else j, c2)
      })"

text \<open>The loops from the first request on.\<close>
definition best :: "SchedType \<Rightarrow> Request list \<Rightarrow> Controller \<Rightarrow> (nat \<times> Controller) option" where
  "best type q c = fold_opt (\<lambda>j (i, c). compare type q i j c) [1..<length q] (0, c)"

definition rowgroup :: "Request \<Rightarrow> int list" where
  "rowgroup r = take (Suc (hmc_scope PRE)) (addr_vec r)"

definition hit_reqs :: "Request list \<Rightarrow> Controller \<Rightarrow> int list list option" where
  "hit_reqs q c = fold_opt (\<lambda>r gs. do { h \<leftarrow> is_row_hit c r; Some (if h then gs @ [rowgroup r] else gs) }) q []"

definition violates_hit :: "int list list \<Rightarrow> Request \<Rightarrow> Controller \<Rightarrow> bool option" where
  "violates_hit hits r c = do {
     h \<leftarrow> is_row_hit c r;
     if h then Some False
     else do { opened \<leftarrow> is_row_open c r; Some (opened \<and> rowgroup r \<in> set hits) }
   }"

definition pick_step :: "int list list \<Rightarrow> Request list \<Rightarrow> nat \<Rightarrow> nat option \<times> Controller \<Rightarrow> (nat option \<times> Controller) option" where
  "pick_step hits q j s = do {
     v \<leftarrow> violates_hit hits (q ! j) (snd s);
     if v then Some s
     else (case fst s of
       None \<Rightarrow> Some (Some j, snd s)
     | Some i \<Rightarrow> do { (k, c1) \<leftarrow> compare FRFCFS q i j (snd s); Some (Some k, c1) })
   }"

definition sched_get_head :: "Request list \<Rightarrow> Controller \<Rightarrow> (nat option \<times> Controller) option" where
  "sched_get_head q c =
     (if q = [] then Some (None, c)
      else do {
        (head, c1) \<leftarrow> best (sched_type c) q c;
        if sched_type c \<noteq> FRFCFS_PriorHit then Some (Some head, c1)
        else do {
          b \<leftarrow> is_ready c1 (q ! head);
          hit \<leftarrow> (if b then is_row_hit c1 (q ! head) else Some False);
          if hit then Some (Some head, c1)
          else do {
            hits \<leftarrow> hit_reqs q c1;
            fold_opt (pick_step hits q) [0..<length q] (None, c1)
          }
        }
      })"

subsection \<open>The row policy\<close>

text \<open>The first entry of the table whose precharge is ready, among those that \<open>P\<close> selects.\<close>
primrec first_victim :: "(RowEntry \<Rightarrow> bool) \<Rightarrow> HmcCommand \<Rightarrow> row_table \<Rightarrow> Controller \<Rightarrow> int list option" where
  "first_victim P cmd [] c = Some []"
| "first_victim P cmd (kv # tbl) c =
     (if P (snd kv) then do {
        b \<leftarrow> is_ready_cmd c cmd (fst kv);
        if b then Some (fst kv) else first_victim P cmd tbl c
      } else first_victim P cmd tbl c)"

definition get_victim :: "HmcCommand \<Rightarrow> Controller \<Rightarrow> int list option" where
  "get_victim cmd c = (case policy_type c of
     PolicyClosed \<Rightarrow> first_victim (\<lambda>e. True) cmd (rowtable c) c
   | PolicyOpened \<Rightarrow> Some []
   | PolicyTimeout \<Rightarrow> first_victim (\<lambda>e. \<not> clk c - re_timestamp e < timeout c) cmd (rowtable c) c)"

subsection \<open>Issuing commands\<close>

definition issue_cmd :: "HmcCommand \<Rightarrow> int list \<Rightarrow> Controller \<Rightarrow> Controller option" where
  "issue_cmd cmd addr c = do {
     b \<leftarrow> is_ready_cmd c cmd addr;
     _ \<leftarrow> assert_that b;
     if \<not> no_DRAM_latency c then do {
       t \<leftarrow> d_update (std c) (channel c) cmd addr (clk c);
       tbl \<leftarrow> rt_update cmd addr (clk c) (rowtable c);
       Some (c\<lparr>channel := t, rowtable := tbl, cmd_trace := cmd_trace c @ [(cmd, addr, clk c)]\<rparr>)
     } else do {
       t \<leftarrow> update_timing (std c) (channel c) cmd addr (clk c);
       Some (c\<lparr>channel := t, cmd_trace := cmd_trace c @ [(cmd, addr, clk c)]\<rparr>)
     }
   }"

definition choose_mode :: "Controller \<Rightarrow> Controller" where
  "choose_mode c =
     (if \<not> write_mode c
      then if length (writeq c) \<ge> 8 * queue_max div 10 \<or> length (readq c) = 0 then c\<lparr>write_mode := True\<rparr> else c
      else if length (writeq c) \<le> 2 * queue_max div 10 \<and> length (readq c) \<noteq> 0 then c\<lparr>write_mode := False\<rparr> else c)"

definition chosen_queue :: "Controller \<Rightarrow> queue_id" where
  "chosen_queue c = (if otherq c \<noteq> [] then OtherQ else if write_mode c then WriteQ else ReadQ)"

definition count_row :: "Request \<Rightarrow> Controller \<Rightarrow> Controller option" where
  "count_row r c = do {
     h \<leftarrow> is_row_hit c r;
     if h then Some (c\<lparr>row_hits := Suc (row_hits c)\<rparr>)
     else do {
       opened \<leftarrow> is_row_open c r;
       Some (if opened then c\<lparr>row_conflicts := Suc (row_conflicts c)\<rparr> else c\<lparr>row_misses := Suc (row_misses c)\<rparr>)
     }
   }"

definition upd_req :: "queue_id \<Rightarrow> nat \<Rightarrow> Request \<Rightarrow> Controller \<Rightarrow> Controller" where
  "upd_req qid i r c = set_queue qid ((queue qid c)[i := r]) c"

text \<open>The first command of a request.\<close>
definition first_command :: "queue_id \<Rightarrow> nat \<Rightarrow> Controller \<Rightarrow> Controller option" where
  "first_command qid i c = (let r = queue qid c ! i in
     if is_first_command r then do {
       let c1 = upd_req qid i (r\<lparr>is_first_command := False\<rparr>) c;
       if req_type r = READ \<or> req_type r = WRITE
       then serve (addr_vec r) 1 c1 \<bind> count_row r
       else Some c1
     } else Some c)"

definition remove_req :: "queue_id \<Rightarrow> nat \<Rightarrow> Controller \<Rightarrow> Controller" where
  "remove_req qid i c = set_queue qid (take i (queue qid c) @ drop (Suc i) (queue qid c)) c"

text \<open>The end of a request whose last command has been issued.\<close>
definition finish_cmd :: "queue_id \<Rightarrow> nat \<Rightarrow> Controller \<Rightarrow> Controller option" where
  "finish_cmd qid i c = do {
     let r = queue qid c ! i;
     c1 \<leftarrow> (if req_type r = READ then do {
              let r1 = r\<lparr>burst_count := burst_count r - 1\<rparr>;
              if burst_count r1 = 0 then do {
                let r2 = r1\<lparr>depart := clk c + c_read_latency c\<rparr>;
                Some ((upd_req qid i r2 c)\<lparr>pending := pending c @ [r2]\<rparr>)
              } else Some (upd_req qid i r1 c)
            } else if req_type r = WRITE then do {
              let r1 = r\<lparr>burst_count := burst_count r - 1\<rparr>;
              if burst_count r1 = 0 then do {
                let r2 = r1\<lparr>depart := clk c\<rparr>;
                c2 \<leftarrow> serve (addr_vec r2) (- 1) (upd_req qid i r2 c);
                respond r2 c2
              } else Some (upd_req qid i r1 c)
            } else Some c);
     Some (if burst_count (queue qid c1 ! i) = 0 then remove_req qid i c1 else c1)
   }"

text \<open>The next command of a request that is ready.\<close>
definition serve_head :: "queue_id \<Rightarrow> nat \<Rightarrow> Controller \<Rightarrow> Controller option" where
  "serve_head qid i c = do {
     c1 \<leftarrow> first_command qid i c;
     let r = queue qid c1 ! i;
     cmd \<leftarrow> get_first_cmd c1 r;
     c2 \<leftarrow> issue_cmd cmd (addr_vec r) c1;
     if cmd \<noteq> hmc_translate (req_type r) then Some c2 else finish_cmd qid i c2
   }"

text \<open>Step 4 of \<open>tick\<close>.\<close>
definition schedule :: "Controller \<Rightarrow> Controller option" where
  "schedule c = do {
     let qid = chosen_queue c;
     (head, c1) \<leftarrow> sched_get_head (queue qid c) c;
     ready \<leftarrow> (case head of None \<Rightarrow> Some False | Some i \<Rightarrow> is_ready c1 (queue qid c1 ! i));
     if \<not> ready then
       if \<not> no_DRAM_latency c1 then do {
         victim \<leftarrow> get_victim PRE c1;
         if victim \<noteq> [] then issue_cmd PRE victim c1 else Some c1
       } else Some c1
     else do { i \<leftarrow> head; serve_head qid i c1 }
   }"

definition tick :: "Controller \<Rightarrow> Controller option" where
  "tick c = do {
     c1 \<leftarrow> serve_completed (c\<lparr>clk := clk c + 1\<rparr>);
     c2 \<leftarrow> tick_ref c1;
     schedule (choose_mode c2)
   }"

text \<open>The controller of vault \<open>v\<close> as the memory factory makes it (\<^verbatim>\<open>MemoryFactory.h\<close>).\<close>
definition new_vault :: "Org \<Rightarrow> Speed \<Rightarrow> int \<Rightarrow> bool \<Rightarrow> bool \<Rightarrow> nat \<Rightarrow> int \<Rightarrow> int \<Rightarrow> Controller option" where
  "new_vault org speed flits no_latency localvault rmab unset v = do {
     t \<leftarrow> new_DRAM (hmc_standard org speed) Vault;
     Some (new_Controller org speed flits no_latency localvault rmab unset (set_id v t))
   }"

end
