(* ===== verification/Vault_State.thy ===== *)
theory Vault_State
  imports Vault_Controller
begin

text \<open>
  The state of a vault.  A vault has bank groups and these have banks; which row of which bank is open is a finite map from
  banks to rows, and the device refines this map: activating, precharging and refreshing are updates of it, the
  prerequisite of an access and the tests for row hits are look-ups.
\<close>

subsection \<open>Shape\<close>

definition bankgroups :: "Org \<Rightarrow> nat" where
  "bankgroups org = org_counts (org_table org) ! BankGroup"

definition banks :: "Org \<Rightarrow> nat" where
  "banks org = org_counts (org_table org) ! Bank"

lemma bankgroups_pos [simp]: "0 < bankgroups org"
  by (cases org) (simp_all add: bankgroups_def)

lemma banks_pos [simp]: "0 < banks org"
  by (cases org) (simp_all add: banks_def)

definition width_at :: "Org \<Rightarrow> nat \<Rightarrow> nat" where
  "width_at org l = (if l = 0 then bankgroups org else if l = 1 then banks org else 0)"

definition vault_shape :: "Org \<Rightarrow> hmc_node \<Rightarrow> bool" where
  "vault_shape org t \<longleftrightarrow> (\<forall>p n. node_at p t = Some n \<longrightarrow> length (d_children n) = width_at org (length p))"

lemma new_DRAM_width:
  assumes "new_DRAM (hmc_standard org speed) l = Some t" and "node_at p t = Some n" and "l \<le> 2"
  shows "length (d_children n) = width_at org (l + length p)"
  using assms
proof (induction p arbitrary: l t n)
  case Nil
  have "length (d_children t) = width_at org l"
    using Nil(1,3) bankgroups_pos [of org] banks_pos [of org]
    by (subst (asm) new_DRAM.simps) (auto simp: width_at_def bankgroups_def banks_def le_Suc_eq numeral_2_eq_2 split: if_splits elim!: bind_SomeE)
  then show ?case using Nil(2) by simp
next
  case (Cons i p)
  obtain c where c: "new_DRAM (hmc_standard org speed) (Suc l) = Some c" "Suc l \<noteq> Row" and j: "node_at p (set_id i c) = Some n"
    using Cons(2,3) by (subst (asm) (2) new_DRAM.simps) (auto simp: child_Some split: if_splits elim!: bind_SomeE)
  have l: "Suc l \<le> 2" using c(2) Cons(4) by simp
  show ?case
  proof (cases p)
    case Nil
    then show ?thesis using j Cons.IH [OF c(1) _ l, of c] by (auto simp: set_id_def)
  next
    case (Cons a q)
    then have "node_at p c = Some n" using j by (simp add: set_id_def)
    then show ?thesis using Cons.IH [OF c(1) _ l] by simp
  qed
qed

lemma new_vault_shape:
  assumes "new_DRAM (hmc_standard org speed) 0 = Some t"
  shows "vault_shape org (set_id v t)"
  unfolding vault_shape_def
proof (intro allI impI)
  fix p n assume n: "node_at p (set_id v t) = Some n"
  show "length (d_children n) = width_at org (length p)"
  proof (cases p)
    case Nil
    then show ?thesis using n new_DRAM_width [OF assms, of "[]" t] by (auto simp: set_id_def)
  next
    case (Cons i q)
    then have "node_at p t = Some n" using n by (simp add: set_id_def)
    then show ?thesis using new_DRAM_width [OF assms, of p n] by simp
  qed
qed

text \<open>The nodes of a vault.\<close>
lemma shape_at: "vault_shape org t \<Longrightarrow> node_at p t = Some n \<Longrightarrow> length (d_children n) = width_at org (length p)"
  by (simp add: vault_shape_def)

lemma shape_root: "vault_shape org t \<Longrightarrow> length (d_children t) = bankgroups org"
  using shape_at [of org t "[]"] by (simp add: width_at_def)

lemma shape_group:
  assumes "vault_shape org t" and "i < bankgroups org"
  shows "length (d_children (d_children t ! i)) = banks org"
proof -
  have "node_at [int i] t = Some (d_children t ! i)" using shape_root [OF assms(1)] assms(2) by (simp add: child_def)
  from shape_at [OF assms(1) this] show ?thesis by (simp add: width_at_def)
qed

lemma shape_bank:
  assumes "vault_shape org t" and "i < bankgroups org" and "j < banks org"
  shows "d_children (d_children (d_children t ! i) ! j) = []"
proof -
  have "node_at [int i, int j] t = Some (d_children (d_children t ! i) ! j)"
    using shape_root [OF assms(1)] shape_group [OF assms(1,2)] assms(2,3) by (simp add: child_def)
  from shape_at [OF assms(1) this] show ?thesis by (simp add: width_at_def)
qed

text \<open>A bank of a vault, by the identifiers of its group and its own.\<close>
definition bank_in :: "Org \<Rightarrow> int \<Rightarrow> int \<Rightarrow> bool" where
  "bank_in org g b \<longleftrightarrow> 0 \<le> g \<and> nat g < bankgroups org \<and> 0 \<le> b \<and> nat b < banks org"

definition bank_of :: "hmc_node \<Rightarrow> int \<Rightarrow> int \<Rightarrow> hmc_node" where
  "bank_of t g b = d_children (d_children t ! nat g) ! nat b"

lemma vault_paths:
  assumes "vault_shape org t"
  shows "node_at p t = (case p of [] \<Rightarrow> Some t
    | [g] \<Rightarrow> if 0 \<le> g \<and> nat g < bankgroups org then Some (d_children t ! nat g) else None
    | [g, b] \<Rightarrow> if bank_in org g b then Some (bank_of t g b) else None
    | _ \<Rightarrow> None)"
proof (cases p)
  case (Cons g q)
  note p1 = Cons
  show ?thesis
  proof (cases q)
    case Nil
    then show ?thesis using p1 shape_root [OF assms] by (simp add: child_def)
  next
    case (Cons b q')
    show ?thesis
    proof (cases q')
      case Nil
      then show ?thesis using p1 Cons shape_root [OF assms] shape_group [OF assms, of "nat g"]
        by (auto simp: child_def bank_in_def bank_of_def)
    next
      case C3: (Cons a r)
      then show ?thesis using p1 Cons shape_root [OF assms] shape_group [OF assms, of "nat g"] shape_bank [OF assms, of "nat g" "nat b"]
        by (auto simp: child_def)
    qed
  qed
qed simp

subsection \<open>Open rows\<close>

type_synonym open_rows = "int \<times> int \<Rightarrow> int option"

definition bank_is :: "hmc_node \<Rightarrow> int option \<Rightarrow> bool" where
  "bank_is n ro \<longleftrightarrow> (case ro of
     None \<Rightarrow> d_state (d_info n) = Closed \<and> row_state (d_info n) = (\<lambda>_. None)
   | Some r \<Rightarrow> d_state (d_info n) = Opened \<and> row_state (d_info n) = [r \<mapsto> Opened])"

text \<open>A vault in normal operation whose open rows are \<open>R\<close>.\<close>
definition vault_is :: "Org \<Rightarrow> hmc_node \<Rightarrow> open_rows \<Rightarrow> bool" where
  "vault_is org t R \<longleftrightarrow> tree_ok 0 t \<and> vault_shape org t \<and> d_state (d_info t) = PowerUp \<and>
     (\<forall>g b. bank_in org g b \<longrightarrow> bank_is (bank_of t g b) (R (g, b))) \<and> (\<forall>g b. \<not> bank_in org g b \<longrightarrow> R (g, b) = None)"

lemma vault_path:
  assumes "tree_ok 0 t" and "vault_shape org t" and "bank_in org g b"
  obtains d cs dg bs db where "t = DRAM d cs" and "child cs g = Some (DRAM dg bs)" and "child bs b = Some (DRAM db [])"
    and "bank_of t g b = DRAM db []" and "d_level d = 0" and "d_level dg = 1" and "d_level db = 2"
    and "d_id dg = g" and "d_id db = b" and "cs \<noteq> []" and "bs \<noteq> []"
proof -
  obtain d cs where t: "t = DRAM d cs" by (cases t)
  have G: "0 \<le> g" "nat g < length cs" using assms(3) shape_root [OF assms(2)] t by (auto simp: bank_in_def)
  obtain dg bs where g: "cs ! nat g = DRAM dg bs" by (cases "cs ! nat g")
  have cg: "child cs g = Some (DRAM dg bs)" using G g by (simp add: child_def)
  have gok: "tree_ok 1 (DRAM dg bs)" "d_id dg = g" using tree_ok_child [OF assms(1), of g "DRAM dg bs"] t cg by simp_all
  have B: "0 \<le> b" "nat b < length bs"
    using assms(3) shape_group [OF assms(2), of "nat g"] t g by (auto simp: bank_in_def)
  obtain db bb where b: "bs ! nat b = DRAM db bb" by (cases "bs ! nat b")
  have cb: "child bs b = Some (DRAM db bb)" using B b by (simp add: child_def)
  have bok: "d_level db = 2" "d_id db = b"
    using tree_ok_child [OF gok(1), of b "DRAM db bb"] cb by simp_all
  have e: "bank_of t g b = DRAM db bb" using t g b by (simp add: bank_of_def)
  have bb: "bb = []" using shape_bank [OF assms(2), of "nat g" "nat b"] assms(3) e by (simp add: bank_in_def bank_of_def)
  have ne: "cs \<noteq> []" "bs \<noteq> []" using G B by auto
  have lv: "d_level d = 0" "d_level dg = 1" using assms(1) gok(1) t by simp_all
  show thesis by (rule that [OF t cg _ _ lv bok(1) gok(2) bok(2) ne]) (use cb e bb in simp_all)
qed

lemma vault_is_bank: "vault_is org t R \<Longrightarrow> bank_in org g b \<Longrightarrow> bank_is (bank_of t g b) (R (g, b))"
  by (simp add: vault_is_def)

lemma decode_access:
  assumes "vault_is org t R" and "bank_in org g b" and "cmd = RD \<or> cmd = WR"
  shows "decode (hmc_standard org speed) t cmd [v, g, b, r, c] =
    Some (case R (g, b) of None \<Rightarrow> ACT | Some r' \<Rightarrow> if r' = r then cmd else PRE)"
proof -
  have ok: "tree_ok 0 t" "vault_shape org t" using assms(1) by (simp_all add: vault_is_def)
  obtain d cs dg bs db where
    p: "t = DRAM d cs" "child cs g = Some (DRAM dg bs)" "child bs b = Some (DRAM db [])" "bank_of t g b = DRAM db []"
      "d_level d = 0" "d_level dg = 1" "d_level db = 2" "d_id dg = g" "d_id db = b" "cs \<noteq> []" "bs \<noteq> []"
    by (rule vault_path [OF ok assms(2)])
  have s: "d_state d = PowerUp" "bank_is (DRAM db []) (R (g, b))"
    using assms(1) vault_is_bank [OF assms(1,2)] p(1,4) by (simp_all add: vault_is_def)
  have gb: "0 \<le> g" "0 \<le> b" using assms(2) by (simp_all add: bank_in_def)
  show ?thesis using assms(3) s gb p
    by (auto simp: rd_addr_def hmc_prereq_def vault_access_prereq_def bank_access_prereq_def bank_is_def split: option.splits)
qed

lemma row_hit_iff:
  assumes "vault_is org t R" and "bank_in org g b" and "cmd = RD \<or> cmd = WR"
  shows "check_row_hit (hmc_standard org speed) t cmd [v, g, b, r, c] = Some (R (g, b) = Some r)"
    and "check_row_open (hmc_standard org speed) t cmd [v, g, b, r, c] = Some (R (g, b) \<noteq> None)"
proof -
  have ok: "tree_ok 0 t" "vault_shape org t" using assms(1) by (simp_all add: vault_is_def)
  obtain d cs dg bs db where
    p: "t = DRAM d cs" "child cs g = Some (DRAM dg bs)" "child bs b = Some (DRAM db [])" "bank_of t g b = DRAM db []"
      "d_level d = 0" "d_level dg = 1" "d_level db = 2" "d_id dg = g" "d_id db = b" "cs \<noteq> []" "bs \<noteq> []"
    by (rule vault_path [OF ok assms(2)])
  have s: "bank_is (DRAM db []) (R (g, b))" using vault_is_bank [OF assms(1,2)] p(4) by simp
  have gb: "0 \<le> g" "0 \<le> b" using assms(2) by (simp_all add: bank_in_def)
  show "check_row_hit (hmc_standard org speed) t cmd [v, g, b, r, c] = Some (R (g, b) = Some r)"
    using assms(3) s gb p by (auto simp: rd_addr_def hmc_rowhit_def bank_rowhit_def bank_is_def split: option.splits)
  show "check_row_open (hmc_standard org speed) t cmd [v, g, b, r, c] = Some (R (g, b) \<noteq> None)"
    using assms(3) s gb p by (auto simp: rd_addr_def hmc_rowopen_def bank_rowopen_def bank_is_def split: option.splits)
qed

lemma all_banks_closed_iff:
  assumes "vault_is org t R"
  shows "all_banks_closed t \<longleftrightarrow> R = (\<lambda>_. None)"
proof -
  have sh: "vault_shape org t" using assms by (simp add: vault_is_def)
  have st: "d_state (d_info (bank_of t g b)) = Closed \<longleftrightarrow> R (g, b) = None" if "bank_in org g b" for g b
    using assms that by (force simp: vault_is_def bank_is_def split: option.splits)
  have "all_banks_closed t \<longleftrightarrow> (\<forall>i < bankgroups org. \<forall>j < banks org. d_state (d_info (bank_of t (int i) (int j))) = Closed)"
    using shape_root [OF sh] shape_group [OF sh] by (auto simp: all_banks_closed_def all_set_conv_all_nth bank_of_def)
  also have "\<dots> \<longleftrightarrow> (\<forall>g b. bank_in org g b \<longrightarrow> R (g, b) = None)"
  proof
    assume *: "\<forall>i < bankgroups org. \<forall>j < banks org. d_state (d_info (bank_of t (int i) (int j))) = Closed"
    show "\<forall>g b. bank_in org g b \<longrightarrow> R (g, b) = None"
    proof (intro allI impI)
      fix g b assume gb: "bank_in org g b"
      then have "d_state (d_info (bank_of t g b)) = Closed" using *[rule_format, of "nat g" "nat b"] by (simp add: bank_in_def)
      then show "R (g, b) = None" using st [OF gb] by simp
    qed
  next
    assume *: "\<forall>g b. bank_in org g b \<longrightarrow> R (g, b) = None"
    have "bank_in org (int i) (int j)" if "i < bankgroups org" "j < banks org" for i j using that by (simp add: bank_in_def)
    then show "\<forall>i < bankgroups org. \<forall>j < banks org. d_state (d_info (bank_of t (int i) (int j))) = Closed"
      using * st by blast
  qed
  also have "\<dots> \<longleftrightarrow> R = (\<lambda>_. None)"
  proof -
    have "R (g, b) = None" if "\<forall>g b. bank_in org g b \<longrightarrow> R (g, b) = None" for g b
      using that assms by (cases "bank_in org g b") (simp_all add: vault_is_def)
    then show ?thesis by (auto simp: fun_eq_iff)
  qed
  finally show ?thesis .
qed

text \<open>The address of a refresh.\<close>
abbreviation ref_addr :: "int \<Rightarrow> int list" where
  "ref_addr v \<equiv> [v, - 1, - 1, - 1, - 1]"

lemma vault_refresh_queries:
  assumes "vault_is org t R"
  shows "decode (hmc_standard org speed) t REF (ref_addr v) = Some (if R = (\<lambda>_. None) then REF else PREA)"
    and "check_row_hit (hmc_standard org speed) t REF (ref_addr v) = Some False"
    and "check_row_open (hmc_standard org speed) t REF (ref_addr v) = Some False"
    and "check (hmc_standard org speed) t cmd (ref_addr v) k =
      Some (\<not> (next_time (d_info t) cmd \<noteq> - 1 \<and> k < next_time (d_info t) cmd))"
proof -
  obtain d cs where t: "t = DRAM d cs" "d_level d = 0" using assms by (cases t) (auto simp: vault_is_def)
  show "decode (hmc_standard org speed) t REF (ref_addr v) = Some (if R = (\<lambda>_. None) then REF else PREA)"
    using t all_banks_closed_iff [OF assms] by (simp add: rd_addr_def hmc_prereq_def vault_ref_prereq_def)
  show "check_row_hit (hmc_standard org speed) t REF (ref_addr v) = Some False"
    "check_row_open (hmc_standard org speed) t REF (ref_addr v) = Some False"
    "check (hmc_standard org speed) t cmd (ref_addr v) k =
      Some (\<not> (next_time (d_info t) cmd \<noteq> - 1 \<and> k < next_time (d_info t) cmd))"
    using t by (auto simp: rd_addr_def hmc_rowhit_def hmc_rowopen_def)
qed

text \<open>A check of a command on a bank returns.\<close>
lemma check_bank_total:
  assumes "tree_ok 0 t" and "vault_shape org t" and "bank_in org g b"
  shows "\<exists>x. check (hmc_standard org speed) t cmd [v, g, b, r, c] k = Some x"
proof -
  obtain d cs dg bs db where
    p: "t = DRAM d cs" "child cs g = Some (DRAM dg bs)" "child bs b = Some (DRAM db [])" "bank_of t g b = DRAM db []"
      "d_level d = 0" "d_level dg = 1" "d_level db = 2" "d_id dg = g" "d_id db = b" "cs \<noteq> []" "bs \<noteq> []"
    by (rule vault_path [OF assms])
  have gb: "0 \<le> g" "0 \<le> b" using assms(3) by (simp_all add: bank_in_def)
  show ?thesis using p gb by (auto simp: rd_addr_def)
qed

subsection \<open>Commands as updates of the open rows\<close>

definition row_effect :: "HmcCommand \<Rightarrow> int list \<Rightarrow> open_rows \<Rightarrow> open_rows" where
  "row_effect cmd addr R = (case cmd of
     ACT \<Rightarrow> R((addr ! BankGroup, addr ! Bank) \<mapsto> addr ! Row)
   | PRE \<Rightarrow> R((addr ! BankGroup, addr ! Bank) := None)
   | PREA \<Rightarrow> (\<lambda>_. None)
   | _ \<Rightarrow> R)"

text \<open>The commands a controller issues when the open rows are \<open>R\<close>.\<close>
definition legal_cmd :: "Org \<Rightarrow> int \<Rightarrow> open_rows \<Rightarrow> HmcCommand \<Rightarrow> int list \<Rightarrow> bool" where
  "legal_cmd org v R cmd addr \<longleftrightarrow>
     (\<exists>g b r c. addr = [v, g, b, r, c] \<and> bank_in org g b \<and> (cmd = ACT \<and> R (g, b) = None \<or> cmd = PRE \<or> cmd = RD \<or> cmd = WR)) \<or>
     (cmd = PREA \<or> cmd = REF) \<and> addr = ref_addr v"

definition serving_view :: "hmc_node \<Rightarrow> int \<times> int" where
  "serving_view n = (cur_serving_requests (d_info n), begin_of_serving (d_info n))"

definition same_serving :: "hmc_node \<Rightarrow> hmc_node \<Rightarrow> bool" where
  "same_serving t t' \<longleftrightarrow> (\<forall>p. map_option serving_view (node_at p t) = map_option serving_view (node_at p t'))"

lemma same_serving_refl [simp]: "same_serving t t"
  by (simp add: same_serving_def)

lemma same_serving_trans: "same_serving t t' \<Longrightarrow> same_serving t' t'' \<Longrightarrow> same_serving t t''"
  by (simp add: same_serving_def)

lemma same_timing_shape: "same_timing t' t \<Longrightarrow> vault_shape org t \<Longrightarrow> vault_shape org t'"
  unfolding vault_shape_def
proof (intro allI impI)
  fix p n' assume *: "same_timing t' t" "\<forall>p n. node_at p t = Some n \<longrightarrow> length (d_children n) = width_at org (length p)" "node_at p t' = Some n'"
  have "map_option timing_view (node_at p t) = Some (timing_view n')" using *(1,3) unfolding same_timing_def by (metis option.map(2))
  then obtain n where "node_at p t = Some n" "timing_view n = timing_view n'" by auto
  then show "length (d_children n') = width_at org (length p)" using *(2) by (auto simp: timing_view_def)
qed

text \<open>Replacing a bank.\<close>
definition put_bank :: "int \<Rightarrow> int \<Rightarrow> hmc_node \<Rightarrow> hmc_node \<Rightarrow> hmc_node" where
  "put_bank g b n t = DRAM (d_info t)
     ((d_children t)[nat g := DRAM (d_info (d_children t ! nat g)) ((d_children (d_children t ! nat g))[nat b := n])])"

lemma bank_of_put_bank:
  assumes "vault_shape org t" and "bank_in org g b" and "bank_in org g' b'"
  shows "bank_of (put_bank g b n t) g' b' = (if (g', b') = (g, b) then n else bank_of t g' b')"
proof -
  have l: "nat g < length (d_children t)" "nat b < length (d_children (d_children t ! nat g))"
    using assms(2) shape_root [OF assms(1)] shape_group [OF assms(1), of "nat g"] by (auto simp: bank_in_def)
  have e: "nat g' = nat g \<longleftrightarrow> g' = g" "nat b' = nat b \<longleftrightarrow> b' = b" using assms(2,3) by (auto simp: bank_in_def)
  show ?thesis using l e by (auto simp: bank_of_def put_bank_def)
qed

lemma put_bank_info:
  "d_info (put_bank g b n t) = d_info t" "d_info (d_children (put_bank g b n t) ! i) = d_info (d_children t ! i)"
proof -
  show "d_info (put_bank g b n t) = d_info t" by (simp add: put_bank_def)
  show "d_info (d_children (put_bank g b n t) ! i) = d_info (d_children t ! i)"
  proof (cases "i = nat g")
    case True
    then show ?thesis by (cases "i < length (d_children t)") (simp_all add: put_bank_def list_update_beyond)
  qed (simp add: put_bank_def)
qed

lemma update_state_bank:
  assumes "tree_ok 0 t" and "vault_shape org t" and "bank_in org g b" and "hmc_lambda 2 cmd = Some f"
    and "cmd = ACT \<or> cmd = PRE \<or> cmd = RD \<or> cmd = WR"
  shows "update_state (hmc_standard org speed) t cmd [v, g, b, r, c] = Some (put_bank g b (f (bank_of t g b) r) t)"
proof -
  obtain d cs dg bs db where
    p: "t = DRAM d cs" "child cs g = Some (DRAM dg bs)" "child bs b = Some (DRAM db [])" "bank_of t g b = DRAM db []"
      "d_level d = 0" "d_level dg = 1" "d_level db = 2" "d_id dg = g" "d_id db = b" "cs \<noteq> []" "bs \<noteq> []"
    by (rule vault_path [OF assms(1-3)])
  let ?sp = "hmc_standard org speed" and ?a = "[v, g, b, r, c]"
  have f: "d_children (f (DRAM db []) r) = []"
    using assms(4,5) by (auto simp: hmc_lambda_def open_row_lambda_def close_bank_lambda_def set_node_def)
  have 3: "update_state ?sp (DRAM db []) cmd ?a = Some (f (DRAM db []) r)"
    using p(7) assms(4,5) f by (subst update_state.simps) (auto simp: rd_addr_def)
  have n: "hmc_lambda 0 cmd = None" "hmc_lambda (Suc 0) cmd = None" "hmc_scope cmd \<noteq> 0" "hmc_scope cmd \<noteq> Suc 0"
    using assms(5) by (auto simp: hmc_lambda_def)
  have 2: "update_state ?sp (DRAM dg bs) cmd ?a = Some (DRAM dg (bs[nat b := f (DRAM db []) r]))"
    using p(3,6,11) n 3 by (subst update_state.simps) (simp add: rd_addr_def)
  have "update_state ?sp t cmd ?a = Some (DRAM d (cs[nat g := DRAM dg (bs[nat b := f (DRAM db []) r])]))"
    using p(1,2,5,10) n 2 by (subst update_state.simps) (simp add: rd_addr_def)
  moreover have "cs ! nat g = DRAM dg bs" using p(2) by (simp add: child_Some)
  ultimately show ?thesis using p(1,4) by (simp add: put_bank_def)
qed

lemma update_state_vault_level:
  assumes "tree_ok 0 t" and "cmd = PREA \<or> cmd = REF"
  shows "update_state (hmc_standard org speed) t cmd (ref_addr v) = Some (if cmd = PREA then prea_lambda t (- 1) else t)"
  using tree_ok_level [OF assms(1)] assms(2) by (subst update_state.simps) (auto simp: rd_addr_def hmc_lambda_def)

lemma same_serving_put_bank:
  assumes "tree_ok 0 t" and "vault_shape org t" and "bank_in org g b" and "vault_shape org (put_bank g b n t)"
    and "serving_view n = serving_view (bank_of t g b)"
  shows "same_serving t (put_bank g b n t)"
  unfolding same_serving_def
proof
  fix p
  show "map_option serving_view (node_at p t) = map_option serving_view (node_at p (put_bank g b n t))"
    unfolding vault_paths [OF assms(2)] vault_paths [OF assms(4)]
    using assms(5) bank_of_put_bank [OF assms(2,3)]
    by (auto split: list.split simp: put_bank_info serving_view_def)
qed

lemma bank_of_prea:
  assumes "vault_shape org t" and "bank_in org g b"
  shows "bank_of (prea_lambda t i) g b = set_node Closed (\<lambda>_. None) (bank_of t g b)"
  using assms(2) shape_root [OF assms(1)] shape_group [OF assms(1), of "nat g"]
  by (simp add: bank_of_def prea_lambda_def bank_in_def)

lemma same_serving_prea:
  assumes "vault_shape org t"
  shows "same_serving t (prea_lambda t i)"
  unfolding same_serving_def
proof
  fix p
  have sh: "vault_shape org (prea_lambda t i)" by (rule same_timing_shape [OF _ assms]) simp
  have c: "d_info (d_children (prea_lambda t i) ! j) = d_info (d_children t ! j)" if "j < bankgroups org" for j
    using that shape_root [OF assms] by (simp add: prea_lambda_def)
  show "map_option serving_view (node_at p t) = map_option serving_view (node_at p (prea_lambda t i))"
    unfolding vault_paths [OF assms] vault_paths [OF sh] using c bank_of_prea [OF assms]
    by (auto split: list.split simp: serving_view_def set_node_def) (simp_all add: prea_lambda_def)
qed

lemma update_state_vault:
  assumes "vault_is org t R" and "legal_cmd org v R cmd addr"
  shows "\<exists>t'. update_state (hmc_standard org speed) t cmd addr = Some t' \<and> vault_is org t' (row_effect cmd addr R) \<and> same_serving t t'"
proof -
  let ?sp = "hmc_standard org speed"
  have ok: "tree_ok 0 t" "vault_shape org t" using assms(1) by (simp_all add: vault_is_def)
  have keep: "tree_ok 0 t' \<and> vault_shape org t'" if "update_state ?sp t cmd addr = Some t'" for t'
  proof -
    have st: "same_timing t' t" by (rule hmc.update_state_timing [OF that])
    then have "same_timing t t'" by (simp add: same_timing_def)
    then show ?thesis using same_timing_tree_ok [OF _ ok(1)] same_timing_shape [OF st ok(2)] by blast
  qed
  consider (bank) g b r c where "addr = [v, g, b, r, c]" "bank_in org g b" "cmd = ACT \<and> R (g, b) = None \<or> cmd = PRE \<or> cmd = RD \<or> cmd = WR"
    | (all) "cmd = PREA \<or> cmd = REF" "addr = ref_addr v" using assms(2) unfolding legal_cmd_def by blast
  then show ?thesis
  proof cases
    case bank
    obtain f where f: "hmc_lambda 2 cmd = Some f" using bank(3) by (auto simp: hmc_lambda_def)
    let ?n = "f (bank_of t g b) r" and ?t = "put_bank g b (f (bank_of t g b) r) t"
    have u: "update_state ?sp t cmd addr = Some ?t"
      using update_state_bank [OF ok bank(2) f] bank(1,3) by auto
    have sh: "vault_shape org ?t" using keep [OF u] by simp
    have n: "bank_is ?n (row_effect cmd addr R (g, b))" "serving_view ?n = serving_view (bank_of t g b)"
      using f bank(1,3) vault_is_bank [OF assms(1) bank(2)]
      by (auto simp: hmc_lambda_def open_row_lambda_def close_bank_lambda_def set_node_def bank_is_def row_effect_def serving_view_def
          split: option.splits)
    have o: "row_effect cmd addr R x = R x" if "x \<noteq> (g, b)" for x using that bank(1,3) by (auto simp: row_effect_def)
    have "vault_is org ?t (row_effect cmd addr R)"
      unfolding vault_is_def
    proof (intro conjI allI impI)
      show "bank_is (bank_of ?t g' b') (row_effect cmd addr R (g', b'))" if "bank_in org g' b'" for g' b'
        using bank_of_put_bank [OF ok(2) bank(2) that] n(1) o [of "(g', b')"] vault_is_bank [OF assms(1) that] by auto
      show "row_effect cmd addr R (g', b') = None" if "\<not> bank_in org g' b'" for g' b'
      proof -
        have "(g', b') \<noteq> (g, b)" using that bank(2) by auto
        then show ?thesis using o that assms(1) by (simp add: vault_is_def)
      qed
    qed (use keep [OF u] assms(1) in \<open>simp_all add: put_bank_info vault_is_def\<close>)
    moreover have "same_serving t ?t" by (rule same_serving_put_bank [OF ok bank(2) sh n(2)])
    ultimately show ?thesis using u by blast
  next
    case all
    have u: "update_state ?sp t cmd addr = Some (if cmd = PREA then prea_lambda t (- 1) else t)"
      using update_state_vault_level [OF ok(1) all(1)] all(2) by simp
    show ?thesis
    proof (cases "cmd = PREA")
      case True
      have "vault_is org (prea_lambda t (- 1)) (row_effect cmd addr R)"
        using keep [OF u] assms(1) True bank_of_prea [OF ok(2), of _ _ "- 1"]
        by (simp add: vault_is_def row_effect_def bank_is_def set_node_def) (simp add: prea_lambda_def)
      then show ?thesis using u True same_serving_prea [OF ok(2)] by simp
    next
      case False
      then have "row_effect cmd addr R = R" using all(1) by (auto simp: row_effect_def)
      then show ?thesis using u False assms(1) by simp
    qed
  qed
qed

lemma vault_is_set_clk:
  assumes "vault_is org t R"
  shows "vault_is org (DRAM (d_info t\<lparr>cur_clk := k\<rparr>) (d_children t)) R"
    and "same_serving t (DRAM (d_info t\<lparr>cur_clk := k\<rparr>) (d_children t))"
proof -
  let ?t = "DRAM (d_info t\<lparr>cur_clk := k\<rparr>) (d_children t)"
  have st: "same_timing ?t t" by (rule same_timingI) (simp_all add: timing_view_def)
  then have st': "same_timing t ?t" by (simp add: same_timing_def)
  have "bank_of ?t g b = bank_of t g b" for g b by (simp add: bank_of_def)
  then show "vault_is org ?t R"
    using assms same_timing_tree_ok [OF st', of 0] same_timing_shape [OF st] by (simp add: vault_is_def del: tree_ok.simps)
  have "map_option serving_view (node_at p t) = map_option serving_view (node_at p ?t)" for p
    by (cases p) (simp_all add: serving_view_def)
  then show "same_serving t ?t" by (simp add: same_serving_def)
qed

end
