(* ===== verification/Vault_Device.thy ===== *)
theory Vault_Device
  imports Vault_State
begin

text \<open>
  The device of a vault under its controller: issuing a legal command returns, has its effect on the open rows and delays
  later commands by at most the longest constraint; counting the requests being served keeps everything else.
\<close>

subsection \<open>Issuing\<close>

definition vault_inv :: "Org \<Rightarrow> Speed \<Rightarrow> (HmcCommand \<times> int list \<times> int) list \<Rightarrow> int \<Rightarrow> hmc_node \<Rightarrow> open_rows \<Rightarrow> bool" where
  "vault_inv org speed us B t R \<longleftrightarrow> device_ok (hmc_standard org speed) 3 us t \<and> vault_is org t R \<and>
     (\<forall>p n c. node_at p t = Some n \<longrightarrow> - 1 \<le> next_time (d_info n) c \<and> next_time (d_info n) c \<le> B)"

lemma vault_inv_mono: "vault_inv org speed us B t R \<Longrightarrow> B \<le> B' \<Longrightarrow> vault_inv org speed us B' t R"
  unfolding vault_inv_def using order_trans by blast

lemma times_ok_prev:
  assumes "times_ok sp us q d" and "\<forall>(c, a, k') \<in> set us. k' \<le> k" and "0 \<le> k"
  shows "\<forall>x \<in> set (prev_times d c). x \<le> k"
proof
  fix x assume "x \<in> set (prev_times d c)"
  then have "x \<in> set (issued_to q c us) \<or> x = - 1" using assms(1) by (auto simp: times_ok_def padded_def split: if_splits)
  then show "x \<le> k" using assms(2,3) by (auto simp: issued_to_def)
qed

lemma vault_is_steps:
  assumes "vault_is org t R" and "tree_ok 0 t'" and "\<forall>p. rel_option (\<lambda>n n'. d_state (d_info n') = d_state (d_info n) \<and>
      row_state (d_info n') = row_state (d_info n) \<and> length (d_children n') = length (d_children n)) (node_at p t) (node_at p t')"
  shows "vault_is org t' R"
proof -
  let ?r = "\<lambda>n n'. d_state (d_info n') = d_state (d_info n) \<and> row_state (d_info n') = row_state (d_info n) \<and>
    length (d_children n') = length (d_children n)"
  have sh: "vault_shape org t" using assms(1) by (simp add: vault_is_def)
  have sh': "vault_shape org t'"
    unfolding vault_shape_def
  proof (intro allI impI)
    fix p n' assume n': "node_at p t' = Some n'"
    then obtain n where "node_at p t = Some n" "?r n n'" using spec [OF assms(3), of p] by (cases "node_at p t") auto
    then show "length (d_children n') = width_at org (length p)" using shape_at [OF sh] by auto
  qed
  have root: "d_state (d_info t') = PowerUp" using spec [OF assms(3), of "[]"] assms(1) by (simp add: vault_is_def)
  have "bank_is (bank_of t' g b) (R (g, b))" if gb: "bank_in org g b" for g b
  proof -
    have "?r (bank_of t g b) (bank_of t' g b)"
      using spec [OF assms(3), of "[g, b]"] gb unfolding vault_paths [OF sh] vault_paths [OF sh'] by simp
    then show ?thesis using vault_is_bank [OF assms(1) gb] by (simp add: bank_is_def split: option.splits)
  qed
  then show ?thesis using assms(1,2) sh' root by (simp add: vault_is_def)
qed

text \<open>A legal command is carried out, whatever was issued before.\<close>
lemma d_update_vault:
  assumes "vault_inv org speed us B t R" and "0 \<le> k" and "\<forall>(c, a, k') \<in> set us. k' \<le> k"
    and "legal_cmd org v R cmd addr"
  shows "\<exists>t'. d_update (hmc_standard org speed) t cmd addr k = Some t' \<and>
    vault_inv org speed (us @ [(cmd, addr, k)]) (max B (k + 200)) t' (row_effect cmd addr R) \<and> same_serving t t' \<and>
    d_id (d_info t') = d_id (d_info t)"
proof -
  let ?sp = "hmc_standard org speed" and ?t0 = "DRAM (d_info t\<lparr>cur_clk := k\<rparr>) (d_children t)" and ?B = "max B (k + 200)"
  have dev: "device_ok ?sp 3 us t" and vis: "vault_is org t R" using assms(1) by (simp_all add: vault_inv_def)
  note c0 = vault_is_set_clk [OF vis, of k]
  obtain t1 where t1: "update_state ?sp ?t0 cmd addr = Some t1" "vault_is org t1 (row_effect cmd addr R)" "same_serving ?t0 t1"
    using update_state_vault [OF c0(1) assms(4)] by blast
  have len: "3 \<le> length addr" using assms(4) by (auto simp: legal_cmd_def)
  from hmc.update_device_ok [OF dev assms(2) len t1(1)] obtain t' where
    t': "d_update ?sp t cmd addr k = Some t'" "device_ok ?sp 3 (us @ [(cmd, addr, k)]) t'"
      "\<forall>p. rel_option (stepped ?sp cmd addr k 0 (d_id (d_info t) # p)) (node_at p t1) (node_at p t')" by blast
  have st: "same_timing t1 ?t0" by (rule hmc.update_state_timing [OF t1(1)])
  have "same_timing ?t0 t" by (rule same_timingI) (simp_all add: timing_view_def)
  then have st1: "same_timing t t1" using st by (simp add: same_timing_def)
  have dev1: "device_ok ?sp 3 us t1" by (rule hmc.device_ok_same [OF dev]) (use st1 in \<open>simp add: same_timing_def\<close>)
  have bnd: "- 1 \<le> next_time (d_info n) c \<and> next_time (d_info n) c \<le> B" if n: "node_at p t1 = Some n" for p n c
  proof -
    obtain n0 where n0: "node_at p t = Some n0" "timing_view n0 = timing_view n" by (rule same_timing_node [OF st1 n])
    have "- 1 \<le> next_time (d_info n0) c \<and> next_time (d_info n0) c \<le> B" using assms(1) n0(1) unfolding vault_inv_def by blast
    then show ?thesis using n0(2) by (simp add: timing_view_def)
  qed
  have step: "d_state (d_info n') = d_state (d_info n) \<and> row_state (d_info n') = row_state (d_info n) \<and>
      serving_view n' = serving_view n \<and> length (d_children n') = length (d_children n) \<and> d_id (d_info n') = d_id (d_info n) \<and>
      (\<forall>c. - 1 \<le> next_time (d_info n') c \<and> next_time (d_info n') c \<le> ?B)"
    if n: "node_at p t1 = Some n" and s: "stepped ?sp cmd addr k 0 (d_id (d_info t) # p) n n'" for p n n'
  proof -
    have ok: "times_ok ?sp us (d_id (d_info t1) # p) (d_info n)" using dev1 n unfolding device_ok_def by blast
    have kept: "kept ?sp (Suc (d_level (d_info n))) (d_info n)" using ok by (simp add: kept_def times_ok_def)
    have ts: "timing_step ?sp cmd addr k 0 (d_id (d_info t) # p) (d_info n) (d_info n')" using s by (simp add: stepped_def)
    note f = hmc.timing_step_fields [OF kept ts]
    have "\<forall>c. next_time (d_info n') c \<le> ?B"
    proof (rule f(2))
      show "\<forall>c. next_time (d_info n) c \<le> ?B" using bnd [OF n] by (simp add: le_max_iff_disj)
      show "\<forall>e \<in> set (timing ?sp (d_level (d_info n)) cmd). k + te_val e \<le> ?B"
        using hmc_timing_entries(3) by (fastforce simp: le_max_iff_disj)
      show "\<forall>x \<in> set (prev_times (d_info n) cmd). x \<le> k" by (rule times_ok_prev [OF ok assms(3,2)])
    qed
    moreover have "- 1 \<le> next_time (d_info n') c" for c using bnd [OF n, of c] f(1) by (meson order_trans)
    ultimately show ?thesis using f(1) s by (simp add: serving_view_def stepped_def)
  qed
  have rel: "rel_option (\<lambda>n n'. d_state (d_info n') = d_state (d_info n) \<and> row_state (d_info n') = row_state (d_info n) \<and>
      serving_view n' = serving_view n \<and> length (d_children n') = length (d_children n) \<and> d_id (d_info n') = d_id (d_info n) \<and>
      (\<forall>c. - 1 \<le> next_time (d_info n') c \<and> next_time (d_info n') c \<le> ?B)) (node_at p t1) (node_at p t')" for p
    using spec [OF t'(3), of p] by (rule option.rel_mono_strong) (rule step, simp_all)
  have "vault_is org t' (row_effect cmd addr R)"
  proof (rule vault_is_steps [OF t1(2)])
    show "tree_ok 0 t'" using t'(2) by (simp add: device_ok_def)
    show "\<forall>p. rel_option (\<lambda>n n'. d_state (d_info n') = d_state (d_info n) \<and>
      row_state (d_info n') = row_state (d_info n) \<and> length (d_children n') = length (d_children n)) (node_at p t1) (node_at p t')"
      by (intro allI option.rel_mono_strong [OF rel]) simp
  qed
  moreover have "same_serving t1 t'"
    unfolding same_serving_def
  proof
    fix p show "map_option serving_view (node_at p t1) = map_option serving_view (node_at p t')"
      using rel [of p] by (cases "node_at p t1"; cases "node_at p t'") auto
  qed
  then have "same_serving t t'" using c0(2) t1(3) same_serving_trans by blast
  moreover have "\<forall>p n c. node_at p t' = Some n \<longrightarrow> - 1 \<le> next_time (d_info n) c \<and> next_time (d_info n) c \<le> ?B"
  proof (intro allI impI)
    fix p n c assume "node_at p t' = Some n"
    then show "- 1 \<le> next_time (d_info n) c \<and> next_time (d_info n) c \<le> ?B" using rel [of p] by (cases "node_at p t1") auto
  qed
  moreover have "d_id (d_info t') = d_id (d_info t)" using rel [of "[]"] same_timing_view [OF st1] by (simp add: timing_view_def)
  ultimately show ?thesis using t'(1,2) by (auto simp: vault_inv_def)
qed

subsection \<open>Requests being served\<close>

lemma serve_node_ok:
  assumes "delta = 1 \<or> delta = - 1" and "0 \<le> cur_serving_requests d + delta" and "0 \<le> cur_serving_requests d"
    and "0 < cur_serving_requests d \<longrightarrow> begin_of_serving d \<noteq> - 1" and "0 \<le> k"
  shows "\<exists>d'. serve_node delta k d = Some d' \<and> cur_serving_requests d' = cur_serving_requests d + delta \<and>
    (0 < cur_serving_requests d' \<longrightarrow> begin_of_serving d' \<noteq> - 1) \<and> d_level d' = d_level d \<and> d_id d' = d_id d \<and>
    d_state d' = d_state d \<and> row_state d' = row_state d \<and> next_time d' = next_time d \<and> prev_times d' = prev_times d"
proof -
  consider (first) "delta = 1" "cur_serving_requests d = 0" | (more) "delta = 1" "0 < cur_serving_requests d"
    | (final) "delta = - 1" "cur_serving_requests d = 1" | (less) "delta = - 1" "1 < cur_serving_requests d"
    using assms(1-3) by linarith
  then show ?thesis using assms(4,5) by cases (auto simp: serve_node_def Let_def)
qed

text \<open>The numbers of requests that the nodes count as being served.\<close>
definition serving_ok :: "hmc_node \<Rightarrow> (int list \<Rightarrow> int) \<Rightarrow> bool" where
  "serving_ok t f \<longleftrightarrow> (\<forall>p n. node_at p t = Some n \<longrightarrow> cur_serving_requests (d_info n) = f p \<and>
     (0 < f p \<longrightarrow> begin_of_serving (d_info n) \<noteq> - 1))"

lemma serving_ok_same: "same_serving t t' \<Longrightarrow> serving_ok t f \<Longrightarrow> serving_ok t' f"
  unfolding serving_ok_def
proof (intro allI impI)
  fix p n' assume *: "same_serving t t'" "\<forall>p n. node_at p t = Some n \<longrightarrow> cur_serving_requests (d_info n) = f p \<and>
     (0 < f p \<longrightarrow> begin_of_serving (d_info n) \<noteq> - 1)" "node_at p t' = Some n'"
  have "map_option serving_view (node_at p t) = Some (serving_view n')" using *(1,3) by (simp add: same_serving_def)
  then obtain n where "node_at p t = Some n" "serving_view n = serving_view n'" by auto
  then show "cur_serving_requests (d_info n') = f p \<and> (0 < f p \<longrightarrow> begin_of_serving (d_info n') \<noteq> - 1)"
    using *(2) by (auto simp: serving_view_def)
qed

definition on_way :: "int \<Rightarrow> int \<Rightarrow> int list \<Rightarrow> bool" where
  "on_way g b p \<longleftrightarrow> p = [] \<or> p = [g] \<or> p = [g, b]"

lemma serve_vault:
  assumes "vault_inv org speed us B t R" and "serving_ok t f" and "bank_in org g b" and "d_id (d_info t) = v" and "0 \<le> k"
    and "delta = 1 \<or> delta = - 1" and "\<forall>p. 0 \<le> f p" and "\<forall>p. on_way g b p \<longrightarrow> 0 \<le> f p + delta"
  shows "\<exists>t'. update_serving_requests (hmc_standard org speed) t [v, g, b, r, c] delta k = Some t' \<and>
    vault_inv org speed us B t' R \<and> serving_ok t' (\<lambda>p. f p + (if on_way g b p then delta else 0)) \<and> d_id (d_info t') = v \<and> same_timing t t'"
proof -
  let ?sp = "hmc_standard org speed" and ?a = "[v, g, b, r, c]"
  have ok: "tree_ok 0 t" "vault_shape org t" using assms(1) by (simp_all add: vault_inv_def vault_is_def)
  obtain d cs dg bs db where
    p: "t = DRAM d cs" "child cs g = Some (DRAM dg bs)" "child bs b = Some (DRAM db [])" "bank_of t g b = DRAM db []"
      "d_level d = 0" "d_level dg = 1" "d_level db = 2" "d_id dg = g" "d_id db = b" "cs \<noteq> []" "bs \<noteq> []"
    by (rule vault_path [OF ok assms(3)])
  have gb: "0 \<le> g" "0 \<le> b" "nat g < length cs" "nat b < length bs" "cs ! nat g = DRAM dg bs" "bs ! nat b = DRAM db []"
    using p(2,3) by (simp_all add: child_Some)
  have at: "node_at [] t = Some (DRAM d cs)" "node_at [g] t = Some (DRAM dg bs)" "node_at [g, b] t = Some (DRAM db [])"
    using p(1-3) by simp_all
  have sv: "cur_serving_requests (d_info n) = f q \<and> (0 < f q \<longrightarrow> begin_of_serving (d_info n) \<noteq> - 1)" if "node_at q t = Some n" for q n
    using that assms(2) by (simp add: serving_ok_def)
  have s: "\<exists>e. serve_node delta k (d_info n) = Some e \<and> cur_serving_requests e = f q + delta \<and>
    (0 < cur_serving_requests e \<longrightarrow> begin_of_serving e \<noteq> - 1) \<and> d_level e = d_level (d_info n) \<and> d_id e = d_id (d_info n) \<and>
    d_state e = d_state (d_info n) \<and> row_state e = row_state (d_info n) \<and> next_time e = next_time (d_info n) \<and> prev_times e = prev_times (d_info n)"
    if "node_at q t = Some n" "on_way g b q" for q n
    using serve_node_ok [OF assms(6), of "d_info n" k] sv [OF that(1)] assms(5,7,8) that(2) by auto
  obtain d' where d': "serve_node delta k d = Some d'" "cur_serving_requests d' = f [] + delta"
    "0 < cur_serving_requests d' \<longrightarrow> begin_of_serving d' \<noteq> - 1" "d_level d' = d_level d" "d_id d' = d_id d"
    "d_state d' = d_state d" "row_state d' = row_state d" "next_time d' = next_time d" "prev_times d' = prev_times d"
    using s [OF at(1)] by (auto simp: on_way_def)
  obtain dg' where dg': "serve_node delta k dg = Some dg'" "cur_serving_requests dg' = f [g] + delta"
    "0 < cur_serving_requests dg' \<longrightarrow> begin_of_serving dg' \<noteq> - 1" "d_level dg' = d_level dg" "d_id dg' = d_id dg"
    "d_state dg' = d_state dg" "row_state dg' = row_state dg" "next_time dg' = next_time dg" "prev_times dg' = prev_times dg"
    using s [OF at(2)] by (auto simp: on_way_def)
  obtain db' where db': "serve_node delta k db = Some db'" "cur_serving_requests db' = f [g, b] + delta"
    "0 < cur_serving_requests db' \<longrightarrow> begin_of_serving db' \<noteq> - 1" "d_level db' = d_level db" "d_id db' = d_id db"
    "d_state db' = d_state db" "row_state db' = row_state db" "next_time db' = next_time db" "prev_times db' = prev_times db"
    using s [OF at(3)] by (auto simp: on_way_def)
  let ?t = "DRAM d' (cs[nat g := DRAM dg' (bs[nat b := DRAM db' []])])"
  have "update_serving_requests ?sp t ?a delta k = Some ?t"
    using p gb d'(1) dg'(1) db'(1) assms(4) by (simp add: rd_addr_def)
  moreover have same: "same_timing t ?t"
  proof (rule same_timingI)
    show "timing_view t = timing_view ?t" using p(1) d'(4,5,8,9) by (simp add: timing_view_def)
    fix i assume "i < length (d_children t)"
    have "same_timing (DRAM dg bs) (DRAM dg' (bs[nat b := DRAM db' []]))"
    proof (rule same_timingI)
      show "timing_view (DRAM dg bs) = timing_view (DRAM dg' (bs[nat b := DRAM db' []]))" using dg'(4,5,8,9) by (simp add: timing_view_def)
      fix j assume "j < length (d_children (DRAM dg bs))"
      have "same_timing (DRAM db []) (DRAM db' [])" by (rule same_timingI) (use db'(4,5,8,9) in \<open>simp_all add: timing_view_def\<close>)
      then show "same_timing (d_children (DRAM dg bs) ! j) (d_children (DRAM dg' (bs[nat b := DRAM db' []])) ! j)"
        using gb by (cases "j = nat b") simp_all
    qed
    then show "same_timing (d_children t ! i) (d_children ?t ! i)" using p(1) gb by (cases "i = nat g") simp_all
  qed
  moreover have same': "same_timing ?t t" using same by (simp add: same_timing_def)
  have sh: "vault_shape org ?t" by (rule same_timing_shape [OF same' ok(2)])
  have gr: "d_children ?t ! nat g' = (if g' = g then DRAM dg' (bs[nat b := DRAM db' []]) else cs ! nat g')" if "0 \<le> g'" for g'
    using that gb by (auto simp: nat_eq_iff)
  have bk: "bank_of ?t g' b' = (if (g', b') = (g, b) then DRAM db' [] else bank_of t g' b')" if "bank_in org g' b'" for g' b'
    using that gb p(1) gr [of g'] by (auto simp: bank_of_def bank_in_def nat_eq_iff)
  have "bank_is (bank_of ?t g' b') (R (g', b'))" if x: "bank_in org g' b'" for g' b'
  proof -
    have "bank_is (bank_of t g' b') (R (g', b'))" using assms(1) x unfolding vault_inv_def by (blast intro: vault_is_bank)
    then show ?thesis using bk [OF x] p(4) db'(6,7) by (auto simp: bank_is_def split: option.splits)
  qed
  then have "vault_is org ?t R"
    using assms(1) same_timing_tree_ok [OF same ok(1)] sh d'(6) p(1) by (simp add: vault_inv_def vault_is_def del: tree_ok.simps)
  then have "vault_inv org speed us B ?t R"
    unfolding vault_inv_def
  proof (intro conjI allI impI)
    show "device_ok ?sp 3 us ?t" by (rule hmc.device_ok_same [OF _ same']) (use assms(1) in \<open>simp add: vault_inv_def\<close>)
    fix q n x assume n: "node_at q ?t = Some n"
    obtain n0 where n0: "node_at q t = Some n0" "timing_view n0 = timing_view n" by (rule same_timing_node [OF same n])
    have "- 1 \<le> next_time (d_info n0) x \<and> next_time (d_info n0) x \<le> B" using assms(1) n0(1) unfolding vault_inv_def by blast
    then show "- 1 \<le> next_time (d_info n) x" "next_time (d_info n) x \<le> B" using n0(2) by (simp_all add: timing_view_def)
  qed
  moreover have "serving_ok ?t (\<lambda>p. f p + (if on_way g b p then delta else 0))"
    unfolding serving_ok_def
  proof (intro allI impI)
    fix q n assume n: "node_at q ?t = Some n"
    consider (root) "q = []" "n = ?t" | (group) g' where "q = [g']" "0 \<le> g'" "nat g' < bankgroups org" "n = d_children ?t ! nat g'"
      | (bank) g' b' where "q = [g', b']" "bank_in org g' b'" "n = bank_of ?t g' b'"
      using n unfolding vault_paths [OF sh] by (auto split: list.splits if_splits)
    then show "cur_serving_requests (d_info n) = f q + (if on_way g b q then delta else 0) \<and>
      (0 < f q + (if on_way g b q then delta else 0) \<longrightarrow> begin_of_serving (d_info n) \<noteq> - 1)"
    proof cases
      case root
      then show ?thesis using d'(2,3) by (simp add: on_way_def)
    next
      case group
      then have "node_at [g'] t = Some (cs ! nat g')" using p(1) shape_root [OF ok(2)] by (simp add: child_def)
      then show ?thesis using group dg'(2,3) gr [of g'] sv [of "[g']"] by (auto simp: on_way_def)
    next
      case bank
      then have "node_at [g', b'] t = Some (bank_of t g' b')" using vault_paths [OF ok(2), of "[g', b']"] by simp
      then show ?thesis using bank db'(2,3) bk [of g' b'] sv [of "[g', b']"] by (auto simp: on_way_def)
    qed
  qed
  moreover have "d_id (d_info ?t) = v" using d'(5) p(1) assms(4) by simp
  ultimately show ?thesis by blast
qed

end
