(* ===== verification/Vault_Scheduler.thy ===== *)
theory Vault_Scheduler
  imports Vault_Device
begin

text \<open>
  What the request scheduler of a vault chooses (\<^verbatim>\<open>Scheduler::get_head\<close>).  On a queue whose requests can be
  examined it returns without changing the controller.  With the default policy it takes the oldest request that is ready and
  hits an open row; if there is none, it never closes a row that another request of the queue would hit.
\<close>

subsection \<open>Requests that can be examined\<close>

definition query_ok :: "Controller \<Rightarrow> Request \<Rightarrow> bool" where
  "query_ok c r \<longleftrightarrow> is_ready c r \<noteq> None \<and> is_row_hit c r \<noteq> None \<and> is_row_open c r \<noteq> None"

abbreviation ready :: "Controller \<Rightarrow> Request \<Rightarrow> bool" where "ready c r \<equiv> is_ready c r = Some True"
abbreviation hits :: "Controller \<Rightarrow> Request \<Rightarrow> bool" where "hits c r \<equiv> is_row_hit c r = Some True"
abbreviation opens :: "Controller \<Rightarrow> Request \<Rightarrow> bool" where "opens c r \<equiv> is_row_open c r = Some True"

lemma query_SomeD:
  assumes "query_ok c r"
  shows "is_ready c r = Some (ready c r)" "is_row_hit c r = Some (hits c r)" "is_row_open c r = Some (opens c r)"
  using assms by (auto simp: query_ok_def)

text \<open>The test that the policies without a cap apply.\<close>
definition prefers :: "SchedType \<Rightarrow> Controller \<Rightarrow> Request \<Rightarrow> bool" where
  "prefers type c r \<longleftrightarrow> (case type of FCFS \<Rightarrow> True | FRFCFS_PriorHit \<Rightarrow> ready c r \<and> hits c r | _ \<Rightarrow> ready c r)"

text \<open>\<open>better type c r s\<close>: \<open>r\<close> is at least as good as \<open>s\<close>.\<close>
definition better :: "SchedType \<Rightarrow> Controller \<Rightarrow> Request \<Rightarrow> Request \<Rightarrow> bool" where
  "better type c r s \<longleftrightarrow> (prefers type c s \<longrightarrow> prefers type c r) \<and>
     (prefers type c r = prefers type c s \<longrightarrow> arrive r \<le> arrive s)"

lemma better_refl [simp]: "better type c r r"
  by (simp add: better_def)

lemma better_trans: "better type c r s \<Longrightarrow> better type c s u \<Longrightarrow> better type c r u"
  by (auto simp: better_def)

lemma compare_ok:
  assumes "type \<noteq> FRFCFS_Cap" and "query_ok c (q ! i)" and "query_ok c (q ! j)"
  shows "\<exists>k. compare type q i j c = Some (k, c) \<and> (k = i \<or> k = j) \<and> better type c (q ! k) (q ! i) \<and> better type c (q ! k) (q ! j)"
proof -
  have r: "ready_for type r c = Some (prefers type c r, c)" if "query_ok c r" for r
    using assms(1) that by (cases type) (auto simp: query_ok_def ready_for_def prefers_def)
  show ?thesis using assms r by (cases "type = FCFS") (auto simp: compare_def better_def prefers_def)
qed

lemma best_ok:
  assumes "type \<noteq> FRFCFS_Cap" and "\<forall>r \<in> set q. query_ok c r" and "q \<noteq> []"
  shows "\<exists>i. best type q c = Some (i, c) \<and> i < length q \<and> (\<forall>j < length q. better type c (q ! i) (q ! j))"
proof -
  have "\<exists>i. fold_opt (\<lambda>j (i, c). compare type q i j c) [1..<n] (0, c) = Some (i, c) \<and> i < n \<and> (\<forall>j < n. better type c (q ! i) (q ! j))"
    if "1 \<le> n" "n \<le> length q" for n
    using that
  proof (induction n rule: nat_induct_at_least)
    case (Suc n)
    then obtain i where i: "fold_opt (\<lambda>j (i, c). compare type q i j c) [1..<n] (0, c) = Some (i, c)" "i < n"
      "\<forall>j < n. better type c (q ! i) (q ! j)" by auto
    have "query_ok c (q ! i)" "query_ok c (q ! n)" using assms(2) i(2) Suc(3) by auto
    from compare_ok [OF assms(1) this] obtain k where
      k: "compare type q i n c = Some (k, c)" "k = i \<or> k = n" "better type c (q ! k) (q ! i)" "better type c (q ! k) (q ! n)" by blast
    have "better type c (q ! k) (q ! j)" if "j < Suc n" for j
      using that i(3) k(3,4) better_trans by (cases "j = n") (auto simp: less_Suc_eq)
    then show ?case using Suc(1) i(1,2) k(1,2) by (auto simp: fold_opt_append)
  qed auto
  from this [of "length q"] assms(3) show ?thesis by (cases q) (auto simp: best_def)
qed

subsection \<open>The second choice\<close>

lemma hit_reqs_ok:
  assumes "\<forall>r \<in> set q. query_ok c r"
  shows "\<exists>gs. hit_reqs q c = Some gs \<and> set gs = rowgroup ` {r \<in> set q. hits c r}"
proof -
  have "\<exists>gs'. fold_opt (\<lambda>r gs. do { h \<leftarrow> is_row_hit c r; Some (if h then gs @ [rowgroup r] else gs) }) q gs = Some gs' \<and>
    set gs' = set gs \<union> rowgroup ` {r \<in> set q. hits c r}" for gs
    using assms
  proof (induction q arbitrary: gs)
    case (Cons r q)
    then have "is_row_hit c r = Some (hits c r)" using query_SomeD by simp
    then show ?case using Cons(1) [of "if hits c r then gs @ [rowgroup r] else gs"] Cons(2) by (cases "hits c r") auto
  qed simp
  from this [of "[]"] show ?thesis by (simp add: hit_reqs_def)
qed

text \<open>Serving \<open>r\<close> now would close a row that a request of the queue hits.\<close>
definition violates :: "Request list \<Rightarrow> Controller \<Rightarrow> Request \<Rightarrow> bool" where
  "violates q c r \<longleftrightarrow> \<not> hits c r \<and> opens c r \<and> (\<exists>s \<in> set q. hits c s \<and> rowgroup s = rowgroup r)"

lemma pick_ok:
  assumes "\<forall>r \<in> set q. query_ok c r" and "set gs = rowgroup ` {r \<in> set q. hits c r}"
  shows "\<exists>h. fold_opt (pick_step gs q) [0..<length q] (None, c) = Some (h, c) \<and> (h = None \<longrightarrow> (\<forall>r \<in> set q. violates q c r)) \<and>
    (\<forall>i. h = Some i \<longrightarrow> i < length q \<and> \<not> violates q c (q ! i) \<and>
      (\<forall>j < length q. \<not> violates q c (q ! j) \<longrightarrow> better FRFCFS c (q ! i) (q ! j)))"
proof -
  have v: "violates_hit gs r c = Some (violates q c r)" if "r \<in> set q" for r
  proof -
    have "query_ok c r" using assms(1) that by blast
    then obtain x y where "is_row_hit c r = Some x" "is_row_open c r = Some y" by (auto simp: query_ok_def)
    then show ?thesis using assms(2) that by (auto simp: violates_hit_def violates_def image_iff)
  qed
  have "\<exists>h. fold_opt (pick_step gs q) [0..<n] (None, c) = Some (h, c) \<and> (h = None \<longrightarrow> (\<forall>j < n. violates q c (q ! j))) \<and>
    (\<forall>i. h = Some i \<longrightarrow> i < n \<and> \<not> violates q c (q ! i) \<and> (\<forall>j < n. \<not> violates q c (q ! j) \<longrightarrow> better FRFCFS c (q ! i) (q ! j)))"
    if "n \<le> length q" for n
    using that
  proof (induction n)
    case (Suc n)
    then obtain h where h: "fold_opt (pick_step gs q) [0..<n] (None, c) = Some (h, c)" "h = None \<longrightarrow> (\<forall>j < n. violates q c (q ! j))"
      "\<forall>i. h = Some i \<longrightarrow> i < n \<and> \<not> violates q c (q ! i) \<and> (\<forall>j < n. \<not> violates q c (q ! j) \<longrightarrow> better FRFCFS c (q ! i) (q ! j))" by auto
    have vn: "violates_hit gs (q ! n) c = Some (violates q c (q ! n))" using v Suc(2) by simp
    show ?case
    proof (cases "violates q c (q ! n)")
      case True
      then have "pick_step gs q n (h, c) = Some (h, c)" using vn by (simp add: pick_step_def)
      then show ?thesis using h True by (intro exI [of _ h]) (auto simp: fold_opt_append less_Suc_eq)
    next
      case F: False
      show ?thesis
      proof (cases h)
        case None
        then have "pick_step gs q n (h, c) = Some (Some n, c)" using vn F by (simp add: pick_step_def)
        then show ?thesis using h F None by (intro exI [of _ "Some n"]) (auto simp: fold_opt_append less_Suc_eq)
      next
        case (Some i)
        have i: "i < n" "\<not> violates q c (q ! i)" "\<forall>j < n. \<not> violates q c (q ! j) \<longrightarrow> better FRFCFS c (q ! i) (q ! j)" using h(3) Some by auto
        have "query_ok c (q ! i)" "query_ok c (q ! n)" using assms(1) i(1) Suc(2) by auto
        from compare_ok [of FRFCFS, OF _ this] obtain k where
          k: "compare FRFCFS q i n c = Some (k, c)" "k = i \<or> k = n" "better FRFCFS c (q ! k) (q ! i)" "better FRFCFS c (q ! k) (q ! n)" by auto
        have "better FRFCFS c (q ! k) (q ! j)" if "j < Suc n" "\<not> violates q c (q ! j)" for j
          using that i(3) k(3,4) better_trans by (cases "j = n") (auto simp: less_Suc_eq)
        moreover have "pick_step gs q n (h, c) = Some (Some k, c)" using vn F Some k(1) by (simp add: pick_step_def)
        ultimately show ?thesis using h(1) F i(1,2) k(2)
          by (intro exI [of _ "Some k"]) (auto simp: fold_opt_append)
      qed
    qed
  qed simp
  from this [of "length q"] show ?thesis by (simp add: all_set_conv_all_nth)
qed

subsection \<open>The choice\<close>

lemma get_head_ok:
  assumes "sched_type c \<noteq> FRFCFS_Cap" and "\<forall>r \<in> set q. query_ok c r"
  shows "\<exists>h. sched_get_head q c = Some (h, c) \<and> (\<forall>i. h = Some i \<longrightarrow> i < length q)"
proof (cases "q = []")
  case False
  obtain i where i: "best (sched_type c) q c = Some (i, c)" "i < length q" using best_ok [OF assms False] by blast
  have qi: "query_ok c (q ! i)" using assms(2) i(2) by simp
  obtain gs where gs: "hit_reqs q c = Some gs" "set gs = rowgroup ` {r \<in> set q. hits c r}" using hit_reqs_ok [OF assms(2)] by blast
  obtain h where "fold_opt (pick_step gs q) [0..<length q] (None, c) = Some (h, c)" "\<forall>i. h = Some i \<longrightarrow> i < length q"
    using pick_ok [OF assms(2) gs(2)] by blast
  moreover obtain x y where "is_ready c (q ! i) = Some x" "is_row_hit c (q ! i) = Some y" using qi by (auto simp: query_ok_def)
  ultimately show ?thesis using i False gs(1) by (cases x; cases y) (auto simp: sched_get_head_def)
qed (simp add: sched_get_head_def)

end
