(* ===== verification/Vault_Invariant.thy ===== *)
theory Vault_Invariant
  imports Vault_Scheduler "HOL-Library.Multiset"
begin

text \<open>
  The invariant of a vault controller and that its parts keep it: the table of open rows agrees with the banks, every queued
  request is one that can be served, the packet of every request in flight is kept, the device counts the
  requests being served, and a refresh is never waiting long.
\<close>

subsection \<open>Rows\<close>

text \<open>The row table lists the open rows.\<close>
definition rows_ok :: "int \<Rightarrow> open_rows \<Rightarrow> row_table \<Rightarrow> bool" where
  "rows_ok v R tbl \<longleftrightarrow> rowtable_ok tbl \<and> (\<forall>g b. map_option re_row (map_of tbl [v, g, b]) = R (g, b)) \<and>
     (\<forall>k \<in> fst ` set tbl. \<exists>g b. k = [v, g, b])"

text \<open>The commands that a decoded request asks for.\<close>
definition due_cmd :: "Org \<Rightarrow> int \<Rightarrow> open_rows \<Rightarrow> HmcCommand \<Rightarrow> int list \<Rightarrow> bool" where
  "due_cmd org v R cmd addr \<longleftrightarrow>
     (\<exists>g b r c. addr = [v, g, b, r, c] \<and> bank_in org g b \<and>
        (cmd = ACT \<and> R (g, b) = None \<or> cmd = PRE \<and> R (g, b) \<noteq> None \<or> (cmd = RD \<or> cmd = WR) \<and> R (g, b) = Some r)) \<or>
     (cmd = PREA \<and> R \<noteq> (\<lambda>_. None) \<or> cmd = REF) \<and> addr = ref_addr v"

lemma due_legal: "due_cmd org v R cmd addr \<Longrightarrow> legal_cmd org v R cmd addr"
  by (auto simp: due_cmd_def legal_cmd_def)

lemma rt_update_due:
  assumes "rows_ok v R tbl" and "due_cmd org v R cmd addr"
  shows "\<exists>tbl'. rt_update cmd addr k tbl = Some tbl' \<and> rows_ok v (row_effect cmd addr R) tbl'"
proof -
  have T: "rowtable_ok tbl" and M: "\<And>g b. map_option re_row (map_of tbl [v, g, b]) = R (g, b)"
    and K: "\<And>k. k \<in> fst ` set tbl \<Longrightarrow> \<exists>g b. k = [v, g, b]" using assms(1) by (auto simp: rows_ok_def)
  have dom: "(k \<in> fst ` set t) = (map_of t k \<noteq> None)" for k and t :: row_table by (simp add: map_of_eq_None_iff)
  consider (act) g b r c where "cmd = ACT" "addr = [v, g, b, r, c]" "R (g, b) = None"
    | (pre) g b r c r' where "cmd = PRE" "addr = [v, g, b, r, c]" "R (g, b) = Some r'"
    | (access) g b r c where "cmd = RD \<or> cmd = WR" "addr = [v, g, b, r, c]" "R (g, b) = Some r"
    | (prea) "cmd = PREA" "addr = ref_addr v" "R \<noteq> (\<lambda>_. None)"
    | (refr) "cmd = REF" "addr = ref_addr v"
    using assms(2) unfolding due_cmd_def by auto
  then show ?thesis
  proof cases
    case act
    then have "map_of tbl (take Row addr) = None" using M [of g b] by simp
    from rt_update_open [OF T _ this, of k] act obtain tbl' where t: "rt_update ACT addr k tbl = Some tbl'" "rowtable_ok tbl'"
      "map_of tbl' = (map_of tbl)([v, g, b] \<mapsto> \<lparr>re_row = r, re_hits = 0, re_timestamp = k\<rparr>)" by auto
    have "\<exists>g b. x = [v, g, b]" if "x \<in> fst ` set tbl'" for x using that K [of x] by (auto simp: dom t(3) split: if_splits)
    then show ?thesis using t act M by (auto simp: rows_ok_def row_effect_def)
  next
    case pre
    have n: "Suc (hmc_scope cmd) = 3" using pre by simp
    have "\<exists>x \<in> fst ` set tbl. take (Suc (hmc_scope cmd)) x = take (Suc (hmc_scope cmd)) addr"
      using M [of g b] pre by (intro bexI [of _ "[v, g, b]"]) (auto simp: dom)
    from rt_update_close [OF T _ _ this, of k] pre obtain tbl' where t: "rt_update PRE addr k tbl = Some tbl'" "rowtable_ok tbl'"
      "\<forall>x. map_of tbl' x = (if take 3 x = [v, g, b] then None else map_of tbl x)" by auto
    have "\<exists>g b. x = [v, g, b]" if "x \<in> fst ` set tbl'" for x using that K [of x] by (auto simp: dom t(3) split: if_splits)
    then show ?thesis using t pre M by (auto simp: rows_ok_def row_effect_def)
  next
    case access
    obtain e where e: "map_of tbl (take Row addr) = Some e" "re_row e = addr ! Row" using M [of g b] access by auto
    from rt_update_access [OF T _ e access(1), of k] access obtain tbl' e' where t: "rt_update cmd addr k tbl = Some tbl'" "rowtable_ok tbl'"
      "map_of tbl' = (map_of tbl)([v, g, b] \<mapsto> e')" "re_row e' = re_row e" by auto
    have "\<exists>g b. x = [v, g, b]" if "x \<in> fst ` set tbl'" for x using that K [of x] by (auto simp: dom t(3) split: if_splits)
    moreover have "map_option re_row (map_of tbl' [v, g', b']) = R (g', b')" for g' b'
      using M [of g' b'] t(3,4) e access(2) by auto
    ultimately show ?thesis using t access(1) by (auto simp: rows_ok_def row_effect_def)
  next
    case prea
    then obtain g b where gb: "R (g, b) \<noteq> None" by (auto simp: fun_eq_iff)
    have "\<exists>x \<in> fst ` set tbl. take (Suc (hmc_scope cmd)) x = take (Suc (hmc_scope cmd)) addr"
      using M [of g b] gb prea by (intro bexI [of _ "[v, g, b]"]) (auto simp: dom)
    from rt_update_close [OF T _ _ this, of k] prea obtain tbl' where t: "rt_update PREA addr k tbl = Some tbl'" "rowtable_ok tbl'"
      "\<forall>x. map_of tbl' x = (if take 1 x = [v] then None else map_of tbl x)" by auto
    have "x \<notin> fst ` set tbl'" for x
    proof
      assume "x \<in> fst ` set tbl'"
      then have "map_of tbl x \<noteq> None" "take 1 x \<noteq> [v]" using t(3) by (auto simp only: dom split: if_splits)
      moreover from this(1) obtain g b where "x = [v, g, b]" using K [of x] unfolding dom by blast
      ultimately show False by simp
    qed
    then show ?thesis using t prea by (auto simp: rows_ok_def row_effect_def)
  next
    case refr
    then show ?thesis using rt_update_other [of addr REF k tbl] assms(1) by (simp add: row_effect_def)
  qed
qed

subsection \<open>The device and the row table\<close>

abbreviation vault_id :: "Controller \<Rightarrow> int" where
  "vault_id c \<equiv> d_id (d_info (channel c))"

definition dev_ok :: "(HmcCommand \<times> int list \<times> int) list \<Rightarrow> open_rows \<Rightarrow> int \<Rightarrow> Controller \<Rightarrow> bool" where
  "dev_ok us R B c \<longleftrightarrow> vault_inv (c_org c) (c_speed c) us B (channel c) R \<and> (\<forall>(x, a, k) \<in> set us. k \<le> clk c) \<and> 0 \<le> clk c \<and>
     rows_ok (vault_id c) R (rowtable c) \<and> \<not> no_DRAM_latency c \<and> cmd_trace c = us \<and> timing_legal (std c) 3 us"

lemma due_respects:
  assumes "vault_inv org speed us B t R" and "due_cmd org (d_id (d_info t)) R cmd addr" and "0 \<le> k"
    and "check (hmc_standard org speed) t cmd addr k = Some True"
  shows "timely (hmc_standard org speed) 3 us (cmd, addr, k)"
proof -
  have dev: "device_ok (hmc_standard org speed) 3 us t" and sh: "vault_shape org t"
    using assms(1) by (simp_all add: vault_inv_def vault_is_def)
  obtain as where as: "addr = d_id (d_info t) # as" "length as = 4" using assms(2) by (auto simp: due_cmd_def)
  show ?thesis
  proof (rule hmc.ready_respects [OF dev assms(4,3) as(1)])
    fix l assume l: "l < 3" "l \<le> scope (hmc_standard org speed) cmd"
    have "l = 0 \<or> l = 1 \<or> l = 2" using l(1) by auto
    moreover have "l = 0 \<or> (\<exists>g b x y. as = [g, b, x, y] \<and> bank_in org g b)"
      using assms(2) as(1) l(2) by (auto simp: due_cmd_def hmc_standard_def)
    ultimately show "l \<le> length as \<and> node_at (take l as) t \<noteq> None"
      by (elim disjE exE conjE) (simp_all add: vault_paths [OF sh], simp_all add: bank_in_def)
  qed
qed

lemma issue_cmd_ok:
  assumes "dev_ok us R B c" and "due_cmd (c_org c) (vault_id c) R cmd addr" and "is_ready_cmd c cmd addr = Some True"
  shows "\<exists>t tbl. let c' = c\<lparr>channel := t, rowtable := tbl, cmd_trace := us @ [(cmd, addr, clk c)]\<rparr> in issue_cmd cmd addr c = Some c' \<and>
    (\<forall>B. dev_ok us R B c \<longrightarrow> dev_ok (us @ [(cmd, addr, clk c)]) (row_effect cmd addr R) (max B (clk c + 200)) c') \<and>
    same_serving (channel c) t \<and> d_id (d_info t) = vault_id c"
proof -
  let ?us = "us @ [(cmd, addr, clk c)]"
  have inv: "vault_inv (c_org c) (c_speed c) us B (channel c) R" "\<forall>(x, a, k) \<in> set us. k \<le> clk c" "0 \<le> clk c" "cmd_trace c = us"
    using assms(1) by (simp_all add: dev_ok_def)
  obtain t where t: "d_update (std c) (channel c) cmd addr (clk c) = Some t"
    "same_serving (channel c) t" "d_id (d_info t) = vault_id c"
    using d_update_vault [OF inv(1,3,2) due_legal [OF assms(2)]] by blast
  have t': "vault_inv (c_org c) (c_speed c) ?us (max B' (clk c + 200)) t (row_effect cmd addr R)"
    if "vault_inv (c_org c) (c_speed c) us B' (channel c) R" for B'
    using d_update_vault [OF that inv(3,2) due_legal [OF assms(2)]] t(1) by auto
  obtain tbl where tbl: "rt_update cmd addr (clk c) (rowtable c) = Some tbl" "rows_ok (vault_id c) (row_effect cmd addr R) tbl"
    using rt_update_due [OF _ assms(2), of "rowtable c" "clk c"] assms(1) by (auto simp: dev_ok_def)
  have "timing_legal (std c) 3 ?us"
    using due_respects [OF inv(1) assms(2) inv(3)] assms(1,3) by (simp add: timing_legal_snoc is_ready_cmd_def dev_ok_def)
  moreover have "issue_cmd cmd addr c = Some (c\<lparr>channel := t, rowtable := tbl, cmd_trace := ?us\<rparr>)"
    using assms(1,3) t(1) tbl(1) by (simp add: issue_cmd_def dev_ok_def)
  ultimately show ?thesis using t t' tbl assms(1) unfolding Let_def by (intro exI [of _ t] exI [of _ tbl]) (auto simp: dev_ok_def)
qed

subsection \<open>Requests\<close>

text \<open>A read or write of this vault.\<close>
definition access_req :: "Org \<Rightarrow> int \<Rightarrow> Request \<Rightarrow> bool" where
  "access_req org v r \<longleftrightarrow> (req_type r = READ \<or> req_type r = WRITE) \<and>
     (\<exists>g b row col. addr_vec r = [v, g, b, row, col] \<and> bank_in org g b)"

definition refresh_req :: "int \<Rightarrow> Request \<Rightarrow> bool" where
  "refresh_req v r \<longleftrightarrow> req_type r = REFRESH \<and> addr_vec r = ref_addr v \<and> burst_count r = 0"

lemma vault_inv_is: "vault_inv org speed us B t R \<Longrightarrow> vault_is org t R"
  by (simp add: vault_inv_def)

text \<open>The first command of a read or write.\<close>
definition access_cmd :: "open_rows \<Rightarrow> Request \<Rightarrow> HmcCommand" where
  "access_cmd R r = (case R (addr_vec r ! 1, addr_vec r ! 2) of
     None \<Rightarrow> ACT | Some r' \<Rightarrow> if r' = addr_vec r ! 3 then hmc_translate (req_type r) else PRE)"

lemma access_queries:
  assumes "dev_ok us R B c" and "access_req (c_org c) (vault_id c) r"
  shows "query_ok c r" and "get_first_cmd c r = Some (access_cmd R r)" and "due_cmd (c_org c) (vault_id c) R (access_cmd R r) (addr_vec r)"
proof -
  have vis: "vault_is (c_org c) (channel c) R" using assms(1) vault_inv_is by (simp add: dev_ok_def) blast
  obtain g b row col where a: "addr_vec r = [vault_id c, g, b, row, col]" "bank_in (c_org c) g b"
    and ty: "hmc_translate (req_type r) = RD \<or> hmc_translate (req_type r) = WR"
    using assms(2) by (auto simp: access_req_def)
  let ?cmd = "access_cmd R r"
  show f: "get_first_cmd c r = Some ?cmd"
    using decode_access [OF vis a(2) ty] a(1) assms(1) by (simp add: get_first_cmd_def dev_ok_def access_cmd_def split: option.split)
  have "tree_ok 0 (channel c)" "vault_shape (c_org c) (channel c)" using vis by (simp_all add: vault_is_def)
  from check_bank_total [OF this a(2)]
  obtain x where "check (std c) (channel c) ?cmd [vault_id c, g, b, row, col] (clk c) = Some x" by blast
  then show "query_ok c r"
    using f a row_hit_iff [OF vis a(2) ty] by (simp add: query_ok_def is_ready_def is_ready_cmd_def is_row_hit_def is_row_open_def)
  show "due_cmd (c_org c) (vault_id c) R ?cmd (addr_vec r)"
    using a ty by (auto simp: due_cmd_def access_cmd_def split: option.splits)
qed

lemma refresh_queries:
  assumes "dev_ok us R B c" and "refresh_req (vault_id c) r"
  shows "query_ok c r" and "get_first_cmd c r = Some (if R = (\<lambda>_. None) then REF else PREA)" and "\<not> hits c r" and "\<not> opens c r"
    and "is_ready c r = Some (\<not> (next_time (d_info (channel c)) (if R = (\<lambda>_. None) then REF else PREA) \<noteq> - 1 \<and>
      clk c < next_time (d_info (channel c)) (if R = (\<lambda>_. None) then REF else PREA)))"
proof -
  have vis: "vault_is (c_org c) (channel c) R" using assms(1) vault_inv_is by (simp add: dev_ok_def) blast
  have a: "addr_vec r = ref_addr (vault_id c)" "hmc_translate (req_type r) = REF" using assms(2) by (simp_all add: refresh_req_def)
  note q = vault_refresh_queries [OF vis]
  show f: "get_first_cmd c r = Some (if R = (\<lambda>_. None) then REF else PREA)"
    using assms(1) a q(1) by (simp add: get_first_cmd_def dev_ok_def)
  show rd: "is_ready c r = Some (\<not> (next_time (d_info (channel c)) (if R = (\<lambda>_. None) then REF else PREA) \<noteq> - 1 \<and>
      clk c < next_time (d_info (channel c)) (if R = (\<lambda>_. None) then REF else PREA)))"
    using f a(1) q(4) by (simp add: is_ready_def is_ready_cmd_def)
  show "query_ok c r" "\<not> hits c r" "\<not> opens c r"
    using rd a q(2,3) by (simp_all add: query_ok_def is_row_hit_def is_row_open_def)
qed

subsection \<open>The invariant\<close>

text \<open>The requests accepted and not yet answered.\<close>
definition flight :: "Controller \<Rightarrow> Request multiset" where
  "flight c = mset (readq c) + mset (writeq c) + mset (pending c)"

definition req_on_way :: "int list \<Rightarrow> Request \<Rightarrow> bool" where
  "req_on_way p r \<longleftrightarrow> on_way (addr_vec r ! 1) (addr_vec r ! 2) p"

text \<open>The requests that have issued a command, per node they go through.\<close>
definition load :: "Controller \<Rightarrow> int list \<Rightarrow> int" where
  "load c p = int (size {#r \<in># flight c. \<not> is_first_command r \<and> req_on_way p r#})"

definition answered :: "Controller \<Rightarrow> int list" where
  "answered c = map (\<lambda>p. reqid (the (packet_req p))) (response_packets_buffer c) @ map reqid (to_pu c)"

definition good_packet :: "Packet \<Rightarrow> bool" where
  "good_packet p \<longleftrightarrow> (\<exists>cub tag slid cmd. CUB (header p) = Some cub \<and> TAG (header p) = Some tag \<and> tail_SLID (tail p) = Some slid \<and>
     CMD (header p) = Some cmd \<and> field_value cub < 2 ^ cub_bits \<and> field_value tag < 2 ^ tag_bits \<and> field_value slid < 2 ^ slid_bits)"

definition config_ok :: "Controller \<Rightarrow> bool" where
  "config_ok c \<longleftrightarrow> \<not> no_DRAM_latency c \<and> policy_type c = PolicyOpened \<and> sched_type c \<noteq> FRFCFS_Cap \<and> 1 < c_read_latency c \<and>
     1 \<le> c_burst_count c"

definition queued_ok :: "Controller \<Rightarrow> ReqType \<Rightarrow> Request \<Rightarrow> bool" where
  "queued_ok c ty r \<longleftrightarrow> req_type r = ty \<and> access_req (c_org c) (vault_id c) r \<and> 1 \<le> burst_count r \<and> arrive r \<le> clk c"

definition pending_ok :: "Controller \<Rightarrow> Request \<Rightarrow> bool" where
  "pending_ok c r \<longleftrightarrow> req_type r = READ \<and> access_req (c_org c) (vault_id c) r \<and>
     (is_first_command r \<longleftrightarrow> \<not> 1 < depart r - arrive r)"

definition queues_ok :: "Controller \<Rightarrow> bool" where
  "queues_ok c \<longleftrightarrow> (\<forall>r \<in> set (readq c). queued_ok c READ r) \<and> (\<forall>r \<in> set (writeq c). queued_ok c WRITE r) \<and>
     (\<forall>r \<in> set (otherq c). refresh_req (vault_id c) r) \<and> (\<forall>r \<in> set (pending c). pending_ok c r)"

definition packets_ok :: "int list \<Rightarrow> Controller \<Rightarrow> bool" where
  "packets_ok acc c \<longleftrightarrow> distinct acc \<and> image_mset reqid (flight c) + mset (answered c) = mset acc \<and>
     (\<forall>r \<in># flight c. \<exists>p. incoming_packets_buffer c (reqid r) = Some p \<and> good_packet p)"

text \<open>A refresh waits at most 200 cycles for the banks to be closed, and at most 200 more to be issued.\<close>
definition refresh_wait :: "open_rows \<Rightarrow> int" where
  "refresh_wait R = (if R = (\<lambda>_. None) then 400 else 200)"

text \<open>In the middle of a cycle one more cycle may have passed.\<close>
definition refresh_ok :: "(HmcCommand \<times> int list \<times> int) list \<Rightarrow> open_rows \<Rightarrow> int \<Rightarrow> Controller \<Rightarrow> bool" where
  "refresh_ok us R slack c \<longleftrightarrow> (otherq c \<noteq> [] \<longrightarrow>
     length (otherq c) = 1 \<and> clk c < refreshed c + refresh_wait R + slack \<and> dev_ok us R (refreshed c + refresh_wait R) c)"

definition ctrl_inv :: "(HmcCommand \<times> int list \<times> int) list \<Rightarrow> int list \<Rightarrow> open_rows \<Rightarrow> Controller \<Rightarrow> bool" where
  "ctrl_inv us acc R c \<longleftrightarrow> config_ok c \<and> dev_ok us R (clk c + 200) c \<and> queues_ok c \<and> packets_ok acc c \<and>
     serving_ok (channel c) (load c)"

text \<open>When the last refresh was issued: since the last request for one, or at most one interval before it.\<close>
definition refresh_hist :: "(HmcCommand \<times> int list \<times> int) list \<Rightarrow> int \<Rightarrow> Controller \<Rightarrow> bool" where
  "refresh_hist us slack c \<longleftrightarrow> (\<exists>k. (k = 0 \<or> (REF, ref_addr (vault_id c), k) \<in> set us) \<and> k \<le> clk c \<and> refreshed c \<le> clk c \<and>
     refreshed c \<le> k + (if otherq c = [] then 0 else 9750) \<and> clk c < refreshed c + 9750 + slack)"

definition ctrl_ok :: "(HmcCommand \<times> int list \<times> int) list \<Rightarrow> int list \<Rightarrow> open_rows \<Rightarrow> Controller \<Rightarrow> bool" where
  "ctrl_ok us acc R c \<longleftrightarrow> ctrl_inv us acc R c \<and> refresh_ok us R 0 c \<and> refresh_hist us 0 c \<and> refresh_clk c = clk c"

subsection \<open>Arrival\<close>

text \<open>A packet that the vault may be sent: a new read or write of it.\<close>
definition packet_ok :: "Org \<Rightarrow> int \<Rightarrow> Packet \<Rightarrow> bool" where
  "packet_ok org v p \<longleftrightarrow> packet_type p = PREQUEST \<and> good_packet p \<and>
     (\<exists>r. packet_req p = Some r \<and> access_req org v r \<and> is_first_command r)"

definition packet_id :: "Packet \<Rightarrow> int" where
  "packet_id p = reqid (the (packet_req p))"

lemma distinct_flight: "packets_ok acc c \<Longrightarrow> r \<in># flight c \<Longrightarrow> s \<in># flight c - {#r#} \<Longrightarrow> reqid s \<noteq> reqid r"
proof
  assume *: "packets_ok acc c" "r \<in># flight c" "s \<in># flight c - {#r#}" "reqid s = reqid r"
  obtain M1 where M1: "flight c = add_mset r M1" using multi_member_split [OF *(2)] by blast
  obtain M where M: "M1 = add_mset s M" using *(3) multi_member_split [of s M1] by (auto simp: M1)
  have "mset acc = add_mset (reqid r) (add_mset (reqid r) (image_mset reqid M + mset (answered c)))"
    using *(1,4) M M1 by (simp add: packets_ok_def)
  then have "2 \<le> count (mset acc) (reqid r)" by simp
  moreover have "count (mset acc) (reqid r) \<le> 1"
    using distinct_count_atmost_1 [of acc] *(1) unfolding packets_ok_def by (cases "reqid r \<in> set acc") auto
  ultimately show False by simp
qed

lemma load_add:
  "flight c' = add_mset r (flight c) \<Longrightarrow> load c' p = load c p + (if \<not> is_first_command r \<and> req_on_way p r then 1 else 0)"
  by (simp add: load_def)

lemma get_queue_access: "access_req org v r \<Longrightarrow> get_queue (req_type r) = (if req_type r = READ then ReadQ else WriteQ)"
  by (auto simp: access_req_def get_queue_def)

lemma enqueue_forward:
  assumes "req_type r = READ" and "queue_max \<noteq> length (readq c)" and "\<exists>w \<in> set (writeq c). req_addr r = req_addr w"
  shows "enqueue r c = (True, r\<lparr>arrive := clk c, depart := clk c + 1\<rparr>,
    c\<lparr>pending := pending c @ [r\<lparr>arrive := clk c, depart := clk c + 1\<rparr>], readq := readq c\<rparr>)"
  using assms by (simp add: enqueue_def get_queue_def Let_def)

lemma enqueue_read:
  assumes "req_type r = READ" and "queue_max \<noteq> length (readq c)" and "\<not> (\<exists>w \<in> set (writeq c). req_addr r = req_addr w)"
  shows "enqueue r c = (True, r\<lparr>arrive := clk c\<rparr>, c\<lparr>readq := readq c @ [r\<lparr>arrive := clk c\<rparr>]\<rparr>)"
  using assms by (simp add: enqueue_def get_queue_def Let_def)

lemma enqueue_other:
  assumes "req_type r \<noteq> READ" and "queue_max \<noteq> length (queue (get_queue (req_type r)) c)"
  shows "enqueue r c = (True, r\<lparr>arrive := clk c\<rparr>,
    set_queue (get_queue (req_type r)) (queue (get_queue (req_type r)) c @ [r\<lparr>arrive := clk c\<rparr>]) c)"
  using assms by (simp add: enqueue_def Let_def)

lemma receive_ok:
  assumes "ctrl_ok us acc R c" and "packet_ok (c_org c) (vault_id c) p" and "packet_id p \<notin> set acc"
  shows "\<exists>b c'. receive p c = Some (b, c') \<and> ctrl_ok us (if b then acc @ [packet_id p] else acc) R c' \<and>
    clk c' = clk c \<and> refreshed c' = refreshed c \<and> otherq c' = otherq c \<and> c_org c' = c_org c \<and> c_speed c' = c_speed c \<and> vault_id c' = vault_id c"
proof -
  obtain r where r: "packet_req p = Some r" "access_req (c_org c) (vault_id c) r" "is_first_command r" "packet_type p = PREQUEST" "good_packet p"
    using assms(2) by (auto simp: packet_ok_def)
  let ?r = "r\<lparr>burst_count := c_burst_count c, transaction_bytes := c_payload_flits c * (flit_bits div 8)\<rparr>"
  have id: "packet_id p = reqid r" using r(1) by (simp add: packet_id_def)
  have q: "get_queue (req_type r) = (if req_type r = READ then ReadQ else WriteQ)" by (rule get_queue_access [OF r(2)])
  show ?thesis
  proof (cases "queue_max = length (queue (get_queue (req_type r)) c)")
    case True
    then have "receive p c = Some (False, c)" using r by (simp add: receive_def enqueue_def)
    then show ?thesis using assms(1) by (intro exI [of _ False] exI [of _ c]) simp
  next
    case False
    obtain r2 c1 where e: "enqueue ?r c = (True, r2, c1)" "flight c1 = add_mset r2 (flight c)" "is_first_command r2" "reqid r2 = reqid r"
      "(\<forall>x \<in> set (readq c1). x \<in> set (readq c) \<or> queued_ok c READ x) \<and> (\<forall>x \<in> set (writeq c1). x \<in> set (writeq c) \<or> queued_ok c WRITE x) \<and>
       (\<forall>x \<in> set (pending c1). x \<in> set (pending c) \<or> pending_ok c x)"
      "c1 = c\<lparr>readq := readq c1, writeq := writeq c1, pending := pending c1\<rparr>"
    proof -
      let ?r1 = "?r\<lparr>arrive := clk c\<rparr>" and ?r2 = "?r\<lparr>arrive := clk c, depart := clk c + 1\<rparr>"
      have acc: "access_req (c_org c) (vault_id c) ?r1" "access_req (c_org c) (vault_id c) ?r2" using r(2) by (simp_all add: access_req_def)
      have b: "1 \<le> c_burst_count c" using assms(1) by (simp add: ctrl_ok_def ctrl_inv_def config_ok_def)
      consider (fwd) "req_type r = READ" "\<exists>w \<in> set (writeq c). req_addr r = req_addr w"
        | (rd) "req_type r = READ" "\<not> (\<exists>w \<in> set (writeq c). req_addr r = req_addr w)" | (wr) "req_type r = WRITE"
        using r(2) by (auto simp: access_req_def)
      then show thesis
      proof cases
        case fwd
        let ?c' = "c\<lparr>pending := pending c @ [?r2], readq := readq c\<rparr>"
        have "enqueue ?r c = (True, ?r2, ?c')" using enqueue_forward [of ?r c] fwd False q by simp
        then show thesis by (rule that) (use r(3) fwd(1) acc(2) in \<open>auto simp: flight_def pending_ok_def\<close>)
      next
        case rd
        have "enqueue ?r c = (True, ?r1, c\<lparr>readq := readq c @ [?r1]\<rparr>)" using enqueue_read [of ?r c] rd False q by simp
        then show thesis by (rule that) (use r(3) rd(1) acc(1) b in \<open>auto simp: flight_def queued_ok_def\<close>)
      next
        case wr
        have "enqueue ?r c = (True, ?r1, c\<lparr>writeq := writeq c @ [?r1]\<rparr>)" using enqueue_other [of ?r c] wr False q by simp
        then show thesis by (rule that) (use r(3) wr acc(1) b in \<open>auto simp: flight_def queued_ok_def\<close>)
      qed
    qed
    let ?c = "c1\<lparr>incoming_packets_buffer := (incoming_packets_buffer c1)(reqid r2 \<mapsto> p\<lparr>packet_req := Some r2\<rparr>)\<rparr>"
    have rc: "receive p c = Some (True, ?c)" using r e(1) by (simp add: receive_def)
    obtain rq wq pq where c1: "c1 = c\<lparr>readq := rq, writeq := wq, pending := pq\<rparr>" using e(6) by (rule that)
    have fl: "flight ?c = add_mset r2 (flight c)" using e(2) by (simp add: flight_def)
    have ld: "load ?c = load c" using load_add [OF fl] e(3) by (simp add: fun_eq_iff)
    have g: "good_packet (p\<lparr>packet_req := Some r2\<rparr>)" using r(5) by (simp add: good_packet_def)
    have "packets_ok (acc @ [packet_id p]) ?c"
      using assms(1,3) fl g e(4) id by (auto simp: ctrl_ok_def ctrl_inv_def packets_ok_def answered_def c1)
    moreover have "queues_ok ?c"
      using assms(1) e(5) by (auto simp: ctrl_ok_def ctrl_inv_def queues_ok_def queued_ok_def pending_ok_def c1)
    ultimately have "ctrl_ok us (acc @ [packet_id p]) R ?c"
      using assms(1) ld by (simp add: ctrl_ok_def ctrl_inv_def config_ok_def dev_ok_def refresh_ok_def refresh_hist_def c1)
    then show ?thesis using rc by (intro exI [of _ True] exI [of _ ?c]) (simp add: c1)
  qed
qed

end
