(* ===== verification/Vault_Tick.thy ===== *)
theory Vault_Tick
  imports Vault_Invariant
begin

text \<open>
  A cycle of the vault controller keeps its invariant: the parts of \<open>tick\<close> in the order in which it runs them,
  completion of a read, refresh, and the command issued for a request.
\<close>

subsection \<open>What the parts leave alone\<close>

definition same_conf :: "Controller \<Rightarrow> Controller \<Rightarrow> bool" where
  "same_conf c c' \<longleftrightarrow> c_org c' = c_org c \<and> c_speed c' = c_speed c \<and> vault_id c' = vault_id c \<and> clk c' = clk c \<and>
     refresh_clk c' = refresh_clk c \<and> refreshed c' = refreshed c \<and> otherq c' = otherq c"

text \<open>A step that leaves the device as it is, up to the counters of requests being served.\<close>
definition calm :: "(HmcCommand \<times> int list \<times> int) list \<Rightarrow> open_rows \<Rightarrow> Controller \<Rightarrow> Controller \<Rightarrow> bool" where
  "calm us R c c' \<longleftrightarrow> same_conf c c' \<and> same_timing (channel c) (channel c') \<and> (\<forall>B. dev_ok us R B c \<longrightarrow> dev_ok us R B c')"

lemma calm_refl [simp]: "calm us R c c"
  by (simp add: calm_def same_conf_def)

lemma calm_trans: "calm us R c c' \<Longrightarrow> calm us R c' c'' \<Longrightarrow> calm us R c c''"
  unfolding calm_def same_conf_def using same_timing_trans by auto

lemma calm_refresh:
  "calm us R c c' \<Longrightarrow> refresh_ok us R k c \<Longrightarrow> refresh_ok us R k c'" "calm us R c c' \<Longrightarrow> refresh_hist us k c \<Longrightarrow> refresh_hist us k c'"
  by (auto simp: calm_def same_conf_def refresh_ok_def refresh_hist_def)

text \<open>A change to fields that the device does not depend on.\<close>
lemma calmI:
  "same_conf c c' \<Longrightarrow> channel c' = channel c \<Longrightarrow> rowtable c' = rowtable c \<Longrightarrow> cmd_trace c' = cmd_trace c \<Longrightarrow>
    no_DRAM_latency c' = no_DRAM_latency c \<Longrightarrow> calm us R c c'"
  by (simp add: calm_def same_conf_def dev_ok_def)

lemma dev_ok_mono: "dev_ok us R B c \<Longrightarrow> B \<le> B' \<Longrightarrow> dev_ok us R B' c"
  unfolding dev_ok_def using vault_inv_mono by blast

subsection \<open>Answers\<close>

lemma form_response_ok:
  assumes "incoming_packets_buffer c (reqid r) = Some p" and "good_packet p"
  shows "\<exists>q. form_response_packet r c = Some (q, c\<lparr>incoming_packets_buffer := (incoming_packets_buffer c)(reqid r := None)\<rparr>) \<and>
    packet_req q = Some r"
  using assms cmd_index_bound
  by (auto simp: form_response_packet_def good_packet_def Packet_response_def datafield_valid_def Let_def)

lemma respond_ok:
  assumes "\<exists>p. incoming_packets_buffer c (reqid r) = Some p \<and> good_packet p"
  shows "\<exists>rs tp. respond r c = Some (c\<lparr>incoming_packets_buffer := (incoming_packets_buffer c)(reqid r := None),
      response_packets_buffer := rs, to_pu := tp\<rparr>) \<and>
    mset (answered (c\<lparr>response_packets_buffer := rs, to_pu := tp\<rparr>)) = add_mset (reqid r) (mset (answered c))"
proof -
  obtain q where q: "form_response_packet r c = Some (q, c\<lparr>incoming_packets_buffer := (incoming_packets_buffer c)(reqid r := None)\<rparr>)"
    "packet_req q = Some r" using assms form_response_ok by blast
  have "incoming_packets_buffer c (reqid r) \<noteq> None" using assms by auto
  then have "respond r c = Some (c\<lparr>incoming_packets_buffer := (incoming_packets_buffer c)(reqid r := None),
      response_packets_buffer := response_packets_buffer c, to_pu := to_pu c @ [r]\<rparr>) \<or>
    respond r c = Some (c\<lparr>incoming_packets_buffer := (incoming_packets_buffer c)(reqid r := None),
      response_packets_buffer := response_packets_buffer c @ [q], to_pu := to_pu c\<rparr>)"
    using q(1) by (simp add: respond_def)
  then show ?thesis
  proof
    assume *: "respond r c = Some (c\<lparr>incoming_packets_buffer := (incoming_packets_buffer c)(reqid r := None),
      response_packets_buffer := response_packets_buffer c, to_pu := to_pu c @ [r]\<rparr>)"
    show ?thesis by (intro exI conjI, rule *) (simp add: answered_def)
  next
    assume *: "respond r c = Some (c\<lparr>incoming_packets_buffer := (incoming_packets_buffer c)(reqid r := None),
      response_packets_buffer := response_packets_buffer c @ [q], to_pu := to_pu c\<rparr>)"
    show ?thesis by (intro exI conjI, rule *) (simp add: answered_def q(2))
  qed
qed

subsection \<open>Requests in flight\<close>

lemma load_nonneg [simp]: "0 \<le> load c p"
  by (simp add: load_def)

lemma packets_answer:
  assumes "packets_ok acc c" and "flight c = add_mset r (flight c')" and "mset (answered c') = add_mset (reqid r) (mset (answered c))"
    and "incoming_packets_buffer c' = (incoming_packets_buffer c)(reqid r := None)"
  shows "packets_ok acc c'"
proof -
  have "reqid s \<noteq> reqid r" if "s \<in># flight c'" for s using distinct_flight [OF assms(1), of r s] assms(2) that by simp
  then show ?thesis using assms by (auto simp: packets_ok_def)
qed

lemma packets_upd:
  assumes "packets_ok acc c" and "flight c = add_mset r M" and "flight c' = add_mset r' M" and "reqid r' = reqid r"
    and "answered c' = answered c" and "incoming_packets_buffer c' = incoming_packets_buffer c"
  shows "packets_ok acc c'"
  using assms by (auto simp: packets_ok_def)

lemma load_upd:
  assumes "flight c = add_mset r M" and "flight c' = add_mset r' M" and "addr_vec r' = addr_vec r"
  shows "load c' p = load c p + (if req_on_way p r then (if is_first_command r then 1 else 0) - (if is_first_command r' then 1 else 0) else 0)"
  using assms by (auto simp: load_def req_on_way_def)

lemma flight_queue:
  assumes "qid \<noteq> OtherQ" and "i < length (queue qid c)"
  obtains M where "flight c = add_mset (queue qid c ! i) M" and "\<forall>r. flight (upd_req qid i r c) = add_mset r M"
    and "flight (remove_req qid i c) = M"
proof -
  have q: "mset xs = add_mset (xs ! i) (mset (take i xs @ drop (Suc i) xs))" "mset (xs[i := r]) = add_mset r (mset (take i xs @ drop (Suc i) xs))"
    if "i < length xs" for xs :: "Request list" and r
    using id_take_nth_drop [OF that] by (metis add_mset_add_single mset.simps(2) mset_append union_mset_add_mset_right,
      simp add: upd_conv_take_nth_drop [OF that])
  show thesis
  proof (cases qid)
    case ReadQ
    show thesis by (rule that [of "mset (take i (readq c) @ drop (Suc i) (readq c)) + mset (writeq c) + mset (pending c)"])
      (use assms ReadQ q in \<open>simp_all add: flight_def upd_req_def remove_req_def\<close>)
  next
    case WriteQ
    show thesis by (rule that [of "mset (readq c) + mset (take i (writeq c) @ drop (Suc i) (writeq c)) + mset (pending c)"])
      (use assms WriteQ q in \<open>simp_all add: flight_def upd_req_def remove_req_def\<close>)
  qed (use assms in simp)
qed

subsection \<open>Completion of a read\<close>

lemma serve_ok:
  assumes "dev_ok us R B c" and "serving_ok (channel c) f" and "access_req (c_org c) (vault_id c) r" and "delta = 1 \<or> delta = - 1"
    and "\<forall>p. 0 \<le> f p" and "\<forall>p. req_on_way p r \<longrightarrow> 0 \<le> f p + delta"
  shows "\<exists>t. serve (addr_vec r) delta c = Some (c\<lparr>channel := t\<rparr>) \<and> calm us R c (c\<lparr>channel := t\<rparr>) \<and>
    serving_ok t (\<lambda>p. f p + (if req_on_way p r then delta else 0))"
proof -
  obtain g b row col where a: "addr_vec r = [vault_id c, g, b, row, col]" "bank_in (c_org c) g b"
    using assms(3) by (auto simp: access_req_def)
  have w: "req_on_way p r = on_way g b p" for p by (simp add: req_on_way_def a(1))
  have d: "vault_inv (c_org c) (c_speed c) us B (channel c) R" "0 \<le> clk c" using assms(1) by (simp_all add: dev_ok_def)
  have f: "\<forall>p. on_way g b p \<longrightarrow> 0 \<le> f p + delta" using assms(6) w by simp
  note sv = serve_vault [OF _ assms(2) a(2) refl d(2) assms(4,5) f, of _ us _ R row col]
  obtain t where t: "update_serving_requests (std c) (channel c) (addr_vec r) delta (clk c) = Some t"
    "serving_ok t (\<lambda>p. f p + (if req_on_way p r then delta else 0))" "d_id (d_info t) = vault_id c" "same_timing (channel c) t"
    using sv [OF d(1)] a(1) w by auto
  have "vault_inv (c_org c) (c_speed c) us B' t R" if "vault_inv (c_org c) (c_speed c) us B' (channel c) R" for B'
    using sv [OF that] t(1) a(1) by auto
  then have "calm us R c (c\<lparr>channel := t\<rparr>)" using t(3,4) by (auto simp: calm_def same_conf_def dev_ok_def)
  moreover have "serve (addr_vec r) delta c = Some (c\<lparr>channel := t\<rparr>)" using t(1) by (simp add: serve_def)
  ultimately show ?thesis using t(2) by blast
qed

lemma serve_completed_ok:
  assumes "ctrl_inv us acc R c"
  shows "\<exists>c'. serve_completed c = Some c' \<and> ctrl_inv us acc R c' \<and> calm us R c c'"
proof (cases "\<exists>r rest. pending c = r # rest \<and> depart r \<le> clk c")
  case False
  then have "serve_completed c = Some c" by (auto simp: serve_completed_def split: list.split)
  then show ?thesis using assms by auto
next
  case True
  then obtain r rest where p: "pending c = r # rest" "depart r \<le> clk c" by blast
  have inv: "config_ok c" "dev_ok us R (clk c + 200) c" "queues_ok c" "packets_ok acc c" "serving_ok (channel c) (load c)"
    using assms by (simp_all add: ctrl_inv_def)
  have r: "req_type r = READ" "access_req (c_org c) (vault_id c) r" "is_first_command r \<longleftrightarrow> \<not> 1 < depart r - arrive r"
    using inv(3) p(1) by (simp_all add: queues_ok_def pending_ok_def)
  have fl: "flight c = add_mset r (flight (c\<lparr>pending := rest\<rparr>))" by (simp add: flight_def p(1))
  have ld: "load (c\<lparr>pending := rest\<rparr>) = (\<lambda>p. load c p + (if req_on_way p r then if is_first_command r then 0 else - 1 else 0))"
    using load_add [OF fl] by (auto simp: fun_eq_iff)
  obtain t where c1: "(if depart r - arrive r > 1 then serve (addr_vec r) (- 1) c else Some c) = Some (c\<lparr>channel := t\<rparr>)"
    "calm us R c (c\<lparr>channel := t\<rparr>)" "serving_ok t (load (c\<lparr>pending := rest\<rparr>))"
  proof (cases "depart r - arrive r > 1")
    case True
    have "0 \<le> load c p + - 1" if "req_on_way p r" for p
      using load_add [OF fl, of p] that True r(3) load_nonneg [of "c\<lparr>pending := rest\<rparr>" p] by simp
    then show thesis using serve_ok [OF inv(2,5) r(2), of "- 1"] True r(3) ld that by auto
  qed (use inv(5) r(3) ld in \<open>auto intro!: that [of "channel c"]\<close>)
  have "r \<in># flight c" using fl by simp
  then have "\<exists>p. incoming_packets_buffer (c\<lparr>channel := t\<rparr>) (reqid r) = Some p \<and> good_packet p"
    using inv(4) by (simp add: packets_ok_def)
  from respond_ok [OF this] obtain rs tp where
    c2: "respond r (c\<lparr>channel := t\<rparr>) = Some (c\<lparr>channel := t, incoming_packets_buffer := (incoming_packets_buffer c)(reqid r := None),
      response_packets_buffer := rs, to_pu := tp\<rparr>)" (is "_ = Some ?c2")
    "mset (answered (c\<lparr>response_packets_buffer := rs, to_pu := tp\<rparr>)) = add_mset (reqid r) (mset (answered c))" by (auto simp: answered_def)
  let ?c = "?c2\<lparr>pending := rest\<rparr>"
  have "serve_completed c = Some ?c" using p r(1) c1(1) c2(1) by (simp add: serve_completed_def)
  moreover have pk: "packets_ok acc ?c"
    by (rule packets_answer [OF inv(4), of r]) (use fl c2(2) in \<open>simp_all add: flight_def answered_def\<close>)
  moreover have "calm us R c ?c"
    by (rule calm_trans [OF c1(2)], rule calmI) (simp_all add: same_conf_def)
  moreover from this have "queues_ok ?c"
    using inv(3) p(1) by (simp add: queues_ok_def queued_ok_def pending_ok_def calm_def same_conf_def)
  moreover have "load ?c = load (c\<lparr>pending := rest\<rparr>)" by (simp add: fun_eq_iff load_def flight_def)
  ultimately show ?thesis using inv(1,2) c1(3) by (auto simp: ctrl_inv_def config_ok_def calm_def)
qed

subsection \<open>Refresh\<close>

lemma tick_ref_ok:
  assumes "ctrl_inv us acc R c" and "refresh_ok us R 1 c" and "refresh_clk c + 1 = clk c" and "dev_ok us R (clk c + 199) c"
    and "refresh_hist us 1 c"
  shows "\<exists>c'. tick_ref c = Some c' \<and> ctrl_inv us acc R c' \<and> refresh_ok us R 1 c' \<and> refresh_hist us 0 c' \<and> refresh_clk c' = clk c \<and>
    clk c' = clk c \<and> c_org c' = c_org c \<and> c_speed c' = c_speed c \<and> vault_id c' = vault_id c"
proof (cases "clk c - refreshed c \<ge> 9750")
  case False
  have "nREFI (speed_table (c_speed c)) = 9750" by (cases "c_speed c") simp_all
  then have "tick_ref c = Some (c\<lparr>refresh_clk := clk c\<rparr>)" using False assms(3) by (simp add: tick_ref_def)
  moreover have "ctrl_inv us acc R (c\<lparr>refresh_clk := clk c\<rparr>)" "refresh_ok us R 1 (c\<lparr>refresh_clk := clk c\<rparr>)"
    using assms(1,2) by (auto simp: ctrl_inv_def config_ok_def dev_ok_def queues_ok_def queued_ok_def pending_ok_def packets_ok_def
      flight_def load_def [abs_def] answered_def refresh_ok_def)
  moreover have "refresh_hist us 0 (c\<lparr>refresh_clk := clk c\<rparr>)" using assms(5) False by (auto simp: refresh_hist_def)
  ultimately show ?thesis by (intro exI [of _ "c\<lparr>refresh_clk := clk c\<rparr>"]) simp
next
  case True
  let ?r = "(Request_vec (unset_addr c) (ref_addr (vault_id c)) REFRESH 0)\<lparr>arrive := clk c\<rparr>"
  let ?c = "c\<lparr>refresh_clk := clk c, otherq := [?r], refreshed := clk c\<rparr>"
  have "refresh_wait R \<le> 400" "200 \<le> refresh_wait R" by (auto simp: refresh_wait_def)
  note rw = this
  have o: "otherq c = []" using assms(2) True rw(1) by (auto simp: refresh_ok_def)
  have "nREFI (speed_table (c_speed c)) = 9750" by (cases "c_speed c") simp_all
  then have "tick_ref c = Some ?c"
    using True assms(3) o by (simp add: tick_ref_def inject_refresh_def refresh_target_def enqueue_def get_queue_def Request_vec_def
      queue_max_def Let_def numeral_eq_Suc)
  moreover have "ctrl_inv us acc R ?c"
    using assms(1) by (auto simp: ctrl_inv_def config_ok_def dev_ok_def queues_ok_def queued_ok_def pending_ok_def packets_ok_def
      flight_def load_def [abs_def] answered_def refresh_req_def Request_vec_def)
  moreover have "dev_ok us R (clk c + refresh_wait R) c" by (rule dev_ok_mono [OF assms(4)]) (use rw(2) in simp)
  then have "refresh_ok us R 1 ?c" using rw by (simp add: refresh_ok_def dev_ok_def)
  moreover have "refresh_hist us 0 ?c" using assms(5) o by (auto simp: refresh_hist_def)
  ultimately show ?thesis by (intro exI [of _ ?c]) simp
qed

subsection \<open>The first command of a request\<close>

primrec queue_type :: "queue_id \<Rightarrow> ReqType" where
  "queue_type ReadQ = READ" | "queue_type WriteQ = WRITE" | "queue_type OtherQ = REFRESH"

lemma queues_okD:
  "queues_ok c \<Longrightarrow> qid \<noteq> OtherQ \<Longrightarrow> i < length (queue qid c) \<Longrightarrow> queued_ok c (queue_type qid) (queue qid c ! i)"
  by (cases qid) (auto simp: queues_ok_def)

lemma queues_ok_upd:
  assumes "queues_ok c" and "qid \<noteq> OtherQ" and "queued_ok c (queue_type qid) r"
  shows "queues_ok (upd_req qid i r c)"
proof -
  have sub: "x \<in> set (xs[i := r]) \<Longrightarrow> x = r \<or> x \<in> set xs" for x xs using set_update_subset_insert [of xs i r] by auto
  have "queued_ok (upd_req qid i r c) = queued_ok c" "pending_ok (upd_req qid i r c) = pending_ok c"
    using assms(2) by (cases qid; simp add: fun_eq_iff upd_req_def queued_ok_def pending_ok_def)+
  then show ?thesis using assms by (cases qid) (auto simp: queues_ok_def upd_req_def dest!: sub)
qed

lemma count_row_ok:
  assumes "query_ok c r"
  shows "\<exists>x y z. count_row r c = Some (c\<lparr>row_hits := x, row_conflicts := y, row_misses := z\<rparr>)"
proof -
  obtain h b where "is_row_hit c r = Some h" "is_row_open c r = Some b" using assms by (auto simp: query_ok_def)
  then show ?thesis
    by (intro exI [of _ "if h then Suc (row_hits c) else row_hits c"] exI [of _ "if \<not> h \<and> b then Suc (row_conflicts c) else row_conflicts c"]
      exI [of _ "if \<not> h \<and> \<not> b then Suc (row_misses c) else row_misses c"]) (simp add: count_row_def)
qed

lemma upd_req_fields [simp]:
  "channel (upd_req qid i r c) = channel c" "clk (upd_req qid i r c) = clk c" "c_org (upd_req qid i r c) = c_org c"
  "c_speed (upd_req qid i r c) = c_speed c" "refresh_clk (upd_req qid i r c) = refresh_clk c" "refreshed (upd_req qid i r c) = refreshed c"
  "rowtable (upd_req qid i r c) = rowtable c" "cmd_trace (upd_req qid i r c) = cmd_trace c"
  "no_DRAM_latency (upd_req qid i r c) = no_DRAM_latency c" "policy_type (upd_req qid i r c) = policy_type c"
  "sched_type (upd_req qid i r c) = sched_type c" "c_read_latency (upd_req qid i r c) = c_read_latency c"
  "c_burst_count (upd_req qid i r c) = c_burst_count c" "pending (upd_req qid i r c) = pending c"
  "response_packets_buffer (upd_req qid i r c) = response_packets_buffer c" "to_pu (upd_req qid i r c) = to_pu c"
  "incoming_packets_buffer (upd_req qid i r c) = incoming_packets_buffer c"
  "queue qid (upd_req qid i r c) = (queue qid c)[i := r]"
  by (cases qid; simp add: upd_req_def)+

lemma upd_req_otherq [simp]: "qid \<noteq> OtherQ \<Longrightarrow> otherq (upd_req qid i r c) = otherq c"
  by (cases qid) (simp_all add: upd_req_def)

lemma upd_req_frame: "upd_req qid i r c\<lparr>channel := t\<rparr> = (upd_req qid i r c)\<lparr>channel := t\<rparr>"
  by (cases qid) (simp_all add: upd_req_def)

lemma calm_upd_req: "qid \<noteq> OtherQ \<Longrightarrow> calm us R c (upd_req qid i r c)"
  by (rule calmI) (simp_all add: same_conf_def)

text \<open>Changing a queued request, with the device told about it.\<close>
lemma ctrl_inv_upd:
  assumes "ctrl_inv us acc R c" and "qid \<noteq> OtherQ" and "i < length (queue qid c)"
    and "r = queue qid c ! i" and "queued_ok c (queue_type qid) r'" and "reqid r' = reqid r" and "addr_vec r' = addr_vec r"
    and "is_first_command r' = is_first_command r"
  shows "ctrl_inv us acc R (upd_req qid i r' c)"
proof -
  obtain M where M: "flight c = add_mset (queue qid c ! i) M" "\<forall>r. flight (upd_req qid i r c) = add_mset r M" "flight (remove_req qid i c) = M"
    by (rule flight_queue [OF assms(2,3)])
  have "packets_ok acc (upd_req qid i r' c)"
    by (rule packets_upd [of acc c r M _ r']) (use assms M in \<open>simp_all add: ctrl_inv_def answered_def\<close>)
  moreover have "load (upd_req qid i r' c) = load c"
    using load_upd [of c r M "upd_req qid i r' c" r'] M assms(4,7,8) by (auto simp: fun_eq_iff)
  ultimately show ?thesis
    using assms(1) queues_ok_upd [OF _ assms(2,5)] calm_upd_req [OF assms(2), of us R c i r']
    by (simp add: ctrl_inv_def config_ok_def calm_def)
qed

lemma first_command_ok:
  assumes "ctrl_inv us acc R c" and "qid \<noteq> OtherQ" and "i < length (queue qid c)"
  shows "\<exists>c'. first_command qid i c = Some c' \<and> ctrl_inv us acc R c' \<and> calm us R c c' \<and> length (queue qid c') = length (queue qid c) \<and>
    queue qid c' ! i = (queue qid c ! i)\<lparr>is_first_command := False\<rparr>"
proof (cases "is_first_command (queue qid c ! i)")
  case False
  then show ?thesis using assms(1) by (intro exI [of _ c]) (simp add: first_command_def)
next
  case True
  let ?r = "queue qid c ! i" let ?r' = "?r\<lparr>is_first_command := False\<rparr>" let ?c = "upd_req qid i ?r' c"
  have inv: "config_ok c" "dev_ok us R (clk c + 200) c" "queues_ok c" "packets_ok acc c" "serving_ok (channel c) (load c)"
    using assms(1) by (simp_all add: ctrl_inv_def)
  have q: "queued_ok c (queue_type qid) ?r" by (rule queues_okD [OF inv(3) assms(2,3)])
  then have r: "access_req (c_org c) (vault_id c) ?r" "req_type ?r = READ \<or> req_type ?r = WRITE"
    by (auto simp: queued_ok_def access_req_def)
  obtain M where M: "flight c = add_mset ?r M" "\<forall>r. flight (upd_req qid i r c) = add_mset r M" "flight (remove_req qid i c) = M"
    by (rule flight_queue [OF assms(2,3)])
  have ld: "load ?c = (\<lambda>p. load c p + (if req_on_way p ?r then 1 else 0))"
    using load_upd [OF M(1) spec [OF M(2)], of ?r'] True by (simp add: fun_eq_iff)
  have dv: "dev_ok us R (clk c + 200) ?c" using calm_upd_req [OF assms(2)] inv(2) by (simp add: calm_def)
  obtain t where t: "serve (addr_vec ?r) 1 ?c = Some (?c\<lparr>channel := t\<rparr>)" "calm us R ?c (?c\<lparr>channel := t\<rparr>)" "serving_ok t (load ?c)"
    using serve_ok [OF dv, of "load c" ?r 1] inv(5) r(1) ld by auto
  have dv1: "dev_ok us R (clk c + 200) (?c\<lparr>channel := t\<rparr>)" using t(2) dv by (simp add: calm_def)
  have "c_org (?c\<lparr>channel := t\<rparr>) = c_org c \<and> vault_id (?c\<lparr>channel := t\<rparr>) = vault_id c"
    using t(2) by (simp add: calm_def same_conf_def)
  then have "query_ok (?c\<lparr>channel := t\<rparr>) ?r" using access_queries(1) [OF dv1, of ?r] r(1) by simp
  then obtain x y z where n: "count_row ?r (?c\<lparr>channel := t\<rparr>) = Some (?c\<lparr>channel := t, row_hits := x, row_conflicts := y, row_misses := z\<rparr>)"
    (is "_ = Some ?c'") using count_row_ok by fastforce
  have fc: "first_command qid i c = Some ?c'" using True r(2) t(1) n by (simp add: first_command_def)
  have cm: "calm us R c ?c'"
    by (rule calm_trans [OF calm_upd_req [OF assms(2)] calm_trans [OF t(2)]], rule calmI) (simp_all add: same_conf_def)
  have pk: "packets_ok acc ?c" by (rule packets_upd [OF inv(4) M(1) spec [OF M(2)]]) (simp_all add: answered_def)
  have qs: "queues_ok ?c" by (rule queues_ok_upd [OF inv(3) assms(2)]) (use q in \<open>auto simp: queued_ok_def access_req_def\<close>)
  have eq: "flight ?c' = flight ?c" "answered ?c' = answered ?c" "load ?c' = load ?c" by (simp_all add: flight_def answered_def load_def [abs_def])
  have "packets_ok acc ?c'" using pk unfolding packets_ok_def eq by simp
  moreover have "queues_ok ?c'"
    using qs cm by (simp add: queues_ok_def queued_ok_def [abs_def] pending_ok_def [abs_def] calm_def same_conf_def)
  ultimately have "ctrl_inv us acc R ?c'"
    using inv(1,2) cm t(3) unfolding ctrl_inv_def eq(3) by (simp add: config_ok_def calm_def)
  moreover have "queue qid ?c' = (queue qid c)[i := ?r']" by (cases qid) (simp_all add: upd_req_def)
  ultimately show ?thesis using fc cm assms(3) by (intro exI [of _ ?c']) simp
qed

subsection \<open>The end of a request\<close>

lemma remove_req_fields [simp]:
  "queues_ok c \<Longrightarrow> queues_ok (remove_req qid i c)" "channel (remove_req qid i c) = channel c"
  by (cases qid; auto simp: remove_req_def queues_ok_def queued_ok_def pending_ok_def dest: in_set_takeD in_set_dropD)+

lemma calm_remove_req: "qid \<noteq> OtherQ \<Longrightarrow> calm us R c (remove_req qid i c)"
  by (rule calmI; cases qid) (simp_all add: same_conf_def remove_req_def)

lemma finish_more:
  assumes "ctrl_inv us acc R c" and "qid \<noteq> OtherQ" and "i < length (queue qid c)" and "burst_count (queue qid c ! i) \<noteq> 1"
  shows "\<exists>c'. finish_cmd qid i c = Some c' \<and> ctrl_inv us acc R c' \<and> calm us R c c'"
proof -
  let ?r = "queue qid c ! i" let ?c = "upd_req qid i (?r\<lparr>burst_count := burst_count ?r - 1\<rparr>) c"
  have q: "queued_ok c (queue_type qid) ?r" by (rule queues_okD [OF _ assms(2,3)]) (use assms(1) in \<open>simp add: ctrl_inv_def\<close>)
  then have "req_type ?r = READ \<or> req_type ?r = WRITE" by (auto simp: queued_ok_def access_req_def)
  then have "finish_cmd qid i c = Some ?c" using assms(3,4) by (auto simp: finish_cmd_def Let_def)
  moreover have "ctrl_inv us acc R ?c"
    by (rule ctrl_inv_upd [OF assms(1-3) refl]) (use q assms(4) in \<open>auto simp: queued_ok_def access_req_def\<close>)
  ultimately show ?thesis using calm_upd_req [OF assms(2)] by blast
qed

lemma finish_read:
  assumes "ctrl_inv us acc R c" and "i < length (readq c)" and "burst_count (readq c ! i) = 1" and "\<not> is_first_command (readq c ! i)"
  shows "\<exists>c'. finish_cmd ReadQ i c = Some c' \<and> ctrl_inv us acc R c' \<and> calm us R c c'"
proof -
  let ?r = "readq c ! i" let ?r' = "?r\<lparr>burst_count := 0, depart := clk c + c_read_latency c\<rparr>"
  let ?d = "remove_req ReadQ i c" let ?c = "?d\<lparr>pending := pending c @ [?r']\<rparr>"
  have inv: "config_ok c" "dev_ok us R (clk c + 200) c" "queues_ok c" "packets_ok acc c" "serving_ok (channel c) (load c)"
    using assms(1) by (simp_all add: ctrl_inv_def)
  have q: "req_type ?r = READ" "access_req (c_org c) (vault_id c) ?r" "arrive ?r \<le> clk c"
    using queues_okD [OF inv(3), of ReadQ i] assms(2) by (simp_all add: queued_ok_def)
  have "ReadQ \<noteq> OtherQ" "i < length (queue ReadQ c)" using assms(2) by simp_all
  then obtain M where "flight c = add_mset (queue ReadQ c ! i) M"
    "\<forall>r. flight (upd_req ReadQ i r c) = add_mset r M" "flight ?d = M" by (rule flight_queue)
  then have M: "flight c = add_mset ?r M" "flight ?d = M" by simp_all
  have fl: "flight ?c = add_mset ?r' M" using M(2) by (simp add: flight_def remove_req_def)
  have fin: "finish_cmd ReadQ i c = Some ?c" using q(1) assms(2,3) by (simp add: finish_cmd_def upd_req_def remove_req_def Let_def)
  have cm: "calm us R c ?c" by (rule calm_trans [OF calm_remove_req [of ReadQ]], simp, rule calmI) (simp_all add: same_conf_def)
  have "packets_ok acc ?c" by (rule packets_upd [OF inv(4) M(1) fl]) (simp_all add: answered_def remove_req_def)
  moreover have "pending_ok c ?r'" using q assms(4) inv(1) by (auto simp: pending_ok_def access_req_def config_ok_def)
  then have "queues_ok ?c" using remove_req_fields(1) [OF inv(3), of ReadQ i] by (auto simp: queues_ok_def queued_ok_def pending_ok_def remove_req_def)
  moreover have "load ?c = load c" using load_upd [OF M(1) fl] by (simp add: fun_eq_iff)
  ultimately show ?thesis
    using fin cm inv(1,2,5) by (intro exI [of _ ?c]) (simp add: ctrl_inv_def config_ok_def calm_def remove_req_def)
qed

lemma finish_write:
  assumes "ctrl_inv us acc R c" and "i < length (writeq c)" and "burst_count (writeq c ! i) = 1" and "\<not> is_first_command (writeq c ! i)"
  shows "\<exists>c'. finish_cmd WriteQ i c = Some c' \<and> ctrl_inv us acc R c' \<and> calm us R c c'"
proof -
  let ?r = "writeq c ! i" let ?r' = "?r\<lparr>burst_count := 0, depart := clk c\<rparr>" let ?d = "remove_req WriteQ i c" let ?u = "upd_req WriteQ i ?r' c"
  have inv: "config_ok c" "dev_ok us R (clk c + 200) c" "queues_ok c" "packets_ok acc c" "serving_ok (channel c) (load c)"
    using assms(1) by (simp_all add: ctrl_inv_def)
  have q: "req_type ?r = WRITE" "access_req (c_org c) (vault_id c) ?r'"
    using queues_okD [OF inv(3), of WriteQ i] assms(2) by (auto simp: queued_ok_def access_req_def)
  have "WriteQ \<noteq> OtherQ" "i < length (queue WriteQ c)" using assms(2) by simp_all
  then obtain M where "flight c = add_mset (queue WriteQ c ! i) M"
    "\<forall>r. flight (upd_req WriteQ i r c) = add_mset r M" "flight ?d = M" by (rule flight_queue)
  then have M: "flight c = add_mset ?r M" "flight ?u = add_mset ?r' M" "flight ?d = M" by simp_all
  have ld: "load ?u = load c" using load_upd [OF M(1,2)] by (simp add: fun_eq_iff)
  have ld0: "load ?d = (\<lambda>p. load c p + (if req_on_way p ?r' then - 1 else 0))"
    using load_add [of c ?r ?d] M(1,3) assms(4) by (auto simp: fun_eq_iff req_on_way_def)
  have pos: "0 \<le> load c p + - 1" if "req_on_way p ?r'" for p using load_nonneg [of ?d p] ld0 that by simp
  have u: "calm us R c ?u" by (rule calm_upd_req) simp
  obtain t where t: "serve (addr_vec ?r') (- 1) ?u = Some (?u\<lparr>channel := t\<rparr>)" "calm us R ?u (?u\<lparr>channel := t\<rparr>)" "serving_ok t (load ?d)"
    using serve_ok [of us R "clk c + 200" ?u "load c" ?r' "- 1"] u inv(2,5) q(2) pos ld0 by (auto simp: calm_def)
  have "?r \<in># flight c" using M(1) by simp
  then have "\<exists>p. incoming_packets_buffer (?u\<lparr>channel := t\<rparr>) (reqid ?r') = Some p \<and> good_packet p"
    using inv(4) by (simp add: packets_ok_def)
  from respond_ok [OF this] obtain rs tp where
    a: "respond ?r' (?u\<lparr>channel := t\<rparr>) = Some (?u\<lparr>channel := t, incoming_packets_buffer := (incoming_packets_buffer c)(reqid ?r := None),
      response_packets_buffer := rs, to_pu := tp\<rparr>)" (is "_ = Some ?a")
    "mset (answered (c\<lparr>response_packets_buffer := rs, to_pu := tp\<rparr>)) = add_mset (reqid ?r) (mset (answered c))" by (auto simp: answered_def)
  let ?c = "remove_req WriteQ i ?a"
  have c: "?c = ?d\<lparr>channel := t, incoming_packets_buffer := (incoming_packets_buffer c)(reqid ?r := None),
    response_packets_buffer := rs, to_pu := tp\<rparr>" by (simp add: remove_req_def upd_req_def)
  have "burst_count (queue WriteQ ?a ! i) = 0" using assms(2) by (simp add: upd_req_def)
  then have fin: "finish_cmd WriteQ i c = Some ?c" using q(1) assms(3) t(1) a(1) by (simp add: finish_cmd_def Let_def)
  have "calm us R ?a ?c" by (rule calm_remove_req) simp
  moreover have "calm us R (?u\<lparr>channel := t\<rparr>) ?a" by (rule calmI) (simp_all add: same_conf_def)
  ultimately have cm: "calm us R c ?c" using u t(2) calm_trans by blast
  have fl: "flight ?c = M" using M(3) by (simp add: c flight_def)
  have "packets_ok acc ?c"
    by (rule packets_answer [OF inv(4), of ?r]) (use M(1) fl a(2) in \<open>simp_all add: c answered_def remove_req_def\<close>)
  moreover have "queues_ok ?c"
    using remove_req_fields(1) [OF inv(3), of WriteQ i] t(2) unfolding c
    by (simp add: queues_ok_def queued_ok_def pending_ok_def calm_def same_conf_def remove_req_def)
  moreover have "load ?c = load ?d" using fl M(3) by (simp add: fun_eq_iff load_def)
  ultimately show ?thesis
    using fin cm inv(1,2) t(3) by (intro exI [of _ ?c]) (simp add: ctrl_inv_def config_ok_def calm_def c remove_req_def)
qed

lemma finish_cmd_ok:
  assumes "ctrl_inv us acc R c" and "qid \<noteq> OtherQ" and "i < length (queue qid c)" and "\<not> is_first_command (queue qid c ! i)"
  shows "\<exists>c'. finish_cmd qid i c = Some c' \<and> ctrl_inv us acc R c' \<and> calm us R c c'"
  using finish_more [OF assms(1-3)] finish_read [OF assms(1)] finish_write [OF assms(1)] assms(2-4) by (cases qid) auto

subsection \<open>Issuing\<close>

lemma issue_inv:
  assumes "ctrl_inv us acc R c" and "due_cmd (c_org c) (vault_id c) R cmd addr" and "is_ready_cmd c cmd addr = Some True"
  shows "\<exists>c'. issue_cmd cmd addr c = Some c' \<and> ctrl_inv (us @ [(cmd, addr, clk c)]) acc (row_effect cmd addr R) c' \<and> same_conf c c' \<and>
    (\<forall>B. dev_ok us R B c \<longrightarrow> dev_ok (us @ [(cmd, addr, clk c)]) (row_effect cmd addr R) (max B (clk c + 200)) c') \<and>
    (\<forall>qid. queue qid c' = queue qid c)"
proof -
  have inv: "config_ok c" "dev_ok us R (clk c + 200) c" "queues_ok c" "packets_ok acc c" "serving_ok (channel c) (load c)"
    using assms(1) by (simp_all add: ctrl_inv_def)
  obtain t tbl where x: "let c' = c\<lparr>channel := t, rowtable := tbl, cmd_trace := us @ [(cmd, addr, clk c)]\<rparr> in issue_cmd cmd addr c = Some c' \<and>
    (\<forall>B. dev_ok us R B c \<longrightarrow> dev_ok (us @ [(cmd, addr, clk c)]) (row_effect cmd addr R) (max B (clk c + 200)) c') \<and>
    same_serving (channel c) t \<and> d_id (d_info t) = vault_id c" using issue_cmd_ok [OF inv(2) assms(2,3)] by blast
  let ?c = "c\<lparr>channel := t, rowtable := tbl, cmd_trace := us @ [(cmd, addr, clk c)]\<rparr>"
  have t: "issue_cmd cmd addr c = Some ?c"
    "\<forall>B. dev_ok us R B c \<longrightarrow> dev_ok (us @ [(cmd, addr, clk c)]) (row_effect cmd addr R) (max B (clk c + 200)) ?c"
    "same_serving (channel c) t" "d_id (d_info t) = vault_id c" using x unfolding Let_def by blast+
  have "packets_ok acc ?c" "load ?c = load c" "config_ok ?c"
    using inv(1,4) by (simp_all add: packets_ok_def flight_def answered_def load_def [abs_def] config_ok_def)
  moreover have "queues_ok ?c" using inv(3) t(4) by (simp add: queues_ok_def queued_ok_def pending_ok_def)
  moreover have "dev_ok (us @ [(cmd, addr, clk c)]) (row_effect cmd addr R) (clk c + 200) ?c"
    using spec [OF t(2), of "clk c + 200"] inv(2) by simp
  moreover have "serving_ok t (load c)" by (rule serving_ok_same [OF t(3) inv(5)])
  ultimately have "ctrl_inv (us @ [(cmd, addr, clk c)]) acc (row_effect cmd addr R) ?c" by (simp add: ctrl_inv_def)
  moreover have "queue qid ?c = queue qid c" for qid by (cases qid) simp_all
  ultimately show ?thesis using t by (intro exI [of _ ?c]) (simp add: same_conf_def)
qed

subsection \<open>Scheduling a read or write\<close>

lemma serve_head_ok:
  assumes "ctrl_inv us acc R c" and "qid \<noteq> OtherQ" and "i < length (queue qid c)" and "is_ready c (queue qid c ! i) = Some True"
  shows "\<exists>vs R' c'. serve_head qid i c = Some c' \<and> ctrl_inv (us @ vs) acc R' c' \<and> same_conf c c'"
proof -
  let ?r = "queue qid c ! i" let ?cmd = "access_cmd R ?r"
  have inv: "dev_ok us R (clk c + 200) c" "access_req (c_org c) (vault_id c) ?r"
    using assms(1) queues_okD [OF _ assms(2,3)] by (simp_all add: ctrl_inv_def queued_ok_def)
  obtain d where d: "first_command qid i c = Some d" "ctrl_inv us acc R d" "calm us R c d" "length (queue qid d) = length (queue qid c)"
    "queue qid d ! i = ?r\<lparr>is_first_command := False\<rparr>" using first_command_ok [OF assms(1-3)] by blast
  have cf: "c_org d = c_org c" "c_speed d = c_speed c" "vault_id d = vault_id c" "clk d = clk c" "same_timing (channel c) (channel d)"
    using d(3) by (simp_all add: calm_def same_conf_def)
  have cmd: "access_cmd R (queue qid d ! i) = ?cmd" by (simp add: access_cmd_def d(5) split: option.split)
  have dd: "dev_ok us R (clk d + 200) d" using d(2) by (simp add: ctrl_inv_def)
  have ad: "access_req (c_org d) (vault_id d) (queue qid d ! i)" using inv(2) unfolding cf d(5) by (simp add: access_req_def)
  have rdy: "is_ready_cmd d ?cmd (addr_vec ?r) = Some True"
    using assms(4) access_queries(2) [OF inv] check_same_timing [OF cf(5)] cf(1,2,4) by (simp add: is_ready_def is_ready_cmd_def)
  have due: "due_cmd (c_org d) (vault_id d) R ?cmd (addr_vec ?r)" using access_queries(3) [OF dd ad] cmd d(5) by simp
  let ?vs = "[(?cmd, addr_vec ?r, clk d)]" let ?R = "row_effect ?cmd (addr_vec ?r) R"
  obtain e where e: "issue_cmd ?cmd (addr_vec ?r) d = Some e" "ctrl_inv (us @ ?vs) acc ?R e" "same_conf d e" "\<forall>qid. queue qid e = queue qid d"
    using issue_inv [OF d(2) due rdy] by blast
  have sc: "same_conf c e" using d(3) e(3) by (simp add: calm_def same_conf_def)
  have sch: "serve_head qid i c = (if ?cmd \<noteq> hmc_translate (req_type ?r) then Some e else finish_cmd qid i e)"
    using d(1,5) e(1) access_queries(2) [OF dd ad] cmd by (simp add: serve_head_def Let_def)
  show ?thesis
  proof (cases "?cmd = hmc_translate (req_type ?r)")
    case True
    obtain f where f: "finish_cmd qid i e = Some f" "ctrl_inv (us @ ?vs) acc ?R f" "calm (us @ ?vs) ?R e f"
      using finish_cmd_ok [OF e(2) assms(2), of i] e(4) d(4,5) assms(3) by auto
    have "same_conf c f" using sc f(3) by (simp add: calm_def same_conf_def)
    then show ?thesis using sch True f(1,2) by auto
  qed (use sch e(2) sc in auto)
qed

lemma schedule_access:
  assumes "ctrl_inv us acc R c" and "otherq c = []"
  shows "\<exists>vs R' c'. schedule c = Some c' \<and> ctrl_inv (us @ vs) acc R' c' \<and> same_conf c c'"
proof -
  let ?q = "chosen_queue c"
  have qid: "?q \<noteq> OtherQ" using assms(2) by (simp add: chosen_queue_def)
  have inv: "config_ok c" "dev_ok us R (clk c + 200) c" "queues_ok c" using assms(1) by (simp_all add: ctrl_inv_def)
  have "query_ok c (queue ?q c ! i)" if "i < length (queue ?q c)" for i
    using queues_okD [OF inv(3) qid that] access_queries(1) [OF inv(2)] by (simp add: queued_ok_def)
  then have q: "\<forall>r \<in> set (queue ?q c). query_ok c r" by (metis in_set_conv_nth)
  then obtain h where h: "sched_get_head (queue ?q c) c = Some (h, c)" "\<forall>i. h = Some i \<longrightarrow> i < length (queue ?q c)"
    using get_head_ok inv(1) by (metis config_ok_def)
  show ?thesis
  proof (cases "\<exists>i. h = Some i \<and> is_ready c (queue ?q c ! i) = Some True")
    case False
    have "(case h of None \<Rightarrow> Some False | Some i \<Rightarrow> is_ready c (queue ?q c ! i)) = Some False"
    proof (cases h)
      case (Some i)
      then have "query_ok c (queue ?q c ! i)" using h(2) q by simp
      then obtain b where "is_ready c (queue ?q c ! i) = Some b" by (auto simp: query_ok_def)
      then show ?thesis using False Some by simp
    qed simp
    then have "schedule c = Some c" using h(1) inv(1) by (simp add: schedule_def config_ok_def get_victim_def Let_def)
    then show ?thesis using assms(1) by (intro exI [of _ "[]"] exI [of _ R] exI [of _ c]) (simp add: same_conf_def)
  next
    case True
    then obtain i where i: "h = Some i" "is_ready c (queue ?q c ! i) = Some True" by blast
    then have "schedule c = serve_head ?q i c" using h(1) by (simp add: schedule_def Let_def)
    then show ?thesis using serve_head_ok [OF assms(1) qid _ i(2)] h(2) i(1) by simp
  qed
qed

subsection \<open>Scheduling a refresh\<close>

lemma ctrl_inv_otherq:
  assumes "ctrl_inv us acc R c" and "\<forall>r \<in> set q. refresh_req (vault_id c) r"
  shows "ctrl_inv us acc R (c\<lparr>otherq := q\<rparr>)"
  using assms by (simp add: ctrl_inv_def config_ok_def dev_ok_def queues_ok_def queued_ok_def pending_ok_def packets_ok_def
    flight_def load_def [abs_def] answered_def)

lemma dev_ok_otherq [simp]: "dev_ok us R B (c\<lparr>otherq := q\<rparr>) = dev_ok us R B c"
  by (simp add: dev_ok_def)

lemma get_head_refresh:
  assumes "is_ready c r = Some b" and "is_row_hit c r = Some False" and "is_row_open c r = Some False" and "sched_type c \<noteq> FRFCFS_Cap"
  shows "sched_get_head [r] c = Some (Some 0, c)"
  using assms by (cases b) (simp_all add: sched_get_head_def best_def hit_reqs_def pick_step_def violates_hit_def)

text \<open>The refresh is issued, or first the precharge it needs.\<close>
lemma refresh_issue:
  assumes "ctrl_inv us acc R c" and "otherq c = [r]" and "refresh_ok us R 1 c" and "is_ready c r = Some True"
    and "cmd = (if R = (\<lambda>_. None) then REF else PREA)"
  shows "\<exists>R' d. issue_cmd cmd (addr_vec r) c = Some d \<and> ctrl_inv (us @ [(cmd, ref_addr (vault_id c), clk c)]) acc R' d \<and> same_conf c d \<and>
    (cmd = PREA \<longrightarrow> refresh_ok (us @ [(cmd, ref_addr (vault_id c), clk c)]) R' 0 d)"
proof -
  have inv: "dev_ok us R (clk c + 200) c" "refresh_req (vault_id c) r" using assms(1,2) by (simp_all add: ctrl_inv_def queues_ok_def)
  have a: "addr_vec r = ref_addr (vault_id c)" using inv(2) by (simp add: refresh_req_def)
  have due: "due_cmd (c_org c) (vault_id c) R cmd (addr_vec r)" using a assms(5) by (auto simp: due_cmd_def)
  have rdy: "is_ready_cmd c cmd (addr_vec r) = Some True" using assms(4,5) refresh_queries(2) [OF inv] by (simp add: is_ready_def)
  let ?us = "us @ [(cmd, addr_vec r, clk c)]" let ?R = "row_effect cmd (addr_vec r) R"
  obtain d where d: "issue_cmd cmd (addr_vec r) c = Some d" "ctrl_inv ?us acc ?R d" "same_conf c d"
    "\<forall>B. dev_ok us R B c \<longrightarrow> dev_ok ?us ?R (max B (clk c + 200)) d" using issue_inv [OF assms(1) due rdy] by blast
  have "refresh_ok ?us ?R 0 d" if prea: "cmd = PREA"
  proof -
    have w: "refresh_wait R = 200" "refresh_wait ?R = 400" using prea assms(5) by (auto simp: refresh_wait_def row_effect_def split: if_splits)
    have k: "clk c < refreshed c + 201" "dev_ok us R (refreshed c + 200) c" using assms(2,3) w(1) by (simp_all add: refresh_ok_def)
    have "dev_ok ?us ?R (refreshed c + 400) d" by (rule dev_ok_mono [OF d(4) [rule_format, OF k(2)]]) (use k(1) in simp)
    then show ?thesis using d(3) k(1) assms(2) w(2) by (simp add: refresh_ok_def same_conf_def)
  qed
  then show ?thesis using d(1-3) unfolding a by blast
qed

lemma schedule_refresh:
  assumes "ctrl_inv us acc R c" and "otherq c = [r]" and "refresh_ok us R 1 c"
  shows "\<exists>vs R' c'. schedule c = Some c' \<and> ctrl_inv (us @ vs) acc R' c' \<and> refresh_ok (us @ vs) R' 0 c' \<and>
    same_conf (c\<lparr>otherq := otherq c'\<rparr>) c' \<and> (otherq c' = [] \<longrightarrow> (REF, ref_addr (vault_id c), clk c) \<in> set vs)"
proof -
  let ?cmd = "if R = (\<lambda>_. None) then REF else PREA" let ?t = "next_time (d_info (channel c)) ?cmd"
  have inv: "config_ok c" "dev_ok us R (clk c + 200) c" "refresh_req (vault_id c) r"
    using assms(1,2) by (simp_all add: ctrl_inv_def queues_ok_def)
  note rq = refresh_queries [OF inv(2,3)]
  have q: "is_ready c r = Some (\<not> (?t \<noteq> - 1 \<and> clk c < ?t))" "is_row_hit c r = Some False" "is_row_open c r = Some False"
    using rq by (simp_all add: query_ok_def) (auto simp: not_Some_eq)
  have h: "sched_get_head (queue (chosen_queue c) c) c = Some (Some 0, c)" "chosen_queue c = OtherQ"
    using get_head_refresh [OF q] inv(1) assms(2) by (simp_all add: chosen_queue_def config_ok_def)
  have rc: "clk c < refreshed c + refresh_wait R + 1" "dev_ok us R (refreshed c + refresh_wait R) c"
    using assms(2,3) by (simp_all add: refresh_ok_def)
  show ?thesis
  proof (cases "?t \<noteq> - 1 \<and> clk c < ?t")
    case True
    have "?t \<le> refreshed c + refresh_wait R"
      using rc(2) unfolding dev_ok_def vault_inv_def by (meson node_at.simps(1))
    then have "refresh_ok us R 0 c" using True assms(3) by (simp add: refresh_ok_def)
    moreover have "schedule c = Some c"
      using h q(1) True inv(1) assms(2) by (simp add: schedule_def config_ok_def get_victim_def Let_def)
    ultimately show ?thesis using assms(1,2) by (intro exI [of _ "[]"] exI [of _ R] exI [of _ c]) (simp add: same_conf_def)
  next
    case False
    let ?r = "r\<lparr>is_first_command := False\<rparr>" let ?c = "c\<lparr>otherq := [?r]\<rparr>"
    have ref: "refresh_req (vault_id c) ?r" "req_type r = REFRESH" "burst_count r = 0" using inv(3) by (auto simp: refresh_req_def)
    have fc: "first_command OtherQ 0 c = Some ?c"
      using ref(2) assms(2) by (cases "is_first_command r") (auto simp: first_command_def upd_req_def Let_def)
    have ci: "ctrl_inv us acc R ?c" by (rule ctrl_inv_otherq [OF assms(1)]) (use ref(1) in simp)
    have ro: "refresh_ok us R 1 ?c" using rc by (simp add: refresh_ok_def)
    have "get_first_cmd ?c ?r = get_first_cmd c r" "is_ready ?c ?r = is_ready c r"
      by (simp_all add: get_first_cmd_def is_ready_def is_ready_cmd_def)
    then have qs: "get_first_cmd ?c ?r = Some ?cmd" "is_ready ?c ?r = Some True" using rq(2) q(1) False by simp_all
    let ?vs = "[(?cmd, ref_addr (vault_id c), clk c)]"
    obtain R' d where d: "issue_cmd ?cmd (addr_vec ?r) ?c = Some d" "ctrl_inv (us @ ?vs) acc R' d" "same_conf ?c d" "?cmd = PREA \<longrightarrow> refresh_ok (us @ ?vs) R' 0 d"
      using refresh_issue [OF ci _ ro qs(2) refl] by auto
    have od: "otherq d = [?r]" using d(3) by (simp add: same_conf_def)
    have sch: "schedule c = (if ?cmd = PREA then Some d else finish_cmd OtherQ 0 d)"
      using h q(1) False assms(2) fc qs(1) d(1) ref(2) by (simp add: schedule_def serve_head_def Let_def)
    show ?thesis
    proof (cases "?cmd = PREA")
      case True
      then show ?thesis using sch d(2-4) od by (intro exI [of _ ?vs] exI [of _ R'] exI [of _ d]) (simp add: same_conf_def)
    next
      case F: False
      have "finish_cmd OtherQ 0 d = Some (d\<lparr>otherq := []\<rparr>)" using od ref(2,3) by (simp add: finish_cmd_def remove_req_def Let_def)
      moreover have "ctrl_inv (us @ ?vs) acc R' (d\<lparr>otherq := []\<rparr>)" by (rule ctrl_inv_otherq [OF d(2)]) simp
      moreover have "R = (\<lambda>_. None)" using F by (auto split: if_splits)
      ultimately show ?thesis using sch d(3)
        by (intro exI [of _ ?vs] exI [of _ R'] exI [of _ "d\<lparr>otherq := []\<rparr>"]) (simp add: same_conf_def refresh_ok_def)
    qed
  qed
qed

subsection \<open>A cycle\<close>

lemma choose_mode_eq: "\<exists>b. choose_mode c = c\<lparr>write_mode := b\<rparr>"
  by (rule exI [of _ "write_mode (choose_mode c)"]) (simp add: choose_mode_def)

lemma ctrl_inv_mode:
  "ctrl_inv us acc R (c\<lparr>write_mode := b\<rparr>) = ctrl_inv us acc R c" "refresh_ok us R k (c\<lparr>write_mode := b\<rparr>) = refresh_ok us R k c"
  "refresh_hist us k (c\<lparr>write_mode := b\<rparr>) = refresh_hist us k c"
  by (simp_all add: ctrl_inv_def config_ok_def dev_ok_def queues_ok_def queued_ok_def pending_ok_def packets_ok_def
    flight_def load_def [abs_def] answered_def refresh_ok_def refresh_hist_def)

lemma schedule_ok:
  assumes "ctrl_inv us acc R c" and "refresh_ok us R 1 c" and "refresh_hist us 0 c"
  shows "\<exists>us' R' c'. schedule c = Some c' \<and> ctrl_inv us' acc R' c' \<and> refresh_ok us' R' 0 c' \<and> refresh_hist us' 0 c' \<and>
    same_conf (c\<lparr>otherq := otherq c'\<rparr>) c'"
proof (cases "otherq c")
  case Nil
  obtain vs R' c' where "schedule c = Some c'" "ctrl_inv (us @ vs) acc R' c'" "same_conf c c'" using schedule_access [OF assms(1) Nil] by blast
  moreover from this have "refresh_hist (us @ vs) 0 c'" using assms(3) by (auto simp: same_conf_def refresh_hist_def)
  ultimately show ?thesis using Nil by (intro exI [of _ "us @ vs"] exI [of _ R'] exI [of _ c']) (simp add: same_conf_def refresh_ok_def)
next
  case (Cons r rs)
  then have r: "otherq c = [r]" using assms(2) by (simp add: refresh_ok_def)
  from schedule_refresh [OF assms(1) this assms(2)] obtain vs R' c' where
    s: "schedule c = Some c'" "ctrl_inv (us @ vs) acc R' c'" "refresh_ok (us @ vs) R' 0 c'" "same_conf (c\<lparr>otherq := otherq c'\<rparr>) c'"
      "otherq c' = [] \<longrightarrow> (REF, ref_addr (vault_id c), clk c) \<in> set vs" by blast
  have cf: "vault_id c' = vault_id c" "clk c' = clk c" "refreshed c' = refreshed c" using s(4) by (simp_all add: same_conf_def)
  have "refresh_hist (us @ vs) 0 c'"
  proof (cases "otherq c' = []")
    case True
    then show ?thesis using s(5) cf assms(3) unfolding refresh_hist_def by (intro exI [of _ "clk c"]) auto
  qed (use assms(3) cf r in \<open>auto simp: refresh_hist_def\<close>)
  then show ?thesis using s(1-4) by blast
qed

lemma tick_ok:
  assumes "ctrl_ok us acc R c"
  shows "\<exists>us' R' c'. tick c = Some c' \<and> ctrl_ok us' acc R' c' \<and> clk c' = clk c + 1 \<and> c_org c' = c_org c \<and> c_speed c' = c_speed c \<and>
    vault_id c' = vault_id c"
proof -
  let ?c = "c\<lparr>clk := clk c + 1\<rparr>"
  have a: "ctrl_inv us acc R c" "refresh_ok us R 0 c" "refresh_hist us 0 c" "refresh_clk c = clk c" using assms by (simp_all add: ctrl_ok_def)
  have dv: "dev_ok us R B ?c" if "dev_ok us R B c" for B using that by (auto simp: dev_ok_def)
  have d: "dev_ok us R (clk c + 200) ?c" using a(1) dv by (simp add: ctrl_inv_def)
  have "dev_ok us R (clk ?c + 200) ?c" by (rule dev_ok_mono [OF d]) simp
  moreover have "config_ok ?c" "queues_ok ?c" "packets_ok acc ?c" "load ?c = load c"
    using a(1) by (auto simp: ctrl_inv_def config_ok_def queues_ok_def queued_ok_def pending_ok_def packets_ok_def flight_def load_def [abs_def] answered_def)
  ultimately have ci: "ctrl_inv us acc R ?c" using a(1) by (simp add: ctrl_inv_def)
  have ro: "refresh_ok us R 1 ?c" "refresh_hist us 1 ?c" using a(2,3) dv by (auto simp: refresh_ok_def refresh_hist_def)
  obtain c1 where c1: "serve_completed ?c = Some c1" "ctrl_inv us acc R c1" "calm us R ?c c1" using serve_completed_ok [OF ci] by blast
  have cf: "clk c1 = clk c + 1" "refresh_clk c1 = clk c" "c_org c1 = c_org c" "vault_id c1 = vault_id c" "c_speed c1 = c_speed c"
    using c1(3) a(4) by (simp_all add: calm_def same_conf_def)
  have "dev_ok us R (clk c + 200) c1" using c1(3) d unfolding calm_def by blast
  then have d1: "dev_ok us R (clk c1 + 199) c1" by (rule dev_ok_mono) (simp add: cf(1))
  obtain c2 where c2: "tick_ref c1 = Some c2" "ctrl_inv us acc R c2" "refresh_ok us R 1 c2" "refresh_hist us 0 c2" "refresh_clk c2 = clk c1"
    "clk c2 = clk c1" "c_org c2 = c_org c1" "vault_id c2 = vault_id c1" "c_speed c2 = c_speed c1"
    using tick_ref_ok [OF c1(2) calm_refresh(1) [OF c1(3) ro(1)] _ d1 calm_refresh(2) [OF c1(3) ro(2)]] cf(1,2) by auto
  obtain b where b: "choose_mode c2 = c2\<lparr>write_mode := b\<rparr>" using choose_mode_eq by blast
  obtain us' R' c' where c': "schedule (choose_mode c2) = Some c'" "ctrl_inv us' acc R' c'" "refresh_ok us' R' 0 c'" "refresh_hist us' 0 c'"
    "same_conf ((c2\<lparr>write_mode := b\<rparr>)\<lparr>otherq := otherq c'\<rparr>) c'"
    using schedule_ok [of us acc R "c2\<lparr>write_mode := b\<rparr>"] c2(2-4) unfolding b ctrl_inv_mode by blast
  have "tick c = Some c'" using c1(1) c2(1) c'(1) by (simp add: tick_def)
  moreover have "ctrl_ok us' acc R' c'" using c'(2-5) c2(5,6) by (simp add: ctrl_ok_def same_conf_def)
  ultimately show ?thesis using c'(5) c2(5-9) cf by (intro exI [of _ us'] exI [of _ R'] exI [of _ c']) (simp add: same_conf_def)
qed

end
