(* ===== verification/Vault_Properties.thy ===== *)
theory Vault_Properties
  imports Vault_Tick
begin

text \<open>
  Properties of a vault in operation: packets arrive and cycles pass, in any order.  No assertion of the controller or the
  device fails, every accepted request is in flight or answered exactly once, every command respects the timing
  of the device, and the vault is refreshed in time.
\<close>

subsection \<open>Start\<close>

lemma new_vault_node:
  assumes "new_DRAM sp 0 = Some t" and "node_at p (set_id i t) = Some n"
  shows "\<exists>j. d_info n = (init_info sp (length p))\<lparr>d_id := j\<rparr>"
proof (cases p)
  case Nil
  then show ?thesis using new_DRAM_nodes [OF assms(1), of "[]" t] assms(2) by (auto simp: set_id_def)
next
  case (Cons a r)
  then have "node_at p t = Some n" using assms(2) by (simp add: set_id_def)
  then show ?thesis using new_DRAM_nodes [OF assms(1), of p n] by auto
qed

lemma new_vault_is:
  assumes "new_DRAM (hmc_standard org speed) 0 = Some t"
  shows "vault_is org (set_id v t) (\<lambda>_. None)"
proof -
  let ?t = "set_id v t"
  have sh: "vault_shape org ?t" by (rule new_vault_shape [OF assms])
  have ok: "tree_ok 0 ?t" using new_DRAM_ok [OF assms] by (simp add: tree_ok_set_id)
  have root: "d_state (d_info ?t) = PowerUp" using new_vault_node [OF assms, of "[]" v ?t] by (auto simp: init_info_def hmc_start_def)
  have "bank_is (bank_of ?t g b) None" if "bank_in org g b" for g b
  proof -
    have "node_at [g, b] ?t = Some (bank_of ?t g b)" using that by (simp add: vault_paths [OF sh])
    from new_vault_node [OF assms this] show ?thesis by (auto simp: bank_is_def init_info_def hmc_start_def)
  qed
  then show ?thesis using sh ok root by (simp add: vault_is_def)
qed

lemma new_vault_ok:
  assumes "2 \<le> flits"
  shows "\<exists>c. new_vault org speed flits False localvault rmab unset v = Some c \<and> ctrl_ok [] [] (\<lambda>_. None) c \<and>
    c_org c = org \<and> c_speed c = speed \<and> vault_id c = v \<and> clk c = 0"
proof -
  obtain t where t: "new_DRAM (hmc_standard org speed) 0 = Some t" using new_DRAM_total [of 0 "hmc_standard org speed"] by auto
  let ?t = "set_id v t" let ?c = "new_Controller org speed flits False localvault rmab unset ?t"
  have "device_ok (hmc_standard org speed) 3 [] ?t" using hmc.new_device_ok [OF t, of v] by simp
  moreover have "next_time (d_info n) c = - 1" if "node_at p ?t = Some n" for p n c
    using new_vault_node [OF t that] by (auto simp: init_info_def)
  ultimately have vi: "vault_inv org speed [] 200 ?t (\<lambda>_. None)" using new_vault_is [OF t] by (simp add: vault_inv_def)
  have so: "serving_ok ?t (\<lambda>_. 0)" unfolding serving_ok_def using new_vault_node [OF t] by (fastforce simp: init_info_def)
  have ld: "load ?c = (\<lambda>_. 0)" by (simp add: fun_eq_iff load_def flight_def new_Controller_def Let_def)
  have f: "c_org ?c = org" "c_speed ?c = speed" "channel ?c = ?t" "clk ?c = 0" "refresh_clk ?c = 0" "refreshed ?c = 0" "otherq ?c = []"
    "readq ?c = []" "writeq ?c = []" "pending ?c = []" "rowtable ?c = []" "cmd_trace ?c = []" "\<not> no_DRAM_latency ?c" "vault_id ?c = v"
    "response_packets_buffer ?c = []" "to_pu ?c = []"
    by (simp_all add: new_Controller_def Let_def set_id_def)
  have "config_ok ?c"
    using assms by (cases speed) (auto simp: config_ok_def new_Controller_def Let_def new_HMC_def prefetch_size_def channel_width_def bytes_per_flit_def)
  moreover have "dev_ok [] (\<lambda>_. None) (clk ?c + 200) ?c" using vi f by (simp add: dev_ok_def rows_ok_def rowtable_ok_def)
  moreover have "queues_ok ?c" "packets_ok [] ?c" using f by (simp_all add: queues_ok_def packets_ok_def flight_def answered_def)
  ultimately have "ctrl_inv [] [] (\<lambda>_. None) ?c" using so f ld by (simp add: ctrl_inv_def)
  then have "ctrl_ok [] [] (\<lambda>_. None) ?c" using f by (simp add: ctrl_ok_def refresh_ok_def refresh_hist_def)
  then show ?thesis using t f by (intro exI [of _ ?c]) (simp add: new_vault_def)
qed

subsection \<open>Operation\<close>

datatype vault_event = Arrive Packet | Tick

text \<open>From controller \<open>c\<close>, with \<open>acc\<close> the requests accepted.  A packet may come again after it was refused.\<close>
inductive vault_trace :: "Controller \<Rightarrow> int list \<Rightarrow> vault_event list \<Rightarrow> Controller \<Rightarrow> int list \<Rightarrow> bool" for c acc where
  start: "vault_trace c acc [] c acc"
| arrive: "vault_trace c acc es d acc' \<Longrightarrow> packet_ok (c_org d) (vault_id d) p \<Longrightarrow> packet_id p \<notin> set acc' \<Longrightarrow>
    receive p d = Some (b, e) \<Longrightarrow> vault_trace c acc (es @ [Arrive p]) e (if b then acc' @ [packet_id p] else acc')"
| cycle: "vault_trace c acc es d acc' \<Longrightarrow> tick d = Some e \<Longrightarrow> vault_trace c acc (es @ [Tick]) e acc'"

lemma vault_trace_ok:
  assumes "vault_trace c acc es d acc'" and "ctrl_ok us acc R c"
  shows "\<exists>us' R'. ctrl_ok us' acc' R' d \<and> clk d = clk c + int (count_list es Tick) \<and> c_org d = c_org c \<and> c_speed d = c_speed c \<and>
    vault_id d = vault_id c"
  using assms
proof (induction rule: vault_trace.induct)
  case (arrive es d acc' p b e)
  then obtain us' R' where i: "ctrl_ok us' acc' R' d" "clk d = clk c + int (count_list es Tick)" "c_org d = c_org c" "vault_id d = vault_id c"
    "c_speed d = c_speed c" by blast
  have "ctrl_ok us' (if b then acc' @ [packet_id p] else acc') R' e \<and> clk e = clk d \<and> c_org e = c_org d \<and> vault_id e = vault_id d \<and> c_speed e = c_speed d"
    using receive_ok [OF i(1) arrive(2,3)] arrive(4) by auto
  then show ?case using i by (intro exI [of _ us'] exI [of _ R']) simp
next
  case (cycle es d acc' e)
  then obtain us' R' where i: "ctrl_ok us' acc' R' d" "clk d = clk c + int (count_list es Tick)" "c_org d = c_org c" "vault_id d = vault_id c"
    "c_speed d = c_speed c" by blast
  then show ?case using tick_ok [OF i(1)] cycle(2) by auto
qed auto

text \<open>A vault in operation.\<close>
definition in_operation :: "Org \<Rightarrow> Speed \<Rightarrow> int \<Rightarrow> vault_event list \<Rightarrow> Controller \<Rightarrow> int list \<Rightarrow> bool" where
  "in_operation org speed v es c acc \<longleftrightarrow> (\<exists>flits localvault rmab unset d. 2 \<le> flits \<and>
     new_vault org speed flits False localvault rmab unset v = Some d \<and> vault_trace d [] es c acc)"

lemma in_operation_ok:
  assumes "in_operation org speed v es c acc"
  shows "\<exists>us R. ctrl_ok us acc R c \<and> c_org c = org \<and> c_speed c = speed \<and> vault_id c = v \<and> clk c = int (count_list es Tick)"
proof -
  obtain flits localvault rmab unset d where d: "2 \<le> flits" "new_vault org speed flits False localvault rmab unset v = Some d"
    "vault_trace d [] es c acc" using assms by (auto simp: in_operation_def)
  from new_vault_ok [OF d(1), of org speed localvault rmab unset v] d(2) have
    o: "ctrl_ok [] [] (\<lambda>_. None) d" "c_org d = org" "vault_id d = v" "clk d = 0" "c_speed d = speed" by auto
  show ?thesis using vault_trace_ok [OF d(3) o(1)] o(2-5) by auto
qed

lemma start_operation: "\<exists>c. in_operation org speed v [] c []"
proof -
  obtain c where "new_vault org speed 4 False False 0 0 v = Some c" using new_vault_ok [of 4 org speed False 0 0 v] by auto
  moreover have "vault_trace c [] [] c []" by (rule vault_trace.start)
  moreover have "(2 :: int) \<le> 4" by simp
  ultimately show ?thesis unfolding in_operation_def by blast
qed

lemma operation_cycle: "in_operation org speed v es c acc \<Longrightarrow> \<exists>d. tick c = Some d \<and> in_operation org speed v (es @ [Tick]) d acc"
  using in_operation_ok tick_ok unfolding in_operation_def by (metis vault_trace.cycle)

lemma operation_arrive:
  assumes "in_operation org speed v es c acc" and "packet_ok org v p" and "packet_id p \<notin> set acc"
  shows "\<exists>b d. receive p c = Some (b, d) \<and> in_operation org speed v (es @ [Arrive p]) d (if b then acc @ [packet_id p] else acc)"
proof -
  obtain us R where i: "ctrl_ok us acc R c" "c_org c = org" "vault_id c = v" using in_operation_ok [OF assms(1)] by blast
  obtain b d where d: "receive p c = Some (b, d)" using receive_ok [OF i(1), of p] assms(2,3) i(2,3) by blast
  obtain flits localvault rmab unset c0 where o: "2 \<le> flits" "new_vault org speed flits False localvault rmab unset v = Some c0"
    "vault_trace c0 [] es c acc" using assms(1) by (auto simp: in_operation_def)
  have "vault_trace c0 [] (es @ [Arrive p]) d (if b then acc @ [packet_id p] else acc)"
    by (rule vault_trace.arrive [OF o(3) _ assms(3) d]) (use assms(2) i(2,3) in simp)
  then show ?thesis using d o(1,2) unfolding in_operation_def by blast
qed

subsection \<open>An example\<close>

text \<open>A read of the first bank of vault 0.\<close>
definition sample_request :: Request where
  "sample_request = (Request_vec 0 [0, 0, 0, 5, 0] READ 0)\<lparr>reqid := 7\<rparr>"

definition sample_packet :: Packet where
  "sample_packet = (the (Packet_request PREQUEST 0 0 0 1 0 RD64))\<lparr>packet_req := Some sample_request\<rparr>"

lemma sample_packet_ok: "packet_ok HMC_4GB 0 sample_packet" "packet_id sample_packet = 7"
  by (auto simp: packet_ok_def packet_id_def sample_packet_def Packet_request_def sample_request_def Request_vec_def good_packet_def
    access_req_def bank_in_def cub_bits_def tag_bits_def slid_bits_def)

lemma sample_received:
  assumes "new_vault HMC_4GB HMC_2500 4 False False 0 0 0 = Some c"
  shows "\<exists>d. receive sample_packet c = Some (True, d)"
  using assms by (auto simp: new_vault_def new_Controller_def Let_def receive_def sample_packet_def Packet_request_def enqueue_def
    get_queue_def queue_max_def sample_request_def Request_vec_def)

lemma sample_operation: "\<exists>c. in_operation HMC_4GB HMC_2500 0 [Arrive sample_packet, Tick] c [7]"
proof -
  obtain c where c: "new_vault HMC_4GB HMC_2500 4 False False 0 0 0 = Some c" "c_org c = HMC_4GB" "vault_id c = 0"
    using new_vault_ok [of 4 HMC_4GB HMC_2500 False 0 0 0] by auto
  obtain d where d: "receive sample_packet c = Some (True, d)" using sample_received [OF c(1)] by blast
  have "vault_trace c [] ([] @ [Arrive sample_packet]) d (if True then [] @ [packet_id sample_packet] else [])"
    by (rule vault_trace.arrive [OF vault_trace.start _ _ d]) (use sample_packet_ok c in simp_all)
  moreover have "(2 :: int) \<le> 4" by simp
  ultimately have "in_operation HMC_4GB HMC_2500 0 [Arrive sample_packet] d [7]"
    unfolding in_operation_def using c(1) sample_packet_ok(2) by fastforce
  from operation_cycle [OF this] show ?thesis by auto
qed

subsection \<open>Properties\<close>

text \<open>
  C5. A vault accounts for its requests.  In every state that a vault reaches, by packets arriving and cycles passing in
  any order, the requests it has accepted are exactly those it still holds and those it has answered, each
  once: no request is lost and none is answered twice.  From every such state a cycle can pass, and every new
  packet for the vault can arrive: no assertion of the controller, its scheduler, its row table or the device fails.
\<close>
theorem vault_accounts_for_requests:
  assumes "in_operation org speed v es c acc"
  shows "distinct acc \<and> image_mset reqid (flight c) + mset (answered c) = mset acc \<and> (\<exists>d. tick c = Some d) \<and>
    (\<forall>p. packet_ok org v p \<and> packet_id p \<notin> set acc \<longrightarrow> (\<exists>b d. receive p c = Some (b, d)))"
proof -
  obtain us R where "ctrl_ok us acc R c" using in_operation_ok [OF assms] by blast
  then have "packets_ok acc c" by (simp add: ctrl_ok_def ctrl_inv_def)
  then show ?thesis using operation_cycle [OF assms] operation_arrive [OF assms] unfolding packets_ok_def by blast
qed

theorem vault_accounts_for_requests_witness:
  "\<exists>c. in_operation HMC_4GB HMC_2500 0 [Arrive sample_packet, Tick] c [7] \<and>
    image_mset reqid (flight c) + mset (answered c) = {#7#} \<and> (\<exists>d. tick c = Some d)"
proof -
  obtain c where c: "in_operation HMC_4GB HMC_2500 0 [Arrive sample_packet, Tick] c [7]" using sample_operation by blast
  then show ?thesis using vault_accounts_for_requests [OF c] by (intro exI [of _ c]) simp
qed

text \<open>
  C6. Timing.  Every command that a vault issues comes late enough after the commands before it.  For each
  entry of the timing table of the cube, at the level of the vault, the bank group and the bank: if the entry constrains the
  command after another one, at some distance, then the command comes at least the entry's number of cycles after
  the command of that kind which was issued to the same node that many commands ago.
\<close>
theorem vault_respects_timing:
  assumes "in_operation org speed v es c acc"
  shows "timing_legal (hmc_standard org speed) 3 (cmd_trace c)"
  using in_operation_ok [OF assms] by (auto simp: ctrl_ok_def ctrl_inv_def dev_ok_def)

theorem vault_respects_timing_witness:
  "\<exists>c. in_operation HMC_4GB HMC_2500 0 [Arrive sample_packet, Tick] c [7] \<and> timing_legal (hmc_standard HMC_4GB HMC_2500) 3 (cmd_trace c)"
  using sample_operation vault_respects_timing by blast

text \<open>
  C8. The vault stays well formed.  Every bank is closed with no row marked, or open with exactly one row, and the
  table of open rows that the controller keeps lists exactly the open banks with their rows; each node of the device counts
  the requests being served that go through it.
\<close>
theorem vault_well_formed:
  assumes "in_operation org speed v es c acc"
  shows "(\<exists>R. vault_is org (channel c) R \<and> rows_ok v R (rowtable c)) \<and> serving_ok (channel c) (load c)"
  using in_operation_ok [OF assms] by (auto simp: ctrl_ok_def ctrl_inv_def dev_ok_def vault_inv_def)

theorem vault_well_formed_witness:
  "\<exists>c. in_operation HMC_4GB HMC_2500 0 [Arrive sample_packet, Tick] c [7] \<and> (\<exists>R. vault_is HMC_4GB (channel c) R \<and> rows_ok 0 R (rowtable c))"
  using sample_operation vault_well_formed by blast

text \<open>
  C7. Refresh.  At every time the last refresh of a vault, or its start, is less than 10150 cycles ago, whatever requests
  keep arriving: 9750 cycles pass until the next refresh is asked for, and it waits less than 400 cycles.
\<close>
theorem vault_refreshed_in_time:
  assumes "in_operation org speed v es c acc"
  shows "\<exists>k. (k = 0 \<or> (REF, ref_addr v, k) \<in> set (cmd_trace c)) \<and> k \<le> clk c \<and> clk c < k + 10150 \<and> clk c = int (count_list es Tick)"
proof -
  obtain us R where i: "ctrl_ok us acc R c" "vault_id c = v" "clk c = int (count_list es Tick)" using in_operation_ok [OF assms] by blast
  have h: "refresh_hist us 0 c" "refresh_ok us R 0 c" "cmd_trace c = us" using i(1) by (simp_all add: ctrl_ok_def ctrl_inv_def dev_ok_def)
  obtain k where k: "k = 0 \<or> (REF, ref_addr v, k) \<in> set us" "k \<le> clk c" "refreshed c \<le> k + (if otherq c = [] then 0 else 9750)"
    "clk c < refreshed c + 9750" using h(1) i(2) by (auto simp: refresh_hist_def)
  have "clk c < k + 10150"
  proof (cases "otherq c = []")
    case False
    then have "clk c < refreshed c + 400" using h(2) by (auto simp: refresh_ok_def refresh_wait_def split: if_splits)
    then show ?thesis using k(3) False by simp
  qed (use k in simp)
  then show ?thesis using k(1,2) h(3) i(3) by blast
qed

theorem vault_refreshed_in_time_witness:
  "\<exists>c k. in_operation HMC_4GB HMC_2500 0 [Arrive sample_packet, Tick] c [7] \<and> clk c = 1 \<and> k \<le> clk c \<and> clk c < k + 10150"
proof -
  obtain c where c: "in_operation HMC_4GB HMC_2500 0 [Arrive sample_packet, Tick] c [7]" using sample_operation by blast
  from vault_refreshed_in_time [OF c] show ?thesis using c by (auto intro!: exI [of _ c])
qed

text \<open>
  C33. The default scheduling policy.  If some request of the queue is ready and hits an open row, the scheduler takes the
  oldest such request.  Otherwise it takes a request that does not close a row which another request of the
  queue would hit, the oldest ready one among these if one is ready; it takes none only if every request would
  close such a row.
\<close>
theorem get_head_prior_hit:
  assumes "sched_type c = FRFCFS_PriorHit" and "\<forall>r \<in> set q. query_ok c r" and "q \<noteq> []"
  shows "\<exists>h. sched_get_head q c = Some (h, c) \<and>
    (if \<exists>r \<in> set q. ready c r \<and> hits c r
     then \<exists>i < length q. h = Some i \<and> ready c (q ! i) \<and> hits c (q ! i) \<and>
       (\<forall>r \<in> set q. ready c r \<and> hits c r \<longrightarrow> arrive (q ! i) \<le> arrive r)
     else case h of None \<Rightarrow> \<forall>r \<in> set q. violates q c r
       | Some i \<Rightarrow> i < length q \<and> \<not> violates q c (q ! i) \<and>
           (\<forall>r \<in> set q. \<not> violates q c r \<and> ready c r \<longrightarrow> ready c (q ! i) \<and> arrive (q ! i) \<le> arrive r))"
proof -
  obtain i where i: "best FRFCFS_PriorHit q c = Some (i, c)" "i < length q" "\<forall>j < length q. better FRFCFS_PriorHit c (q ! i) (q ! j)"
    using best_ok [of FRFCFS_PriorHit, OF _ assms(2,3)] by blast
  have qi: "query_ok c (q ! i)" using assms(2) i(2) by simp
  have all: "better FRFCFS_PriorHit c (q ! i) r" if "r \<in> set q" for r using that i(3) by (auto simp: in_set_conv_nth)
  show ?thesis
  proof (cases "ready c (q ! i) \<and> hits c (q ! i)")
    case True
    have "sched_get_head q c = Some (Some i, c)" using True i(1) assms by (simp add: sched_get_head_def)
    moreover have "arrive (q ! i) \<le> arrive r" if "r \<in> set q" "ready c r \<and> hits c r" for r
      using all [OF that(1)] that(2) True by (simp add: better_def prefers_def)
    ultimately show ?thesis using True i(2) nth_mem by (intro exI [of _ "Some i"]) auto
  next
    case False
    have none: "\<not> (\<exists>r \<in> set q. ready c r \<and> hits c r)"
      using all False by (auto simp: better_def prefers_def)
    obtain gs where gs: "hit_reqs q c = Some gs" "set gs = rowgroup ` {r \<in> set q. hits c r}" using hit_reqs_ok [OF assms(2)] by blast
    obtain h where h: "fold_opt (pick_step gs q) [0..<length q] (None, c) = Some (h, c)" "h = None \<longrightarrow> (\<forall>r \<in> set q. violates q c r)"
      "\<forall>i. h = Some i \<longrightarrow> i < length q \<and> \<not> violates q c (q ! i) \<and> (\<forall>j < length q. \<not> violates q c (q ! j) \<longrightarrow> better FRFCFS c (q ! i) (q ! j))"
      using pick_ok [OF assms(2) gs(2)] by blast
    obtain x y where "is_ready c (q ! i) = Some x" "is_row_hit c (q ! i) = Some y" using qi by (auto simp: query_ok_def)
    then have g: "sched_get_head q c = Some (h, c)"
      using False i(1) assms(1,3) gs(1) h(1) by (cases x; cases y) (auto simp: sched_get_head_def)
    have "ready c (q ! k) \<and> arrive (q ! k) \<le> arrive r" if k: "h = Some k" and r: "r \<in> set q" "\<not> violates q c r \<and> ready c r" for k r
    proof -
      obtain j where "j < length q" "r = q ! j" using r(1) by (auto simp: in_set_conv_nth)
      then have "better FRFCFS c (q ! k) r" using h(3) k r(2) by auto
      then show ?thesis using r(2) by (simp add: better_def prefers_def)
    qed
    then show ?thesis using g none h(2,3) by (intro exI [of _ h]) (auto split: option.split)
  qed
qed

theorem get_head_prior_hit_witness:
  "\<exists>c h. new_vault HMC_4GB HMC_2500 4 False False 0 0 0 = Some c \<and>
    sched_get_head [sample_request\<lparr>arrive := 3\<rparr>, sample_request\<lparr>arrive := 2\<rparr>] c = Some (h, c)"
proof -
  let ?q = "[sample_request\<lparr>arrive := 3\<rparr>, sample_request\<lparr>arrive := 2\<rparr>]"
  obtain c where c: "new_vault HMC_4GB HMC_2500 4 False False 0 0 0 = Some c" "ctrl_ok [] [] (\<lambda>_. None) c" "c_org c = HMC_4GB" "vault_id c = 0"
    using new_vault_ok [of 4 HMC_4GB HMC_2500 False 0 0 0] by auto
  have "access_req (c_org c) (vault_id c) r" if "r \<in> set ?q" for r
    using that c(3,4) by (auto simp: access_req_def sample_request_def Request_vec_def bank_in_def)
  then have q: "\<forall>r \<in> set ?q. query_ok c r" using access_queries(1) c(2) unfolding ctrl_ok_def ctrl_inv_def by blast
  have t: "sched_type c = FRFCFS_PriorHit" using c(1) by (auto simp: new_vault_def new_Controller_def Let_def)
  show ?thesis using get_head_prior_hit [OF t q] c(1) by auto
qed



end
