(* ===== verification/Hmc_Link.thy ===== *)
theory Hmc_Link
  imports Packets
begin

text \<open>
  The serial links between cubes (\<^verbatim>\<open>LinkMaster\<close>, \<^verbatim>\<open>LinkSlave\<close> and \<^verbatim>\<open>Link\<close> in
  \<^verbatim>\<open>src/src/ramulator/LogicLayer.h\<close> and \<^verbatim>\<open>LogicLayer.cpp\<close>) with their flow control by tokens.  The
  master of a link sends when it has tokens for the flits of a packet; the slave of the link at the other side counts
  the flits it has handed on, and the master at that side returns them as tokens, a power of two with each packet.
  A link that leads to the host calls a function instead; its calls are collected in \<open>to_host\<close>.  The time of
  a flit in cycles is a parameter.
\<close>

subsection \<open>State\<close>

datatype LinkType = HOST_SOURCE_MODE | HOST | PASSTHRU

record LinkMaster =
  output_buffer :: "Packet list"
  m_buffer_max :: int
  m_buffer_occupied :: int
  available_token_count :: int
  m_clk :: int
  next_packet_clk :: int

record LinkSlave =
  extracted_token_count :: int
  input_buffer :: "Packet list"
  s_buffer_max :: int
  s_buffer_occupied :: int

record Link =
  link_type :: LinkType
  slave :: LinkSlave
  master :: LinkMaster
  to_host :: "Packet list"

definition new_Link :: "LinkType \<Rightarrow> Link" where
  "new_Link type = \<lparr>link_type = type,
     slave = \<lparr>extracted_token_count = 0, input_buffer = [], s_buffer_max = 32, s_buffer_occupied = 0\<rparr>,
     master = \<lparr>output_buffer = [], m_buffer_max = 32, m_buffer_occupied = 0, available_token_count = 32, m_clk = 0, next_packet_clk = 0\<rparr>,
     to_host = []\<rparr>"

definition m_available_space :: "Link \<Rightarrow> int" where
  "m_available_space l = m_buffer_max (master l) - m_buffer_occupied (master l)"

definition s_available_space :: "Link \<Rightarrow> int" where
  "s_available_space l = s_buffer_max (slave l) - s_buffer_occupied (slave l)"

subsection \<open>Operations\<close>

text \<open>The loop of \<open>leftmostbit\<close>; a negative value never becomes zero.\<close>
partial_function (option) leftmost_loop :: "int \<Rightarrow> nat \<Rightarrow> nat option" where
  "leftmost_loop val n = (if val div 2 = 0 then Some n else leftmost_loop (val div 2) (Suc n))"

definition leftmostbit :: "int \<Rightarrow> int option" where
  "leftmostbit val = (if val = 0 then Some 0 else do { n \<leftarrow> leftmost_loop val 0; Some (2 ^ n) })"

definition add_tokens :: "int \<Rightarrow> Link \<Rightarrow> Link" where
  "add_tokens rtc l = l\<lparr>master := (master l)\<lparr>available_token_count := available_token_count (master l) + rtc\<rparr>\<rparr>"

definition slave_receive :: "Packet \<Rightarrow> Link \<Rightarrow> Link option" where
  "slave_receive p l = do {
     f \<leftarrow> RTC (tail p);
     let l1 = add_tokens (field_value f) l;
     Some (if flow_control p then l1
           else l1\<lparr>slave := (slave l1)\<lparr>input_buffer := input_buffer (slave l1) @ [p],
                                       s_buffer_occupied := s_buffer_occupied (slave l1) + total_flits p\<rparr>\<rparr>)
   }"

definition take_tokens :: "int \<Rightarrow> Link \<Rightarrow> Link" where
  "take_tokens rtc l = l\<lparr>slave := (slave l)\<lparr>extracted_token_count := extracted_token_count (slave l) - rtc\<rparr>\<rparr>"

definition set_next :: "int \<Rightarrow> Link \<Rightarrow> Link" where
  "set_next k l = l\<lparr>master := (master l)\<lparr>next_packet_clk := m_clk (master l) + k\<rparr>\<rparr>"

definition set_rtc :: "int \<Rightarrow> Packet \<Rightarrow> Packet option" where
  "set_rtc rtc p = do { f \<leftarrow> RTC (tail p); Some (p\<lparr>tail := (tail p)\<lparr>RTC := Some (f\<lparr>field_value := rtc\<rparr>)\<rparr>\<rparr>) }"

text \<open>A data packet; \<open>peer\<close> is the link at the other side, if there is one.\<close>
definition send_data :: "rat \<Rightarrow> Packet \<Rightarrow> Link \<Rightarrow> Link option \<Rightarrow> (Link \<times> Link option) option" where
  "send_data flit_cycles p l peer = do {
     let l1 = l\<lparr>master := (master l)\<lparr>output_buffer := tl (output_buffer (master l)),
                                     m_buffer_occupied := m_buffer_occupied (master l) - total_flits p\<rparr>\<rparr>;
     rtc \<leftarrow> leftmostbit (extracted_token_count (slave l1));
     let l2 = take_tokens rtc l1;
     p1 \<leftarrow> set_rtc rtc p;
     (l3, peer1) \<leftarrow>
       (if link_type l2 \<noteq> HOST_SOURCE_MODE then do {
          o1 \<leftarrow> peer;
          _ \<leftarrow> assert_that (total_flits p1 \<le> s_available_space o1);
          o2 \<leftarrow> slave_receive p1 o1;
          Some (add_tokens (- total_flits p1) l2, Some o2)
        } else Some (l2\<lparr>to_host := to_host l2 @ [p1]\<rparr>, peer));
     Some (set_next \<lceil>of_int (total_flits p1) * flit_cycles\<rceil> l3, peer1)
   }"

text \<open>A packet that only returns tokens, or none.\<close>
definition send_tokens :: "rat \<Rightarrow> Link \<Rightarrow> Link option \<Rightarrow> (Link \<times> Link option) option" where
  "send_tokens flit_cycles l peer =
     (if extracted_token_count (slave l) > 0 then do {
        rtc \<leftarrow> leftmostbit (extracted_token_count (slave l));
        let l1 = take_tokens rtc l;
        p \<leftarrow> Packet_tret TRET rtc;
        if link_type l1 \<noteq> HOST_SOURCE_MODE then do {
          o1 \<leftarrow> peer;
          o2 \<leftarrow> slave_receive p o1;
          Some (l1, Some o2)
        } else Some (set_next \<lceil>of_int (total_flits p) * flit_cycles\<rceil> (l1\<lparr>to_host := to_host l1 @ [p]\<rparr>), peer)
      } else Some (set_next \<lceil>flit_cycles\<rceil> l, peer))"

definition link_send :: "rat \<Rightarrow> Link \<Rightarrow> Link option \<Rightarrow> (Link \<times> Link option) option" where
  "link_send flit_cycles l peer = (case output_buffer (master l) of
     [] \<Rightarrow> send_tokens flit_cycles l peer
   | p # ps \<Rightarrow> if available_token_count (master l) \<ge> total_flits p then send_data flit_cycles p l peer else send_tokens flit_cycles l peer)"

definition link_tick :: "rat \<Rightarrow> Link \<Rightarrow> Link option \<Rightarrow> (Link \<times> Link option) option" where
  "link_tick flit_cycles l peer = (let l1 = l\<lparr>master := (master l)\<lparr>m_clk := m_clk (master l) + 1\<rparr>\<rparr> in
     if m_clk (master l1) \<ge> next_packet_clk (master l1) then link_send flit_cycles l1 peer else Some (l1, peer))"

text \<open>What the switch does with a link: it puts a packet into the output buffer if there is space, and takes one out of the input buffer.\<close>
definition push_output :: "Packet \<Rightarrow> Link \<Rightarrow> Link option" where
  "push_output p l =
     (if total_flits p \<le> m_available_space l
      then Some (l\<lparr>master := (master l)\<lparr>output_buffer := output_buffer (master l) @ [p],
                                       m_buffer_occupied := m_buffer_occupied (master l) + total_flits p\<rparr>\<rparr>)
      else None)"

definition pop_input :: "Link \<Rightarrow> (Packet \<times> Link) option" where
  "pop_input l = (case input_buffer (slave l) of
     [] \<Rightarrow> None
   | p # ps \<Rightarrow> Some (p, l\<lparr>slave := (slave l)\<lparr>extracted_token_count := extracted_token_count (slave l) + total_flits p,
                                             s_buffer_occupied := s_buffer_occupied (slave l) - total_flits p,
                                             input_buffer := ps\<rparr>\<rparr>))"

subsection \<open>Tokens\<close>

lemma leftmost_loop_ok:
  assumes "0 < val"
  shows "\<exists>m. leftmost_loop val n = Some (n + m) \<and> 2 ^ m \<le> val \<and> val < 2 ^ Suc m"
  using assms
proof (induction "nat val" arbitrary: val n rule: less_induct)
  case less
  show ?case
  proof (cases "val div 2 = 0")
    case True
    then have "val = 1" using less(2) by presburger
    then show ?thesis by (subst leftmost_loop.simps) simp
  next
    case False
    then have "0 < val div 2" "val div 2 < val" using less(2) by presburger+
    then have v: "0 < val div 2" "nat (val div 2) < nat val" by simp_all
    obtain m where m: "leftmost_loop (val div 2) (Suc n) = Some (Suc n + m)" "2 ^ m \<le> val div 2" "val div 2 < 2 ^ Suc m"
      using less(1) [OF v(2,1)] by blast
    have "leftmost_loop val n = Some (n + Suc m)" using m(1) False by (subst leftmost_loop.simps) simp
    moreover have "2 ^ Suc m \<le> val" "val < 2 ^ Suc (Suc m)" using m(2,3) by simp_all
    ultimately show ?thesis by blast
  qed
qed

lemma leftmostbit_ok:
  assumes "0 \<le> val"
  shows "\<exists>b. leftmostbit val = Some b \<and> 0 \<le> b \<and> b \<le> val \<and> (0 < val \<longrightarrow> val < 2 * b)"
  using assms leftmost_loop_ok [of val 0] by (cases "val = 0") (auto simp: leftmostbit_def)

subsection \<open>The invariant of a direction\<close>

text \<open>A packet without the tokens it returns.\<close>
definition strip :: "Packet \<Rightarrow> Packet" where
  "strip p = p\<lparr>tail := (tail p)\<lparr>RTC := None\<rparr>\<rparr>"

definition flits :: "Packet list \<Rightarrow> int" where
  "flits ps = sum_list (map total_flits ps)"

lemma flits_simps [simp]: "flits [] = 0" "flits (p # ps) = total_flits p + flits ps" "flits (ps @ qs) = flits ps + flits qs"
  by (simp_all add: flits_def)

definition data_packet :: "Packet \<Rightarrow> bool" where
  "data_packet p \<longleftrightarrow> \<not> flow_control p \<and> 1 \<le> total_flits p \<and> RTC (tail p) \<noteq> None"

lemma flits_nonneg: "\<forall>p \<in> set ps. data_packet p \<Longrightarrow> 0 \<le> flits ps"
  by (induction ps) (auto simp: data_packet_def)

text \<open>
  From the master of \<open>l\<close> to the slave of \<open>m\<close>: the tokens of the master, the flits in the buffer of the slave and the
  flits it has handed on are always 32 in all; what was put in is what was taken out and what is on the way, in this order.
\<close>
definition dir_ok :: "Link \<Rightarrow> Link \<Rightarrow> Packet list \<Rightarrow> Packet list \<Rightarrow> bool" where
  "dir_ok l m ins outs \<longleftrightarrow> link_type l \<noteq> HOST_SOURCE_MODE \<and> m_buffer_max (master l) = 32 \<and> s_buffer_max (slave m) = 32 \<and>
     m_buffer_occupied (master l) = flits (output_buffer (master l)) \<and> m_buffer_occupied (master l) \<le> 32 \<and>
     s_buffer_occupied (slave m) = flits (input_buffer (slave m)) \<and> 0 \<le> extracted_token_count (slave m) \<and>
     0 \<le> available_token_count (master l) \<and>
     available_token_count (master l) + s_buffer_occupied (slave m) + extracted_token_count (slave m) = 32 \<and>
     (\<forall>p \<in> set (output_buffer (master l)) \<union> set (input_buffer (slave m)). data_packet p) \<and>
     map strip ins = map strip (outs @ input_buffer (slave m) @ output_buffer (master l))"

text \<open>One side: the link, what was put into its output buffer, and what was taken out of its input buffer.\<close>
type_synonym side = "Link \<times> Packet list \<times> Packet list"

fun pair_ok :: "side \<Rightarrow> side \<Rightarrow> bool" where
  "pair_ok (l, li, lo) (m, mi, mo) \<longleftrightarrow> dir_ok l m li mo \<and> dir_ok m l mi lo"

lemma pair_ok_sym: "pair_ok s t \<Longrightarrow> pair_ok t s"
  by (cases s; cases t) simp

text \<open>Sending returns tokens and never overruns the other side.\<close>
lemma link_send_ok:
  assumes "pair_ok (l, li, lo) (m, mi, mo)"
  shows "\<exists>l' m' b. link_send fc l (Some m) = Some (l', Some m') \<and> pair_ok (l', li, lo) (m', mi, mo) \<and>
    leftmostbit (extracted_token_count (slave l)) = Some b \<and> extracted_token_count (slave l') = extracted_token_count (slave l) - b \<and>
    input_buffer (slave l') = input_buffer (slave l) \<and> extracted_token_count (slave m') = extracted_token_count (slave m) \<and>
    output_buffer (master m') = output_buffer (master m) \<and>
    (\<forall>p ps. output_buffer (master l) = p # ps \<and> total_flits p \<le> available_token_count (master l) \<longrightarrow>
      (\<exists>q. strip q = strip p \<and> input_buffer (slave m') = input_buffer (slave m) @ [q]))"
proof -
  have d: "dir_ok l m li mo" "dir_ok m l mi lo" using assms by simp_all
  obtain b where b: "leftmostbit (extracted_token_count (slave l)) = Some b" "0 \<le> b" "b \<le> extracted_token_count (slave l)"
    using leftmostbit_ok [of "extracted_token_count (slave l)"] d(2) by (auto simp: dir_ok_def)
  have t: "link_type l \<noteq> HOST_SOURCE_MODE" using d(1) by (simp add: dir_ok_def)
  show ?thesis
  proof (cases "\<exists>p ps. output_buffer (master l) = p # ps \<and> total_flits p \<le> available_token_count (master l)")
    case True
    then obtain p ps where p: "output_buffer (master l) = p # ps" "total_flits p \<le> available_token_count (master l)" by blast
    have dp: "data_packet p" using d(1) p(1) by (simp add: dir_ok_def)
    then obtain f where f: "RTC (tail p) = Some f" "\<not> flow_control p" "1 \<le> total_flits p" by (auto simp: data_packet_def)
    let ?p = "p\<lparr>tail := (tail p)\<lparr>RTC := Some (f\<lparr>field_value := b\<rparr>)\<rparr>\<rparr>"
    let ?m = "m\<lparr>master := (master m)\<lparr>available_token_count := available_token_count (master m) + b\<rparr>,
      slave := (slave m)\<lparr>input_buffer := input_buffer (slave m) @ [?p], s_buffer_occupied := s_buffer_occupied (slave m) + total_flits p\<rparr>\<rparr>"
    let ?l = "l\<lparr>master := (master l)\<lparr>output_buffer := ps, m_buffer_occupied := m_buffer_occupied (master l) - total_flits p,
        available_token_count := available_token_count (master l) - total_flits p,
        next_packet_clk := m_clk (master l) + \<lceil>of_int (total_flits p) * fc\<rceil>\<rparr>,
      slave := (slave l)\<lparr>extracted_token_count := extracted_token_count (slave l) - b\<rparr>\<rparr>"
    have "total_flits p \<le> s_available_space m" using d(1) p by (simp add: dir_ok_def s_available_space_def)
    then have "link_send fc l (Some m) = Some (?l, Some ?m)"
      using p b(1) f t by (simp add: link_send_def send_data_def set_rtc_def slave_receive_def add_tokens_def take_tokens_def set_next_def Let_def)
    moreover have s: "strip ?p = strip p" by (simp add: strip_def)
    moreover have "dir_ok ?l ?m li mo" using d(1) p f s by (auto simp: dir_ok_def data_packet_def)
    moreover have "dir_ok ?m ?l mi lo" using d(2) b by (simp add: dir_ok_def)
    ultimately show ?thesis using b(1) p(1) by (intro exI [of _ ?l] exI [of _ ?m] exI [of _ b]) (auto intro: exI [of _ ?p])
  next
    case no: False
    then have ls: "link_send fc l (Some m) = send_tokens fc l (Some m)" by (auto simp: link_send_def split: list.split)
    show ?thesis
    proof (cases "extracted_token_count (slave l) > 0")
      case True
      let ?m = "m\<lparr>master := (master m)\<lparr>available_token_count := available_token_count (master m) + b\<rparr>\<rparr>"
      let ?l = "l\<lparr>slave := (slave l)\<lparr>extracted_token_count := extracted_token_count (slave l) - b\<rparr>\<rparr>"
      have "link_send fc l (Some m) = Some (?l, Some ?m)"
        using ls True b(1) t by (simp add: send_tokens_def slave_receive_def add_tokens_def take_tokens_def Packet_tret_def)
      moreover have "dir_ok ?l ?m li mo" "dir_ok ?m ?l mi lo" using d b by (simp_all add: dir_ok_def)
      ultimately show ?thesis using b(1) no by (intro exI [of _ ?l] exI [of _ ?m] exI [of _ b]) auto
    next
      case False
      let ?l = "set_next \<lceil>fc\<rceil> l"
      have "extracted_token_count (slave l) = 0" using False d(2) by (simp add: dir_ok_def)
      then have "b = 0" using b by simp
      moreover have "link_send fc l (Some m) = Some (?l, Some m)" using ls False by (simp add: send_tokens_def)
      moreover have "dir_ok ?l m li mo" "dir_ok m ?l mi lo" using d by (simp_all add: dir_ok_def set_next_def)
      ultimately show ?thesis using b(1) no by (intro exI [of _ ?l] exI [of _ m] exI [of _ b]) (auto simp: set_next_def)
    qed
  qed
qed

lemma link_tick_ok:
  assumes "pair_ok (l, li, lo) (m, mi, mo)"
  shows "\<exists>l' m'. link_tick fc l (Some m) = Some (l', Some m') \<and> pair_ok (l', li, lo) (m', mi, mo)"
proof -
  let ?l = "l\<lparr>master := (master l)\<lparr>m_clk := m_clk (master l) + 1\<rparr>\<rparr>"
  have ok: "pair_ok (?l, li, lo) (m, mi, mo)" using assms by (simp add: dir_ok_def)
  show ?thesis using link_send_ok [OF ok, of fc] ok by (auto simp: link_tick_def Let_def)
qed

lemma push_output_ok:
  assumes "pair_ok (l, li, lo) s" and "data_packet p" and "push_output p l = Some l'"
  shows "pair_ok (l', li @ [p], lo) s"
proof -
  obtain m mi mo where "s = (m, mi, mo)" by (cases s)
  then show ?thesis using assms by (auto simp: push_output_def m_available_space_def dir_ok_def split: if_splits)
qed

lemma pop_input_ok:
  assumes "pair_ok (l, li, lo) s" and "pop_input l = Some (p, l')"
  shows "pair_ok (l', li, lo @ [p]) s"
proof -
  obtain m mi mo where s: "s = (m, mi, mo)" by (cases s)
  obtain ps where ps: "input_buffer (slave l) = p # ps" using assms(2) by (auto simp: pop_input_def split: list.splits)
  have "data_packet p" using assms(1) ps s by (simp add: dir_ok_def)
  then show ?thesis using assms ps s by (auto simp: pop_input_def dir_ok_def data_packet_def)
qed

subsection \<open>Two connected links in operation\<close>

text \<open>Either side ticks, or its switch puts in or takes out a packet.\<close>
inductive link_step :: "rat \<Rightarrow> side \<times> side \<Rightarrow> side \<times> side \<Rightarrow> bool" for fc where
  tick: "link_tick fc l (Some m) = Some (l', Some m') \<Longrightarrow> link_step fc ((l, li, lo), (m, mi, mo)) ((l', li, lo), (m', mi, mo))"
| push: "data_packet p \<Longrightarrow> push_output p l = Some l' \<Longrightarrow> link_step fc ((l, li, lo), s) ((l', li @ [p], lo), s)"
| pop: "pop_input l = Some (p, l') \<Longrightarrow> link_step fc ((l, li, lo), s) ((l', li, lo @ [p]), s)"
| other_side: "link_step fc (s, t) (s', t') \<Longrightarrow> link_step fc (t, s) (t', s')"

definition connected :: "LinkType \<Rightarrow> LinkType \<Rightarrow> side \<times> side" where
  "connected a b = ((new_Link a, [], []), (new_Link b, [], []))"

lemma link_step_ok: "link_step fc st st' \<Longrightarrow> pair_ok (fst st) (snd st) \<Longrightarrow> pair_ok (fst st') (snd st')"
proof (induction rule: link_step.induct)
  case (tick l m l' m' li lo mi mo)
  then show ?case using link_tick_ok [of l li lo m mi mo fc] by simp
next
  case (push p l l' li lo s)
  then show ?case using push_output_ok by simp
next
  case (pop l p l' li lo s)
  then show ?case using pop_input_ok by simp
next
  case (other_side s t s' t')
  then show ?case using pair_ok_sym by simp
qed

lemma link_reach_ok:
  assumes "(link_step fc)\<^sup>*\<^sup>* (connected a b) st" and "a \<noteq> HOST_SOURCE_MODE" and "b \<noteq> HOST_SOURCE_MODE"
  shows "pair_ok (fst st) (snd st)"
  using assms(1)
proof (induction rule: rtranclp_induct)
  case base
  then show ?case using assms(2,3) by (simp add: connected_def new_Link_def dir_ok_def)
next
  case (step y z)
  then show ?case using link_step_ok by blast
qed

text \<open>
  C9. Links deliver every packet once and in order.  Between two connected links, whatever their switches put in and take out
  and however the two sides tick: the packets put in at one side are, but for the returned tokens they
  carry, those taken out at the other side followed by those still in the two buffers, in this order.  No buffer
  ever holds more than 32 flits, and each side can always tick: the assertion that the other side has space never fails.
\<close>
theorem link_lossless_in_order:
  assumes "(link_step fc)\<^sup>*\<^sup>* (connected a b) ((l, li, lo), (m, mi, mo))" and "a \<noteq> HOST_SOURCE_MODE" and "b \<noteq> HOST_SOURCE_MODE"
  shows "map strip li = map strip (mo @ input_buffer (slave m) @ output_buffer (master l)) \<and>
    flits (output_buffer (master l)) \<le> 32 \<and> flits (input_buffer (slave m)) \<le> 32 \<and>
    (\<exists>l' m'. link_tick fc l (Some m) = Some (l', Some m'))"
proof -
  have ok: "pair_ok (l, li, lo) (m, mi, mo)" using link_reach_ok [OF assms] by simp
  then have "dir_ok l m li mo" by simp
  then have "map strip li = map strip (mo @ input_buffer (slave m) @ output_buffer (master l))"
    "flits (output_buffer (master l)) \<le> 32" "flits (input_buffer (slave m)) \<le> 32"
    unfolding dir_ok_def by linarith+
  then show ?thesis using link_tick_ok [OF ok] by blast
qed

subsection \<open>Progress\<close>

text \<open>Sending \<open>n\<close> times from the second side.\<close>
primrec sends :: "rat \<Rightarrow> nat \<Rightarrow> Link \<times> Link \<Rightarrow> (Link \<times> Link) option" where
  "sends fc 0 lm = Some lm"
| "sends fc (Suc n) lm = do {
     (m, l) \<leftarrow> link_send fc (snd lm) (Some (fst lm));
     l1 \<leftarrow> l;
     sends fc n (l1, m)
   }"

lemma sends_ok:
  assumes "pair_ok (l, li, lo) (m, mi, mo)" and "extracted_token_count (slave m) < 2 ^ n"
  shows "\<exists>l' m'. sends fc n (l, m) = Some (l', m') \<and> pair_ok (l', li, lo) (m', mi, mo) \<and> extracted_token_count (slave m') = 0 \<and>
    input_buffer (slave m') = input_buffer (slave m) \<and> output_buffer (master l') = output_buffer (master l)"
  using assms
proof (induction n arbitrary: l m)
  case 0
  then have "extracted_token_count (slave m) = 0" by (simp add: dir_ok_def)
  then show ?case using 0 by simp
next
  case (Suc n)
  obtain m' l' b where s: "link_send fc m (Some l) = Some (m', Some l')" "pair_ok (m', mi, mo) (l', li, lo)"
    "leftmostbit (extracted_token_count (slave m)) = Some b" "extracted_token_count (slave m') = extracted_token_count (slave m) - b"
    "input_buffer (slave m') = input_buffer (slave m)" "output_buffer (master l') = output_buffer (master l)"
    using link_send_ok [OF pair_ok_sym [OF Suc(2)], of fc] by blast
  have e: "0 \<le> extracted_token_count (slave m)" using Suc(2) by (simp add: dir_ok_def)
  have "extracted_token_count (slave m') < 2 ^ n"
    using s(3,4) leftmostbit_ok [OF e] Suc(3) e by (cases "extracted_token_count (slave m) = 0") auto
  from Suc(1) [OF pair_ok_sym [OF s(2)] this] show ?case using s(1,5,6) by auto
qed

text \<open>
  C10. Links do not lose their tokens.  Whatever has happened between two connected links, a packet at the head of the output
  buffer for which the buffer at the other side has room is delivered after the other side has sent six
  times, with whatever it sends: by then it has returned all the tokens it holds.
\<close>
theorem link_progress:
  assumes "(link_step fc)\<^sup>*\<^sup>* (connected a b) ((l, li, lo), (m, mi, mo))" and "a \<noteq> HOST_SOURCE_MODE" and "b \<noteq> HOST_SOURCE_MODE"
    and "output_buffer (master l) = p # ps" and "total_flits p + flits (input_buffer (slave m)) \<le> 32"
  shows "\<exists>l1 m1 l2 m2 q. sends fc 6 (l, m) = Some (l1, m1) \<and> link_send fc l1 (Some m1) = Some (l2, Some m2) \<and>
    strip q = strip p \<and> input_buffer (slave m2) = input_buffer (slave m) @ [q]"
proof -
  have ok: "pair_ok (l, li, lo) (m, mi, mo)" using link_reach_ok [OF assms(1-3)] by simp
  then have d: "dir_ok l m li mo" by simp
  have "0 \<le> s_buffer_occupied (slave m)" using d flits_nonneg [of "input_buffer (slave m)"] by (simp add: dir_ok_def)
  then have "extracted_token_count (slave m) < 2 ^ 6" using d by (simp add: dir_ok_def)
  from sends_ok [OF ok this, of fc] obtain l1 m1 where s: "sends fc 6 (l, m) = Some (l1, m1)" "pair_ok (l1, li, lo) (m1, mi, mo)"
    "extracted_token_count (slave m1) = 0" "input_buffer (slave m1) = input_buffer (slave m)" "output_buffer (master l1) = p # ps"
    using assms(4) by auto
  have "total_flits p \<le> available_token_count (master l1)" using s(2-4) assms(5) by (auto simp: dir_ok_def)
  then show ?thesis using link_send_ok [OF s(2), of fc] s(1,4,5) by fastforce
qed

subsection \<open>An example\<close>

definition link_packet :: Packet where
  "link_packet = the (Packet_request PREQUEST 1 0 0 5 0 WR64)"

lemma link_example:
  "\<exists>l. (link_step 1)\<^sup>*\<^sup>* (connected PASSTHRU PASSTHRU) ((l, [link_packet], []), (new_Link PASSTHRU, [], [])) \<and>
    output_buffer (master l) = [link_packet]"
proof -
  let ?l = "(new_Link PASSTHRU)\<lparr>master := (master (new_Link PASSTHRU))\<lparr>output_buffer := [link_packet], m_buffer_occupied := 5\<rparr>\<rparr>"
  have "push_output link_packet (new_Link PASSTHRU) = Some ?l"
    by (simp add: push_output_def m_available_space_def new_Link_def link_packet_def Packet_request_def)
  then have "link_step 1 (connected PASSTHRU PASSTHRU) ((?l, [] @ [link_packet], []), (new_Link PASSTHRU, [], []))"
    unfolding connected_def by (rule link_step.push [rotated]) (simp add: data_packet_def link_packet_def Packet_request_def)
  then show ?thesis by (intro exI [of _ ?l]) auto
qed

theorem link_lossless_in_order_witness:
  "\<exists>l. (link_step 1)\<^sup>*\<^sup>* (connected PASSTHRU PASSTHRU) ((l, [link_packet], []), (new_Link PASSTHRU, [], [])) \<and>
    (\<exists>l' m'. link_tick 1 l (Some (new_Link PASSTHRU)) = Some (l', Some m'))"
  using link_example link_lossless_in_order [of 1 PASSTHRU PASSTHRU] by blast

theorem link_progress_witness:
  "\<exists>l l1 m1 l2 m2 q. (link_step 1)\<^sup>*\<^sup>* (connected PASSTHRU PASSTHRU) ((l, [link_packet], []), (new_Link PASSTHRU, [], [])) \<and>
    sends 1 6 (l, new_Link PASSTHRU) = Some (l1, m1) \<and> link_send 1 l1 (Some m1) = Some (l2, Some m2) \<and>
    strip q = strip link_packet \<and> input_buffer (slave m2) = [q]"
proof -
  obtain l where l: "(link_step 1)\<^sup>*\<^sup>* (connected PASSTHRU PASSTHRU) ((l, [link_packet], []), (new_Link PASSTHRU, [], []))"
    "output_buffer (master l) = [link_packet]" using link_example by blast
  have "total_flits link_packet + flits (input_buffer (slave (new_Link PASSTHRU))) \<le> 32" "input_buffer (slave (new_Link PASSTHRU)) = []"
    by (simp_all add: link_packet_def Packet_request_def new_Link_def)
  then show ?thesis using link_progress [OF l(1) _ _ l(2)] l(1) by simp blast
qed

end
